(* ===== verification/Prelude.thy ===== *)
theory Prelude
  imports Main "HOL-Library.Word" "HOL-Library.AList" "HOL-Library.List_Lexorder"
    "HOL-Library.Sublist"
begin

text \<open>
  Shared vocabulary of the development: the types of Python strings and bytes objects, the
  exceptions the modelled code can raise, results as sums, and the generic list lemmas and
  the two stream contracts the component theories instantiate.

  A Python \<open>str\<close> is a sequence of Unicode code points (\<open>pystr\<close>, a list of natural
  numbers), so that non-ASCII text and lone surrogates are values of the model. A
  \<open>bytes\<close> object is a list of 8-bit words. Literals are written \<open>lit ''abc''\<close>.
\<close>

section \<open>Types\<close>

type_synonym pystr = "nat list"
type_synonym byte = "8 word"
type_synonym bytes = "byte list"

text \<open>
  The exception classes that reach a handler of the modelled code. \<open>is_ValueError\<close> is the
  test \<open>except ValueError\<close> makes: the Unicode errors, \<open>json.JSONDecodeError\<close> and
  \<open>binascii.Error\<close> are subclasses of \<open>ValueError\<close>; \<open>struct.error\<close>, \<open>InvalidTag\<close>
  and \<open>OSError\<close> are not.
\<close>

datatype exn =
    ValueError | TypeError | AttributeError | OSError | StructError | InvalidTag | OverflowError
  | UnicodeEncodeError | UnicodeDecodeError | JSONDecodeError | BinasciiError

definition is_ValueError :: "exn \<Rightarrow> bool" where
  "is_ValueError e \<longleftrightarrow>
     e \<in> {ValueError, UnicodeEncodeError, UnicodeDecodeError, JSONDecodeError, BinasciiError}"

type_synonym 'a result = "exn + 'a"

definition rbind :: "'a result \<Rightarrow> ('a \<Rightarrow> 'b result) \<Rightarrow> 'b result" where
  "rbind r f = (case r of Inl e \<Rightarrow> Inl e | Inr x \<Rightarrow> f x)"

definition rmap :: "('a \<Rightarrow> 'b) \<Rightarrow> 'a result \<Rightarrow> 'b result" where
  "rmap f r = (case r of Inl e \<Rightarrow> Inl e | Inr x \<Rightarrow> Inr (f x))"

lemma rbind_simps [simp]:
  "rbind (Inl e) f = Inl e" "rbind (Inr x) f = f x"
  by (simp_all add: rbind_def)

lemma rmap_simps [simp]:
  "rmap f (Inl e) = Inl e" "rmap f (Inr x) = Inr (f x)"
  by (simp_all add: rmap_def)

lemma rbind_Inr_iff: "rbind r f = Inr y \<longleftrightarrow> (\<exists>x. r = Inr x \<and> f x = Inr y)"
  by (cases r) auto

lemma rmap_Inr_iff: "rmap f r = Inr y \<longleftrightarrow> (\<exists>x. r = Inr x \<and> f x = y)"
  by (cases r) auto

section \<open>Literals\<close>

definition lit :: "string \<Rightarrow> pystr" where
  "lit s = map of_char s"

text \<open>Facts that evaluate closed Python terms, for witnesses.\<close>

named_theorems py_eval

lemma lit_Nil [simp, py_eval]: "lit [] = []"
  by (simp add: lit_def)

lemma lit_Cons [py_eval]: "lit (c # cs) = of_char c # lit cs"
  by (simp add: lit_def)

lemma lit_eq_iff [simp]: "lit s = lit t \<longleftrightarrow> s = t"
  by (simp add: lit_def inj_eq inj_mapI inj_on_def)

lemma length_lit [simp]: "length (lit s) = length s"
  by (simp add: lit_def)

lemma lit_eq_Nil [simp]: "lit s = [] \<longleftrightarrow> s = []" "[] = lit s \<longleftrightarrow> s = []"
  by (simp_all add: lit_def)

section \<open>Generic list lemmas\<close>

lemma dropWhile_id_iff: "dropWhile P xs = xs \<longleftrightarrow> xs = [] \<or> \<not> P (hd xs)"
proof (cases xs)
  case (Cons x ys)
  have "length (dropWhile P ys) \<noteq> length (x # ys)"
    using length_dropWhile_le [of P ys] by simp
  then show ?thesis using Cons by (auto simp del: length_Cons)
qed simp

lemma takeWhile_all_append:
  "\<forall>x\<in>set xs. P x \<Longrightarrow> takeWhile P (xs @ ys) = xs @ takeWhile P ys"
  by (induction xs) auto

lemma set_dropWhile_subset: "set (dropWhile P xs) \<subseteq> set xs"
  by (auto dest: set_dropWhileD)

section \<open>Decoding a stream item by item\<close>

text \<open>
  A decoder for one item takes the input and returns the item with the rest of the input, or
  \<open>None\<close>. \<open>decode_all\<close> repeats it to the end of the input; an item that consumes nothing
  is a failure, which makes the loop end on every decoder.
\<close>

function decode_all :: "('b list \<Rightarrow> ('a \<times> 'b list) option) \<Rightarrow> 'b list \<Rightarrow> 'a list option" where
  "decode_all d s =
     (if s = [] then Some []
      else case d s of
             None \<Rightarrow> None
           | Some (x, r) \<Rightarrow>
               if length r < length s then map_option (Cons x) (decode_all d r) else None)"
  by pat_completeness auto
termination
  by (relation "measure (\<lambda>(d, s). length s)") auto

declare decode_all.simps [simp del]

lemma decode_all_Nil [simp]: "decode_all d [] = Some []"
  by (simp add: decode_all.simps)

lemma decode_all_step:
  "d s = Some (x, r) \<Longrightarrow> length r < length s \<Longrightarrow>
   decode_all d s = map_option (Cons x) (decode_all d r)"
  by (subst decode_all.simps) auto

text \<open>The contract of an item codec: what was encoded is read back and the rest is left.\<close>

locale prefix_codec =
  fixes enc :: "'a \<Rightarrow> 'b list"
    and dec :: "'b list \<Rightarrow> ('a \<times> 'b list) option"
    and ok :: "'a \<Rightarrow> bool"
  assumes dec_enc: "ok x \<Longrightarrow> dec (enc x @ rest) = Some (x, rest)"
    and enc_nonempty: "ok x \<Longrightarrow> enc x \<noteq> []"
begin

lemma decode_all_concat:
  "list_all ok xs \<Longrightarrow> decode_all dec (concat (map enc xs)) = Some xs"
proof (induction xs)
  case Nil
  then show ?case by simp
next
  case (Cons x xs)
  have "dec (enc x @ concat (map enc xs)) = Some (x, concat (map enc xs))"
    using Cons.prems by (simp add: dec_enc)
  moreover have "length (concat (map enc xs)) < length (enc x @ concat (map enc xs))"
    using Cons.prems by (simp add: enc_nonempty)
  ultimately show ?case
    using Cons by (simp add: decode_all_step)
qed

lemma decode_all_append:
  "list_all ok xs \<Longrightarrow>
   decode_all dec (concat (map enc xs) @ r) = map_option (append xs) (decode_all dec r)"
proof (induction xs)
  case Nil
  show ?case by (simp add: option.map_ident)
next
  case (Cons x xs)
  have "dec (enc x @ concat (map enc xs) @ r) = Some (x, concat (map enc xs) @ r)"
    using Cons.prems by (simp add: dec_enc)
  moreover have "length (concat (map enc xs) @ r) < length (enc x @ concat (map enc xs) @ r)"
    using Cons.prems by (simp add: enc_nonempty)
  ultimately show ?case
    using Cons by (simp add: decode_all_step option.map_comp comp_def)
qed

lemma concat_inject:
  assumes "list_all ok xs" and "list_all ok ys"
    and "concat (map enc xs) = concat (map enc ys)"
  shows "xs = ys"
proof -
  have "Some xs = decode_all dec (concat (map enc ys))"
    using decode_all_concat [OF assms(1)] unfolding assms(3) by (rule sym)
  then show ?thesis
    unfolding decode_all_concat [OF assms(2)] by simp
qed

end

text \<open>
  The contract of a whole-value codec with errors on both sides: decoding what was encoded
  gives the value back. Two such codecs compose.
\<close>

locale codec =
  fixes enc :: "'a \<Rightarrow> 'b result"
    and dec :: "'b \<Rightarrow> 'a result"
    and ok :: "'a \<Rightarrow> bool"
  assumes dec_enc: "ok x \<Longrightarrow> \<exists>y. enc x = Inr y \<and> dec y = Inr x"
begin

lemma enc_total: "ok x \<Longrightarrow> \<exists>y. enc x = Inr y"
  using dec_enc by blast

lemma dec_of_enc: "ok x \<Longrightarrow> enc x = Inr y \<Longrightarrow> dec y = Inr x"
  using dec_enc [of x] by auto

lemma enc_inject: "ok x \<Longrightarrow> ok x' \<Longrightarrow> enc x = Inr y \<Longrightarrow> enc x' = Inr y \<Longrightarrow> x = x'"
  using dec_of_enc [of x y] dec_of_enc [of x' y] by simp

end

locale codec_pair =
  inner: codec enc1 dec1 ok1 + outer: codec enc2 dec2 ok2
  for enc1 :: "'a \<Rightarrow> 'b result" and dec1 :: "'b \<Rightarrow> 'a result" and ok1 :: "'a \<Rightarrow> bool"
    and enc2 :: "'b \<Rightarrow> 'c result" and dec2 :: "'c \<Rightarrow> 'b result" and ok2 :: "'b \<Rightarrow> bool" +
  assumes inner_ok: "ok1 x \<Longrightarrow> enc1 x = Inr y \<Longrightarrow> ok2 y"

sublocale codec_pair \<subseteq> both:
  codec "\<lambda>x. rbind (enc1 x) enc2" "\<lambda>z. rbind (dec2 z) dec1" ok1
proof unfold_locales
  fix x
  assume x: "ok1 x"
  then obtain y where y: "enc1 x = Inr y" "dec1 y = Inr x"
    using inner.dec_enc by blast
  moreover obtain z where "enc2 y = Inr z" "dec2 z = Inr y"
    using outer.dec_enc inner_ok [OF x y(1)] by blast
  ultimately show "\<exists>z. rbind (enc1 x) enc2 = Inr z \<and> rbind (dec2 z) dec1 = Inr x"
    by auto
qed

end
