(* ===== verification/PyDict.thy ===== *)
theory PyDict
  imports Prelude
begin

text \<open>
  Python's \<open>dict\<close>: a finite map that keeps the order in which its keys were first
  inserted. The model is an association list with distinct keys; assigning to a key that is
  present updates its entry in place, assigning to a new key appends. The contract that the
  server's tables and the JSON objects rest on is the locale \<open>ordered_dict\<close>.
\<close>

definition dict_get :: "('k \<times> 'v) list \<Rightarrow> 'k \<Rightarrow> 'v option" where
  "dict_get m k = map_of m k"

fun dict_set :: "('k \<times> 'v) list \<Rightarrow> 'k \<Rightarrow> 'v \<Rightarrow> ('k \<times> 'v) list" where
  "dict_set [] k v = [(k, v)]"
| "dict_set (p # ps) k v = (if fst p = k then (k, v) # ps else p # dict_set ps k v)"

definition dict_del :: "('k \<times> 'v) list \<Rightarrow> 'k \<Rightarrow> ('k \<times> 'v) list" where
  "dict_del m k = filter (\<lambda>p. fst p \<noteq> k) m"

definition dict_keys :: "('k \<times> 'v) list \<Rightarrow> 'k list" where
  "dict_keys m = map fst m"

definition dict_ok :: "('k \<times> 'v) list \<Rightarrow> bool" where
  "dict_ok m \<longleftrightarrow> distinct (map fst m)"

definition dict_of_pairs :: "('k \<times> 'v) list \<Rightarrow> ('k \<times> 'v) list" where
  "dict_of_pairs ps = foldl (\<lambda>m p. dict_set m (fst p) (snd p)) [] ps"

locale ordered_dict =
  fixes empty :: "'m"
    and get :: "'m \<Rightarrow> 'k \<Rightarrow> 'v option"
    and upd :: "'m \<Rightarrow> 'k \<Rightarrow> 'v \<Rightarrow> 'm"
    and del :: "'m \<Rightarrow> 'k \<Rightarrow> 'm"
    and keys :: "'m \<Rightarrow> 'k list"
    and ok :: "'m \<Rightarrow> bool"
  assumes get_empty: "get empty k = None"
    and get_upd: "get (upd m k v) j = (if j = k then Some v else get m j)"
    and get_del: "get (del m k) j = (if j = k then None else get m j)"
    and in_keys: "k \<in> set (keys m) \<longleftrightarrow> get m k \<noteq> None"
    and distinct_keys: "ok m \<Longrightarrow> distinct (keys m)"
    and keys_upd: "keys (upd m k v) = (if get m k = None then keys m @ [k] else keys m)"
    and keys_del: "keys (del m k) = filter (\<lambda>j. j \<noteq> k) (keys m)"
    and ok_empty: "ok empty"
    and ok_upd: "ok m \<Longrightarrow> ok (upd m k v)"
    and ok_del: "ok m \<Longrightarrow> ok (del m k)"
begin

lemma upd_twice_get: "get (upd (upd m k v) k w) j = get (upd m k w) j"
  by (simp add: get_upd)

lemma keys_upd_present: "k \<in> set (keys m) \<Longrightarrow> keys (upd m k v) = keys m"
  by (simp add: keys_upd in_keys)

lemma set_keys_upd: "set (keys (upd m k v)) = insert k (set (keys m))"
proof (cases "get m k = None")
  case False
  then have "k \<in> set (keys m)" by (simp add: in_keys)
  with False show ?thesis by (simp add: keys_upd insert_absorb)
qed (simp add: keys_upd)

lemma set_keys_del: "set (keys (del m k)) = set (keys m) - {k}"
  by (auto simp: keys_del)

lemma get_foldl_upd:
  "get (foldl (\<lambda>d p. upd d (fst p) (snd p)) m ps) j =
     (case map_of (rev ps) j of Some v \<Rightarrow> Some v | None \<Rightarrow> get m j)"
  by (induction ps arbitrary: m) (auto simp: get_upd map_add_def split: option.splits)

lemma ok_foldl_upd: "ok m \<Longrightarrow> ok (foldl (\<lambda>d p. upd d (fst p) (snd p)) m ps)"
  by (induction ps arbitrary: m) (auto simp: ok_upd)

end

lemma dict_get_set [simp]: "dict_get (dict_set m k v) j = (if j = k then Some v else dict_get m j)"
  by (induction m) (auto simp: dict_get_def)

lemma dict_get_del [simp]: "dict_get (dict_del m k) j = (if j = k then None else dict_get m j)"
  by (induction m) (auto simp: dict_get_def dict_del_def)

lemma dict_keys_set:
  "dict_keys (dict_set m k v) = (if dict_get m k = None then dict_keys m @ [k] else dict_keys m)"
  by (induction m) (auto simp: dict_get_def dict_keys_def)

lemma in_dict_keys: "k \<in> set (dict_keys m) \<longleftrightarrow> dict_get m k \<noteq> None"
  by (auto simp: dict_get_def dict_keys_def map_of_eq_None_iff)

lemma dict_ok_set: "dict_ok m \<Longrightarrow> dict_ok (dict_set m k v)"
proof (induction m)
  case (Cons p ps)
  have "set (map fst (dict_set ps k v)) \<subseteq> insert k (set (map fst ps))"
    by (induction ps) auto
  with Cons show ?case by (auto simp: dict_ok_def)
qed (simp add: dict_ok_def)

interpretation pd: ordered_dict "[]" dict_get dict_set dict_del dict_keys dict_ok
proof unfold_locales
  show "\<And>m k. dict_keys (dict_del m k) = filter (\<lambda>j. j \<noteq> k) (dict_keys m)"
    by (simp add: dict_keys_def dict_del_def filter_map comp_def)
  show "\<And>m k. dict_ok m \<Longrightarrow> dict_ok (dict_del m k)"
    by (simp add: dict_ok_def dict_del_def distinct_map_filter)
  show "\<And>m k v. dict_ok m \<Longrightarrow> dict_ok (dict_set m k v)"
    by (rule dict_ok_set)
qed (auto simp: dict_keys_set in_dict_keys, auto simp: dict_get_def dict_ok_def dict_keys_def)

lemma dict_get_Nil [simp]: "dict_get [] k = None"
  by (simp add: dict_get_def)

lemma dict_get_Cons: "dict_get (p # ps) k = (if fst p = k then Some (snd p) else dict_get ps k)"
  by (simp add: dict_get_def)

lemma dict_get_SomeD: "dict_get m k = Some v \<Longrightarrow> (k, v) \<in> set m"
  by (auto simp: dict_get_def dest: map_of_SomeD)

lemma dict_get_in: "dict_ok m \<Longrightarrow> (k, v) \<in> set m \<Longrightarrow> dict_get m k = Some v"
  by (simp add: dict_get_def dict_ok_def)

lemma set_dict_set: "set (dict_set m k v) \<subseteq> insert (k, v) (set m)"
  by (induction m) auto

text \<open>Two orders of assignment to different present keys give the same dict.\<close>

lemma dict_set_same: "dict_get m k = Some v \<Longrightarrow> dict_ok m \<Longrightarrow> dict_set m k v = m"
  by (induction m) (auto simp: dict_get_def dict_ok_def dest: map_of_SomeD)

lemma dict_of_pairs_distinct:
  assumes "dict_ok ps"
  shows "dict_of_pairs ps = ps"
proof -
  have append: "dict_set m k v = m @ [(k, v)]" if "k \<notin> fst ` set m" for m :: "('a \<times> 'b) list" and k v
    using that by (induction m) auto
  have "foldl (\<lambda>m p. dict_set m (fst p) (snd p)) m ps = m @ ps"
    if "dict_ok ps" "fst ` set m \<inter> fst ` set ps = {}" for m
    using that
  proof (induction ps arbitrary: m)
    case (Cons p ps)
    have "dict_set m (fst p) (snd p) = m @ [p]"
      using Cons.prems(2) by (simp add: append)
    moreover have "foldl (\<lambda>m p. dict_set m (fst p) (snd p)) (m @ [p]) ps = (m @ [p]) @ ps"
      using Cons.prems by (intro Cons.IH) (auto simp: dict_ok_def)
    ultimately show ?case by simp
  qed simp
  then show ?thesis using assms by (simp add: dict_of_pairs_def)
qed

lemma dict_ok_of_pairs: "dict_ok (dict_of_pairs ps)"
  unfolding dict_of_pairs_def by (rule pd.ok_foldl_upd) (simp add: dict_ok_def)

end
