(* ===== verification/PyText.thy ===== *)
theory PyText
  imports Prelude
begin

text \<open>
  The text operations of the standard library that the program uses: the UTF-8 codec
  (strict, as \<open>str.encode('utf-8')\<close> and \<open>bytes.decode('utf-8')\<close>), \<open>str.strip\<close>,
  \<open>str.lstrip\<close>, \<open>str.replace\<close> of one character, \<open>os.path.basename\<close>,
  \<open>os.path.splitext\<close> and ASCII case folding.
\<close>

section \<open>UTF-8\<close>

definition is_surrogate :: "nat \<Rightarrow> bool" where
  "is_surrogate c \<longleftrightarrow> 0xD800 \<le> c \<and> c \<le> 0xDFFF"

text \<open>The code points UTF-8 can encode: no surrogate, at most \<open>0x10FFFF\<close>.\<close>

definition scalar_value :: "nat \<Rightarrow> bool" where
  "scalar_value c \<longleftrightarrow> c \<le> 0x10FFFF \<and> \<not> is_surrogate c"

definition utf8_char :: "nat \<Rightarrow> bytes" where
  "utf8_char c =
     (if c < 0x80 then [of_nat c]
      else if c < 0x800 then [of_nat (0xC0 + c div 0x40), of_nat (0x80 + c mod 0x40)]
      else if c < 0x10000 then
        [of_nat (0xE0 + c div 0x1000), of_nat (0x80 + c div 0x40 mod 0x40),
         of_nat (0x80 + c mod 0x40)]
      else
        [of_nat (0xF0 + c div 0x40000), of_nat (0x80 + c div 0x1000 mod 0x40),
         of_nat (0x80 + c div 0x40 mod 0x40), of_nat (0x80 + c mod 0x40)])"

definition utf8_encode :: "pystr \<Rightarrow> bytes result" where
  "utf8_encode s =
     (if list_all scalar_value s then Inr (concat (map utf8_char s)) else Inl UnicodeEncodeError)"

definition is_cont :: "byte \<Rightarrow> bool" where
  "is_cont b \<longleftrightarrow> 0x80 \<le> unat b \<and> unat b < 0xC0"

definition low6 :: "byte \<Rightarrow> nat" where
  "low6 b = unat b - 0x80"

text \<open>
  One code point: overlong forms, surrogates, values past \<open>0x10FFFF\<close>, truncated sequences
  and stray continuation bytes are errors.
\<close>

definition utf8_decode1 :: "bytes \<Rightarrow> (nat \<times> bytes) option" where
  "utf8_decode1 s =
     (case s of
        [] \<Rightarrow> None
      | b0 # t \<Rightarrow>
          if unat b0 < 0x80 then Some (unat b0, t)
          else if unat b0 < 0xC2 then None
          else if unat b0 < 0xE0 then
            (case t of
               b1 # r \<Rightarrow>
                 if is_cont b1 then Some ((unat b0 - 0xC0) * 0x40 + low6 b1, r) else None
             | _ \<Rightarrow> None)
          else if unat b0 < 0xF0 then
            (case t of
               b1 # b2 # r \<Rightarrow>
                 (let c = (unat b0 - 0xE0) * 0x1000 + low6 b1 * 0x40 + low6 b2
                  in if is_cont b1 \<and> is_cont b2 \<and> 0x800 \<le> c \<and> \<not> is_surrogate c
                     then Some (c, r) else None)
             | _ \<Rightarrow> None)
          else if unat b0 < 0xF5 then
            (case t of
               b1 # b2 # b3 # r \<Rightarrow>
                 (let c = (unat b0 - 0xF0) * 0x40000 + low6 b1 * 0x1000 + low6 b2 * 0x40 + low6 b3
                  in if is_cont b1 \<and> is_cont b2 \<and> is_cont b3 \<and> 0x10000 \<le> c \<and> c \<le> 0x10FFFF
                     then Some (c, r) else None)
             | _ \<Rightarrow> None)
          else None)"

definition utf8_decode :: "bytes \<Rightarrow> pystr result" where
  "utf8_decode bs =
     (case decode_all utf8_decode1 bs of None \<Rightarrow> Inl UnicodeDecodeError | Some s \<Rightarrow> Inr s)"

lemma unat_of_nat8: "n < 0x100 \<Longrightarrow> unat (of_nat n :: byte) = n"
  by (simp add: unat_of_nat)

lemma is_cont_of_nat: "n < 0x40 \<Longrightarrow> is_cont (of_nat (0x80 + n))"
  by (simp add: is_cont_def unat_of_nat8 del: of_nat_add)

lemma low6_of_nat: "n < 0x40 \<Longrightarrow> low6 (of_nat (0x80 + n)) = n"
  by (simp add: low6_def unat_of_nat8 del: of_nat_add)

lemma six_bit_digits2: "c div 0x40 * 0x40 + c mod 0x40 = (c::nat)"
  by (rule div_mult_mod_eq)

lemma six_bit_digits3:
  "c div 0x1000 * 0x1000 + c div 0x40 mod 0x40 * 0x40 + c mod 0x40 = (c::nat)"
proof -
  have "c div 0x40 div 0x40 * 0x40 + c div 0x40 mod 0x40 = c div 0x40"
    by (rule six_bit_digits2)
  moreover have "c div 0x40 div 0x40 = c div 0x1000"
    by (simp add: div_mult2_eq [symmetric])
  ultimately show ?thesis using six_bit_digits2 [of c] by linarith
qed

lemma six_bit_digits4:
  "c div 0x40000 * 0x40000 + c div 0x1000 mod 0x40 * 0x1000 + c div 0x40 mod 0x40 * 0x40
     + c mod 0x40 = (c::nat)"
proof -
  have "c div 0x1000 div 0x40 * 0x40 + c div 0x1000 mod 0x40 = c div 0x1000"
    by (rule six_bit_digits2)
  moreover have "c div 0x1000 div 0x40 = c div 0x40000"
    by (simp add: div_mult2_eq [symmetric])
  ultimately show ?thesis using six_bit_digits3 [of c] by linarith
qed

lemma utf8_decode1_char2:
  assumes "0x80 \<le> c" "c < 0x800"
  shows "utf8_decode1 (utf8_char c @ rest) = Some (c, rest)"
proof -
  let ?b0 = "of_nat (0xC0 + c div 0x40) :: byte"
  have d: "c div 0x40 < 0x20" "2 \<le> c div 0x40" using assms by linarith+
  then have b0: "unat ?b0 = 0xC0 + c div 0x40" by (intro unat_of_nat8) simp
  show ?thesis
    using assms d b0 is_cont_of_nat [of "c mod 0x40"] low6_of_nat [of "c mod 0x40"]
    by (simp add: utf8_char_def utf8_decode1_def del: of_nat_add)
qed

lemma utf8_decode1_char3:
  assumes "0x800 \<le> c" "c < 0x10000" "\<not> is_surrogate c"
  shows "utf8_decode1 (utf8_char c @ rest) = Some (c, rest)"
proof -
  let ?b0 = "of_nat (0xE0 + c div 0x1000) :: byte"
  have d: "c div 0x1000 < 0x10" using assms by linarith
  then have b0: "unat ?b0 = 0xE0 + c div 0x1000" by (intro unat_of_nat8) simp
  show ?thesis
    using assms d b0 is_cont_of_nat [of "c mod 0x40"] low6_of_nat [of "c mod 0x40"]
      is_cont_of_nat [of "c div 0x40 mod 0x40"] low6_of_nat [of "c div 0x40 mod 0x40"]
      six_bit_digits3 [of c]
    by (simp add: utf8_char_def utf8_decode1_def Let_def del: of_nat_add)
qed

lemma utf8_decode1_char4:
  assumes "0x10000 \<le> c" "c \<le> 0x10FFFF"
  shows "utf8_decode1 (utf8_char c @ rest) = Some (c, rest)"
proof -
  let ?b0 = "of_nat (0xF0 + c div 0x40000) :: byte"
  have d: "c div 0x40000 < 5" using assms by linarith
  then have b0: "unat ?b0 = 0xF0 + c div 0x40000" by (intro unat_of_nat8) simp
  show ?thesis
    using assms d b0 is_cont_of_nat [of "c mod 0x40"] low6_of_nat [of "c mod 0x40"]
      is_cont_of_nat [of "c div 0x40 mod 0x40"] low6_of_nat [of "c div 0x40 mod 0x40"]
      is_cont_of_nat [of "c div 0x1000 mod 0x40"] low6_of_nat [of "c div 0x1000 mod 0x40"]
      six_bit_digits4 [of c]
    by (simp add: utf8_char_def utf8_decode1_def Let_def del: of_nat_add)
qed

lemma utf8_decode1_char:
  assumes "scalar_value c"
  shows "utf8_decode1 (utf8_char c @ rest) = Some (c, rest)"
proof -
  consider "c < 0x80" | "0x80 \<le> c" "c < 0x800" | "0x800 \<le> c" "c < 0x10000" | "0x10000 \<le> c"
    by linarith
  then show ?thesis
  proof cases
    case 1
    then show ?thesis by (simp add: utf8_char_def utf8_decode1_def unat_of_nat8)
  qed (use assms in \<open>simp_all add: scalar_value_def utf8_decode1_char2 utf8_decode1_char3
        utf8_decode1_char4\<close>)
qed

lemma utf8_char_nonempty: "utf8_char c \<noteq> []"
  by (simp add: utf8_char_def)

interpretation u8: prefix_codec utf8_char utf8_decode1 scalar_value
  by unfold_locales (simp_all add: utf8_decode1_char utf8_char_nonempty)

interpretation utf8: codec utf8_encode utf8_decode "list_all scalar_value"
  by unfold_locales (simp add: utf8_encode_def utf8_decode_def u8.decode_all_concat)

text \<open>The sizes the limits of the program are about.\<close>

lemma length_utf8_char: "length (utf8_char c) \<le> 4" "0 < length (utf8_char c)"
  by (simp_all add: utf8_char_def)

lemma length_utf8_ascii: "c < 0x80 \<Longrightarrow> length (utf8_char c) = 1"
  by (simp add: utf8_char_def)

lemma utf8_encode_ascii:
  assumes "list_all (\<lambda>c. c < 0x80) s"
  shows "utf8_encode s = Inr (map of_nat s)"
proof -
  have "list_all scalar_value s"
    using assms by (rule list.pred_mono_strong) (simp add: scalar_value_def is_surrogate_def)
  moreover have "concat (map utf8_char s) = map of_nat s"
    using assms by (induction s) (auto simp: utf8_char_def)
  ultimately show ?thesis by (simp add: utf8_encode_def)
qed

text \<open>A decoded text has no surrogates.\<close>

lemma is_cont_low6: "is_cont b \<Longrightarrow> low6 b < 0x40"
  by (auto simp: is_cont_def low6_def)

lemma utf8_decode1_scalar: "utf8_decode1 s = Some (c, r) \<Longrightarrow> scalar_value c"
proof -
  assume a: "utf8_decode1 s = Some (c, r)"
  then obtain b t where s: "s = b # t" by (auto simp: utf8_decode1_def split: list.splits)
  consider "unat b < 0x80" | "unat b < 0xC2" "\<not> unat b < 0x80" | "0xC2 \<le> unat b" "unat b < 0xE0"
    | "0xE0 \<le> unat b" "unat b < 0xF0" | "0xF0 \<le> unat b" "unat b < 0xF5" | "0xF5 \<le> unat b"
    by linarith
  then show ?thesis
  proof cases
    case 3
    with a s show ?thesis
      by (auto simp: utf8_decode1_def scalar_value_def is_surrogate_def dest!: is_cont_low6
          split: list.splits if_splits)
  next
    case 4
    with a s obtain b1 b2 where "is_cont b1" "is_cont b2" "\<not> is_surrogate c"
      "c = (unat b - 0xE0) * 0x1000 + low6 b1 * 0x40 + low6 b2"
      by (auto simp: utf8_decode1_def Let_def split: list.splits if_splits)
    moreover have "unat b - 0xE0 \<le> 0xF" using 4 by simp
    ultimately show ?thesis
      using is_cont_low6 [of b1] is_cont_low6 [of b2] by (simp add: scalar_value_def)
  next
    case 5
    with a s show ?thesis
      by (auto simp: utf8_decode1_def scalar_value_def is_surrogate_def Let_def
          split: list.splits if_splits)
  qed (use a s in \<open>auto simp: utf8_decode1_def scalar_value_def is_surrogate_def\<close>)
qed

lemma decode_all_out:
  "decode_all d s = Some xs \<Longrightarrow> (\<And>s x r. d s = Some (x, r) \<Longrightarrow> P x) \<Longrightarrow> list_all P xs"
proof (induction d s arbitrary: xs rule: decode_all.induct)
  case (1 d s)
  show ?case
  proof (cases "s = []")
    case False
    have "decode_all d s = (case d s of None \<Rightarrow> None
        | Some (x, r) \<Rightarrow> if length r < length s then map_option (Cons x) (decode_all d r) else None)"
      using False by (subst decode_all.simps) simp
    with "1.prems" obtain x r ys where "d s = Some (x, r)" "length r < length s"
      "decode_all d r = Some ys" "xs = x # ys"
      by (auto split: option.splits if_splits)
    then show ?thesis using "1.IH" [OF False] "1.prems"(2) by auto
  qed (use "1.prems" in simp)
qed

lemma utf8_decode_scalar: "utf8_decode bs = Inr s \<Longrightarrow> list_all scalar_value s"
  using decode_all_out [of utf8_decode1 bs s scalar_value] utf8_decode1_scalar
  by (auto simp: utf8_decode_def split: option.splits)

lemma utf8_decode_ascii: "list_all (\<lambda>c. c < 0x80) s \<Longrightarrow> utf8_decode (map of_nat s) = Inr s"
proof -
  assume a: "list_all (\<lambda>c. c < 0x80) s"
  then have "list_all scalar_value s"
    by (rule list.pred_mono_strong) (simp add: scalar_value_def is_surrogate_def)
  then show ?thesis using utf8.dec_of_enc utf8_encode_ascii [OF a] by blast
qed

section \<open>Stripping and paths\<close>

text \<open>The characters \<open>str.strip()\<close> removes when it is called without an argument.\<close>

definition is_space :: "nat \<Rightarrow> bool" where
  "is_space c \<longleftrightarrow>
     (9 \<le> c \<and> c \<le> 13) \<or> (28 \<le> c \<and> c \<le> 32) \<or> c = 0x85 \<or> c = 0xA0 \<or> c = 0x1680 \<or>
     (0x2000 \<le> c \<and> c \<le> 0x200A) \<or> c = 0x2028 \<or> c = 0x2029 \<or> c = 0x202F \<or> c = 0x205F \<or> c = 0x3000"

definition strip_by :: "(nat \<Rightarrow> bool) \<Rightarrow> pystr \<Rightarrow> pystr" where
  "strip_by P s = rev (dropWhile P (rev (dropWhile P s)))"

definition str_strip :: "pystr \<Rightarrow> pystr" where
  "str_strip s = strip_by is_space s"

definition lstrip_char :: "nat \<Rightarrow> pystr \<Rightarrow> pystr" where
  "lstrip_char c s = dropWhile (\<lambda>d. d = c) s"

text \<open>\<open>s.replace(a, b)\<close> for one-character strings \<open>a\<close> and \<open>b\<close>.\<close>

definition replace_char :: "nat \<Rightarrow> nat \<Rightarrow> pystr \<Rightarrow> pystr" where
  "replace_char a b s = map (\<lambda>c. if c = a then b else c) s"

text \<open>\<open>s.split(c)\<close> for a single character, with the part read so far, reversed.\<close>

fun split_acc :: "nat \<Rightarrow> pystr \<Rightarrow> pystr \<Rightarrow> pystr list" where
  "split_acc d acc [] = [rev acc]"
| "split_acc d acc (c # cs) =
     (if c = d then rev acc # split_acc d [] cs else split_acc d (c # acc) cs)"

text \<open>\<open>s.replace(sub, "")\<close>, and \<open>s.split(sub)[0]\<close>, for a separator that is not empty.\<close>

function remove_all :: "pystr \<Rightarrow> pystr \<Rightarrow> pystr" where
  "remove_all sub [] = []"
| "remove_all sub (c # cs) =
     (if sub \<noteq> [] \<and> take (length sub) (c # cs) = sub
      then remove_all sub (drop (length sub) (c # cs))
      else c # remove_all sub cs)"
  by pat_completeness auto
termination
  by (relation "measure (length \<circ> snd)") (auto simp: neq_Nil_conv)

fun before :: "pystr \<Rightarrow> pystr \<Rightarrow> pystr" where
  "before sub [] = []"
| "before sub (c # cs) =
     (if take (length sub) (c # cs) = sub then [] else c # before sub cs)"

text \<open>\<open>os.path.basename\<close> (POSIX): what follows the last slash.\<close>

definition path_basename :: "pystr \<Rightarrow> pystr" where
  "path_basename s = rev (takeWhile (\<lambda>c. c \<noteq> 47) (rev s))"

definition lower_ascii :: "pystr \<Rightarrow> pystr" where
  "lower_ascii s = map (\<lambda>c. if 65 \<le> c \<and> c \<le> 90 then c + 32 else c) s"

text \<open>
  \<open>os.path.splitext(s)[1]\<close> for a name without a slash: from the last dot on, unless only
  dots stand before that dot.
\<close>

definition splitext_ext :: "pystr \<Rightarrow> pystr" where
  "splitext_ext s =
     (let tail = takeWhile (\<lambda>c. c \<noteq> 46) (rev s);
          front = drop (Suc (length tail)) (rev s)
      in if length tail = length s \<or> list_all (\<lambda>c. c = 46) front then []
         else 46 # rev tail)"

lemma strip_by_subset: "set (strip_by P s) \<subseteq> set s"
proof -
  have "set (strip_by P s) \<subseteq> set (dropWhile P s)"
    unfolding strip_by_def set_rev using set_dropWhile_subset [of P "rev (dropWhile P s)"] by simp
  then show ?thesis using set_dropWhile_subset [of P s] by blast
qed

lemma strip_by_keeps: "x \<in> set s \<Longrightarrow> \<not> P x \<Longrightarrow> x \<in> set (strip_by P s)"
proof -
  have keep: "x \<in> set t \<Longrightarrow> \<not> P x \<Longrightarrow> x \<in> set (dropWhile P t)" for t
    by (induction t) auto
  assume "x \<in> set s" "\<not> P x"
  then show ?thesis using keep [of s] keep [of "rev (dropWhile P s)"] by (simp add: strip_by_def)
qed

lemma strip_by_hd: "strip_by P s \<noteq> [] \<Longrightarrow> \<not> P (hd (strip_by P s))"
proof -
  assume ne: "strip_by P s \<noteq> []"
  define t where "t = dropWhile P s"
  obtain u where u: "t = strip_by P s @ u"
    unfolding strip_by_def t_def
    by (metis append_assoc rev_append rev_rev_ident takeWhile_dropWhile_id)
  with ne have "hd t = hd (strip_by P s)" "t \<noteq> []" by auto
  moreover have "\<not> P (hd t)" using \<open>t \<noteq> []\<close> unfolding t_def by (rule hd_dropWhile)
  ultimately show ?thesis by simp
qed

lemma strip_by_last: "strip_by P s \<noteq> [] \<Longrightarrow> \<not> P (last (strip_by P s))"
  unfolding strip_by_def by (metis hd_dropWhile last_rev rev_is_Nil_conv)

lemma strip_by_id:
  assumes "s = [] \<or> (\<not> P (hd s) \<and> \<not> P (last s))"
  shows "strip_by P s = s"
proof (cases "s = []")
  case False
  with assms have "dropWhile P s = s" "dropWhile P (rev s) = rev s"
    by (simp_all add: dropWhile_id_iff hd_rev)
  then show ?thesis by (simp add: strip_by_def)
qed (simp add: strip_by_def)

lemma strip_by_id_iff: "strip_by P s = s \<longleftrightarrow> s = [] \<or> (\<not> P (hd s) \<and> \<not> P (last s))"
  using strip_by_hd [of P s] strip_by_last [of P s] strip_by_id [of s P] by auto

lemma basename_no_slash: "47 \<notin> set (path_basename s)"
  by (auto simp: path_basename_def dest: set_takeWhileD)

lemma basename_id: "47 \<notin> set s \<Longrightarrow> path_basename s = s"
proof -
  assume "47 \<notin> set s"
  then have "takeWhile (\<lambda>c. c \<noteq> 47) (rev s) = rev s"
    by (intro takeWhile_eq_all_conv [THEN iffD2]) auto
  then show ?thesis by (simp only: path_basename_def rev_rev_ident)
qed

lemma replace_char_id: "a \<notin> set s \<Longrightarrow> replace_char a b s = s"
  by (induction s) (auto simp: replace_char_def)

lemma splitext_ext_append:
  assumes "46 \<notin> set e" and "\<not> list_all (\<lambda>c. c = 46) b"
  shows "splitext_ext (b @ 46 # e) = 46 # e"
proof -
  have "takeWhile (\<lambda>c. c \<noteq> 46) (rev (b @ 46 # e)) = rev e"
    using assms(1) takeWhile_all_append [of "rev e" "\<lambda>c. c \<noteq> 46" "46 # rev b"] by auto
  with assms show ?thesis by (simp add: splitext_ext_def list_all_iff)
qed

lemma lstrip_char_id: "s = [] \<or> hd s \<noteq> c \<Longrightarrow> lstrip_char c s = s"
  by (cases s) (auto simp: lstrip_char_def)

lemma split_acc_none: "d \<notin> set s \<Longrightarrow> split_acc d acc s = [rev acc @ s]"
  by (induction s arbitrary: acc) auto

lemma split_acc_first: "d \<notin> set s \<Longrightarrow> split_acc d acc (s @ d # t) = (rev acc @ s) # split_acc d [] t"
  by (induction s arbitrary: acc) auto

lemma split_acc_some: "split_acc d acc s \<noteq> []"
  by (induction s arbitrary: acc) auto

lemma remove_all_absent: "x \<in> set sub \<Longrightarrow> x \<notin> set s \<Longrightarrow> remove_all sub s = s"
proof (induction sub s rule: remove_all.induct)
  case (2 sub c cs)
  have "take (length sub) (c # cs) \<noteq> sub"
    using 2(3,4) by (metis in_set_takeD)
  then show ?case using 2 by simp
qed simp

text \<open>Text without the first character of the separator stays.\<close>

lemma remove_all_append:
  "a \<notin> set s \<Longrightarrow> remove_all (a # sub) (s @ t) = s @ remove_all (a # sub) t"
  by (induction s) auto

lemma before_append:
  "a \<notin> set s \<Longrightarrow> before (a # sub) (s @ (a # sub) @ t) = s"
  by (induction s) auto

lemma before_absent: "a \<notin> set s \<Longrightarrow> before (a # sub) s = s"
  by (induction s) auto

end
