(* ===== verification/Json.thy ===== *)
theory Json
  imports PyDict PyText
begin

text \<open>
  The JSON values the program exchanges and the part of the \<open>json\<close> module it uses:
  \<open>json.dumps\<close> with default options (ASCII output, separators \<open>', '\<close> and \<open>': '\<close>) and
  \<open>json.loads\<close>; \<open>str()\<close>, \<open>repr()\<close> and the truth value of the Python objects that
  \<open>json.loads\<close> can return. An object keeps the order of its keys.

  A float is identified by its \<open>repr\<close>; the conversion of a decimal literal to the
  nearest double, \<open>float()\<close>, belongs to the interpreter and is the parameter \<open>fl\<close>. Which
  non-ASCII code points count as printable, a table of the interpreter's Unicode database, is
  the parameter \<open>pr\<close>; only \<open>repr\<close> of a string inside a container depends on it.
\<close>

section \<open>Values\<close>

datatype pyfloat = FNan | FPosInf | FNegInf | FFin pystr

datatype json =
    JNull | JBool bool | JInt int | JFloat pyfloat | JStr pystr
  | JList "json list" | JObj "(pystr \<times> json) list"

type_synonym jobject = "(pystr \<times> json) list"

text \<open>Truth value testing.\<close>

fun truthy :: "json \<Rightarrow> bool" where
  "truthy JNull = False"
| "truthy (JBool b) = b"
| "truthy (JInt i) = (i \<noteq> 0)"
| "truthy (JFloat (FFin r)) = (r \<noteq> lit ''0.0'' \<and> r \<noteq> lit ''-0.0'')"
| "truthy (JFloat f) = True"
| "truthy (JStr s) = (s \<noteq> [])"
| "truthy (JList vs) = (vs \<noteq> [])"
| "truthy (JObj ps) = (ps \<noteq> [])"

text \<open>\<open>d.get(key)\<close> and \<open>d.get(key, default)\<close>.\<close>

definition jget :: "jobject \<Rightarrow> pystr \<Rightarrow> json" where
  "jget p k = (case dict_get p k of None \<Rightarrow> JNull | Some v \<Rightarrow> v)"

definition jget_or :: "jobject \<Rightarrow> pystr \<Rightarrow> json \<Rightarrow> json" where
  "jget_or p k d = (case dict_get p k of None \<Rightarrow> d | Some v \<Rightarrow> v)"

lemma jget_set [simp]: "jget (dict_set p k v) j = (if j = k then v else jget p j)"
  by (simp add: jget_def)

lemma jget_or_set [simp]: "jget_or (dict_set p k v) j d = (if j = k then v else jget_or p j d)"
  by (simp add: jget_or_def)

lemma jget_or_JNull: "jget_or p k JNull = jget p k"
  by (simp add: jget_or_def jget_def)

section \<open>Integers in decimal\<close>

fun dec_nat :: "nat \<Rightarrow> pystr" where
  "dec_nat n = (if n < 10 then [48 + n] else dec_nat (n div 10) @ [48 + n mod 10])"

declare dec_nat.simps [simp del]

definition int_str :: "int \<Rightarrow> pystr" where
  "int_str i = (if i < 0 then 45 # dec_nat (nat (- i)) else dec_nat (nat i))"

definition is_digit :: "nat \<Rightarrow> bool" where
  "is_digit c \<longleftrightarrow> 48 \<le> c \<and> c \<le> 57"

definition dec_value :: "pystr \<Rightarrow> nat" where
  "dec_value ds = foldl (\<lambda>n d. 10 * n + (d - 48)) 0 ds"

lemma dec_nat_digits: "list_all is_digit (dec_nat n)"
proof (induction n rule: dec_nat.induct)
  case (1 n)
  show ?case
    by (subst dec_nat.simps) (use 1 in \<open>auto simp: list_all_iff is_digit_def\<close>)
qed

lemma dec_nat_nonempty: "dec_nat n \<noteq> []"
  by (subst dec_nat.simps) simp

lemma dec_value_dec_nat [simp]: "dec_value (dec_nat n) = n"
proof (induction n rule: dec_nat.induct)
  case (1 n)
  show ?case
    by (subst dec_nat.simps) (use 1 in \<open>auto simp: dec_value_def\<close>)
qed

lemma dec_nat_head: "n \<noteq> 0 \<Longrightarrow> hd (dec_nat n) \<noteq> 48"
proof (induction n rule: dec_nat.induct)
  case (1 n)
  show ?case
    by (subst dec_nat.simps) (use 1 dec_nat_nonempty in \<open>auto simp: hd_append\<close>)
qed

section \<open>Strings\<close>

definition hex_digit :: "nat \<Rightarrow> nat" where
  "hex_digit d = (if d < 10 then 48 + d else 87 + d)"

definition hex4_text :: "nat \<Rightarrow> pystr" where
  "hex4_text c =
     [hex_digit (c div 0x1000), hex_digit (c div 0x100 mod 0x10), hex_digit (c div 0x10 mod 0x10),
      hex_digit (c mod 0x10)]"

definition is_high :: "nat \<Rightarrow> bool" where
  "is_high c \<longleftrightarrow> 0xD800 \<le> c \<and> c \<le> 0xDBFF"

definition is_low :: "nat \<Rightarrow> bool" where
  "is_low c \<longleftrightarrow> 0xDC00 \<le> c \<and> c \<le> 0xDFFF"

definition join_pair :: "nat \<Rightarrow> nat \<Rightarrow> nat" where
  "join_pair h l = 0x10000 + (h - 0xD800) * 0x400 + (l - 0xDC00)"

text \<open>One character of the ASCII-only string encoder.\<close>

definition esc_char :: "nat \<Rightarrow> pystr" where
  "esc_char c =
     (if c = 34 then [92, 34] else if c = 92 then [92, 92]
      else if c = 10 then [92, 110] else if c = 13 then [92, 114] else if c = 9 then [92, 116]
      else if c = 8 then [92, 98] else if c = 12 then [92, 102]
      else if 32 \<le> c \<and> c \<le> 126 then [c]
      else if c < 0x10000 then 92 # 117 # hex4_text c
      else 92 # 117 # hex4_text (0xD800 + (c - 0x10000) div 0x400) @
           92 # 117 # hex4_text (0xDC00 + (c - 0x10000) mod 0x400))"

definition dumps_str :: "pystr \<Rightarrow> pystr" where
  "dumps_str s = 34 # concat (map esc_char s) @ [34]"

definition hex_value :: "nat \<Rightarrow> nat option" where
  "hex_value c =
     (if 48 \<le> c \<and> c \<le> 57 then Some (c - 48)
      else if 97 \<le> c \<and> c \<le> 102 then Some (c - 87)
      else if 65 \<le> c \<and> c \<le> 70 then Some (c - 55) else None)"

definition scan_hex4 :: "pystr \<Rightarrow> (nat \<times> pystr) option" where
  "scan_hex4 s =
     (case s of
        a # b # c # d # r \<Rightarrow>
          (case (hex_value a, hex_value b, hex_value c, hex_value d) of
             (Some w, Some x, Some y, Some z) \<Rightarrow>
               Some (w * 0x1000 + x * 0x100 + y * 0x10 + z, r)
           | _ \<Rightarrow> None)
      | _ \<Rightarrow> None)"

text \<open>What follows \<open>\u\<close>: four hex digits, and the second half of a surrogate pair.\<close>

definition scan_unicode :: "pystr \<Rightarrow> (nat \<times> pystr) option" where
  "scan_unicode s =
     (case scan_hex4 s of
        None \<Rightarrow> None
      | Some (c, r) \<Rightarrow>
          if is_high c then
            (case r of
               a # b # r2 \<Rightarrow>
                 if a = 92 \<and> b = 117 then
                   (case scan_hex4 r2 of
                      None \<Rightarrow> None
                    | Some (d, r3) \<Rightarrow>
                        if is_low d then Some (join_pair c d, r3) else Some (c, r))
                 else Some (c, r)
             | _ \<Rightarrow> Some (c, r))
          else Some (c, r))"

definition simple_escape :: "nat \<Rightarrow> nat option" where
  "simple_escape e =
     (if e = 34 \<or> e = 92 \<or> e = 47 then Some e
      else if e = 98 then Some 8 else if e = 102 then Some 12 else if e = 110 then Some 10
      else if e = 114 then Some 13 else if e = 116 then Some 9 else None)"

definition scan_escape :: "pystr \<Rightarrow> (nat \<times> pystr) option" where
  "scan_escape s =
     (case s of
        [] \<Rightarrow> None
      | e # r \<Rightarrow>
          if e = 117 then scan_unicode r else map_option (\<lambda>d. (d, r)) (simple_escape e))"

lemma scan_hex4_shorter: "scan_hex4 s = Some (c, r) \<Longrightarrow> length r < length s"
  by (auto simp: scan_hex4_def split: list.splits option.splits prod.splits)

lemma scan_unicode_shorter: "scan_unicode s = Some (c, r) \<Longrightarrow> length r < length s"
  by (auto simp: scan_unicode_def dest!: scan_hex4_shorter
      split: list.splits option.splits prod.splits if_splits)

lemma scan_escape_shorter: "scan_escape s = Some (c, r) \<Longrightarrow> length r < length s"
  by (auto simp: scan_escape_def dest!: scan_unicode_shorter split: list.splits if_splits)

text \<open>The body of a string literal, after its opening quote.\<close>

function scan_str :: "pystr \<Rightarrow> (pystr \<times> pystr) option" where
  "scan_str [] = None"
| "scan_str (c # cs) =
     (if c = 34 then Some ([], cs)
      else if c = 92 then
        (case scan_escape cs of
           None \<Rightarrow> None
         | Some (e, r) \<Rightarrow> map_option (\<lambda>(t, r'). (e # t, r')) (scan_str r))
      else if c < 32 then None
      else map_option (\<lambda>(t, r'). (c # t, r')) (scan_str cs))"
  by pat_completeness auto
termination
  by (relation "measure length") (auto dest: scan_escape_shorter)

lemma scan_str_shorter: "scan_str s = Some (t, r) \<Longrightarrow> length r < length s"
proof (induction s arbitrary: t r rule: scan_str.induct)
  case (2 c cs)
  then show ?case
    by (fastforce split: if_splits option.splits dest: scan_escape_shorter)
qed simp

section \<open>The encoder\<close>

definition float_text :: "pyfloat \<Rightarrow> pystr" where
  "float_text f =
     (case f of FNan \<Rightarrow> lit ''NaN'' | FPosInf \<Rightarrow> lit ''Infinity'' | FNegInf \<Rightarrow> lit ''-Infinity''
      | FFin r \<Rightarrow> r)"

fun dumps :: "json \<Rightarrow> pystr"
  and dumps_elems :: "json list \<Rightarrow> pystr"
  and dumps_members :: "jobject \<Rightarrow> pystr" where
  "dumps JNull = lit ''null''"
| "dumps (JBool b) = (if b then lit ''true'' else lit ''false'')"
| "dumps (JInt i) = int_str i"
| "dumps (JFloat f) = float_text f"
| "dumps (JStr s) = dumps_str s"
| "dumps (JList vs) = 91 # dumps_elems vs @ [93]"
| "dumps (JObj ps) = 123 # dumps_members ps @ [125]"
| "dumps_elems [] = []"
| "dumps_elems [v] = dumps v"
| "dumps_elems (v # w # vs) = dumps v @ 44 # 32 # dumps_elems (w # vs)"
| "dumps_members [] = []"
| "dumps_members [(k, v)] = dumps_str k @ 58 # 32 # dumps v"
| "dumps_members ((k, v) # q # ps) =
     dumps_str k @ 58 # 32 # dumps v @ 44 # 32 # dumps_members (q # ps)"

section \<open>The decoder\<close>

definition is_ws :: "nat \<Rightarrow> bool" where
  "is_ws c \<longleftrightarrow> c = 32 \<or> c = 9 \<or> c = 10 \<or> c = 13"

definition skip_ws :: "pystr \<Rightarrow> pystr" where
  "skip_ws s = dropWhile is_ws s"

definition expect :: "nat \<Rightarrow> pystr \<Rightarrow> pystr option" where
  "expect c s = (case s of [] \<Rightarrow> None | d # r \<Rightarrow> if d = c then Some r else None)"

definition keyword :: "pystr \<Rightarrow> json \<Rightarrow> pystr \<Rightarrow> (json \<times> pystr) option" where
  "keyword w v s =
     (if take (length w) s = w then Some (v, drop (length w) s) else None)"

text \<open>The three parts of a number, each the text it takes and the rest.\<close>

definition scan_int :: "pystr \<Rightarrow> (pystr \<times> pystr) option" where
  "scan_int s =
     (case s of
        [] \<Rightarrow> None
      | d # r \<Rightarrow>
          if d = 48 then Some ([48], r)
          else if is_digit d then Some (takeWhile is_digit s, dropWhile is_digit s)
          else None)"

definition scan_frac :: "pystr \<Rightarrow> pystr \<times> pystr" where
  "scan_frac s =
     (case s of
        p # d # r \<Rightarrow>
          if p = 46 \<and> is_digit d
          then (46 # takeWhile is_digit (d # r), dropWhile is_digit (d # r)) else ([], s)
      | _ \<Rightarrow> ([], s))"

definition scan_exp :: "pystr \<Rightarrow> pystr \<times> pystr" where
  "scan_exp s =
     (case s of
        e # r \<Rightarrow>
          if e = 101 \<or> e = 69 then
            (let (sg, t) = (case r of [] \<Rightarrow> ([], r)
                            | x # u \<Rightarrow> if x = 43 \<or> x = 45 then ([x], u) else ([], r));
                 ds = takeWhile is_digit t
             in if ds = [] then ([], s) else (e # sg @ ds, dropWhile is_digit t))
          else ([], s)
      | [] \<Rightarrow> ([], s))"

text \<open>\<open>int()\<close> refuses more than 4300 digits (\<open>sys.int_info.default_max_str_digits\<close>).\<close>

definition max_int_digits :: nat where
  "max_int_digits = 4300"

definition parse_number :: "(pystr \<Rightarrow> pyfloat) \<Rightarrow> pystr \<Rightarrow> (json \<times> pystr) option" where
  "parse_number fl s =
     (let neg = (s \<noteq> [] \<and> hd s = 45);
          sign = (if neg then [45] else [])
      in case scan_int (if neg then tl s else s) of
           None \<Rightarrow> None
         | Some (ds, r1) \<Rightarrow>
             (let (fr, r2) = scan_frac r1;
                  (ex, r3) = scan_exp r2
              in if fr = [] \<and> ex = [] then
                   (if length ds \<le> max_int_digits
                    then Some (JInt (if neg then - int (dec_value ds) else int (dec_value ds)), r3)
                    else None)
                 else Some (JFloat (fl (sign @ ds @ fr @ ex)), r3)))"

definition parse_scalar :: "(pystr \<Rightarrow> pyfloat) \<Rightarrow> pystr \<Rightarrow> (json \<times> pystr) option" where
  "parse_scalar fl s =
     (let c = hd s
      in if c = 110 then keyword (lit ''null'') JNull s
         else if c = 116 then keyword (lit ''true'') (JBool True) s
         else if c = 102 then keyword (lit ''false'') (JBool False) s
         else if c = 78 then keyword (lit ''NaN'') (JFloat FNan) s
         else if c = 73 then keyword (lit ''Infinity'') (JFloat FPosInf) s
         else if take 9 s = lit ''-Infinity'' then Some (JFloat FNegInf, drop 9 s)
         else parse_number fl s)"

text \<open>
  One value, the elements of an array and the members of an object, each with the fuel that
  bounds the depth of the calls; \<open>loads\<close> passes twice the length of the text, which
  \<open>parse_enough\<close> in theory JsonParse shows to be enough.
\<close>

fun parse_value :: "nat \<Rightarrow> (pystr \<Rightarrow> pyfloat) \<Rightarrow> pystr \<Rightarrow> (json \<times> pystr) option"
  and parse_elems :: "nat \<Rightarrow> (pystr \<Rightarrow> pyfloat) \<Rightarrow> pystr \<Rightarrow> (json list \<times> pystr) option"
  and parse_members :: "nat \<Rightarrow> (pystr \<Rightarrow> pyfloat) \<Rightarrow> pystr \<Rightarrow> (jobject \<times> pystr) option" where
  "parse_value 0 fl s = None"
| "parse_value (Suc n) fl [] = None"
| "parse_value (Suc n) fl (c # cs) =
     (if c = 34 then map_option (\<lambda>(t, r). (JStr t, r)) (scan_str cs)
      else if c = 123 then
        (case expect 125 (skip_ws cs) of
           Some r \<Rightarrow> Some (JObj [], r)
         | None \<Rightarrow>
             map_option (\<lambda>(ps, r). (JObj (dict_of_pairs ps), r)) (parse_members n fl (skip_ws cs)))
      else if c = 91 then
        (case expect 93 (skip_ws cs) of
           Some r \<Rightarrow> Some (JList [], r)
         | None \<Rightarrow> map_option (\<lambda>(vs, r). (JList vs, r)) (parse_elems n fl (skip_ws cs)))
      else parse_scalar fl (c # cs))"
| "parse_elems 0 fl s = None"
| "parse_elems (Suc n) fl s =
     (case parse_value n fl s of
        None \<Rightarrow> None
      | Some (v, r) \<Rightarrow>
          (case expect 93 (skip_ws r) of
             Some r' \<Rightarrow> Some ([v], r')
           | None \<Rightarrow>
               (case expect 44 (skip_ws r) of
                  None \<Rightarrow> None
                | Some r' \<Rightarrow>
                    map_option (\<lambda>(vs, r''). (v # vs, r'')) (parse_elems n fl (skip_ws r')))))"
| "parse_members 0 fl s = None"
| "parse_members (Suc n) fl s =
     (case expect 34 s of
        None \<Rightarrow> None
      | Some s1 \<Rightarrow>
          (case scan_str s1 of
             None \<Rightarrow> None
           | Some (k, s2) \<Rightarrow>
               (case expect 58 (skip_ws s2) of
                  None \<Rightarrow> None
                | Some s3 \<Rightarrow>
                    (case parse_value n fl (skip_ws s3) of
                       None \<Rightarrow> None
                     | Some (v, r) \<Rightarrow>
                         (case expect 125 (skip_ws r) of
                            Some r' \<Rightarrow> Some ([(k, v)], r')
                          | None \<Rightarrow>
                              (case expect 44 (skip_ws r) of
                                 None \<Rightarrow> None
                               | Some r' \<Rightarrow>
                                   map_option (\<lambda>(ps, r''). ((k, v) # ps, r''))
                                     (parse_members n fl (skip_ws r'))))))))"

definition loads :: "(pystr \<Rightarrow> pyfloat) \<Rightarrow> pystr \<Rightarrow> json result" where
  "loads fl s =
     (if s \<noteq> [] \<and> hd s = 0xFEFF then Inl JSONDecodeError
      else case parse_value (2 * length s + 2) fl (skip_ws s) of
             None \<Rightarrow> Inl JSONDecodeError
           | Some (v, r) \<Rightarrow> if skip_ws r = [] then Inr v else Inl JSONDecodeError)"

section \<open>Text of a Python object\<close>

definition is_printable :: "(nat \<Rightarrow> bool) \<Rightarrow> nat \<Rightarrow> bool" where
  "is_printable pr c = (if c < 128 then 32 \<le> c \<and> c < 127 else \<not> is_surrogate c \<and> pr c)"

definition hex_text :: "nat \<Rightarrow> nat \<Rightarrow> pystr" where
  "hex_text n c = map (\<lambda>i. hex_digit (c div 16 ^ i mod 16)) (rev [0..<n])"

definition repr_char :: "(nat \<Rightarrow> bool) \<Rightarrow> nat \<Rightarrow> nat \<Rightarrow> pystr" where
  "repr_char pr q c =
     (if c = q \<or> c = 92 then [92, c]
      else if c = 9 then [92, 116] else if c = 10 then [92, 110] else if c = 13 then [92, 114]
      else if is_printable pr c then [c]
      else if c < 0x100 then 92 # 120 # hex_text 2 c
      else if c < 0x10000 then 92 # 117 # hex_text 4 c
      else 92 # 85 # hex_text 8 c)"

definition repr_str :: "(nat \<Rightarrow> bool) \<Rightarrow> pystr \<Rightarrow> pystr" where
  "repr_str pr s =
     (let q = (if 39 \<in> set s \<and> 34 \<notin> set s then 34 else 39)
      in q # concat (map (repr_char pr q) s) @ [q])"

definition float_repr :: "pyfloat \<Rightarrow> pystr" where
  "float_repr f =
     (case f of FNan \<Rightarrow> lit ''nan'' | FPosInf \<Rightarrow> lit ''inf'' | FNegInf \<Rightarrow> lit ''-inf'' | FFin r \<Rightarrow> r)"

fun py_repr :: "(nat \<Rightarrow> bool) \<Rightarrow> json \<Rightarrow> pystr"
  and repr_elems :: "(nat \<Rightarrow> bool) \<Rightarrow> json list \<Rightarrow> pystr"
  and repr_members :: "(nat \<Rightarrow> bool) \<Rightarrow> jobject \<Rightarrow> pystr" where
  "py_repr pr JNull = lit ''None''"
| "py_repr pr (JBool b) = (if b then lit ''True'' else lit ''False'')"
| "py_repr pr (JInt i) = int_str i"
| "py_repr pr (JFloat f) = float_repr f"
| "py_repr pr (JStr s) = repr_str pr s"
| "py_repr pr (JList vs) = 91 # repr_elems pr vs @ [93]"
| "py_repr pr (JObj ps) = 123 # repr_members pr ps @ [125]"
| "repr_elems pr [] = []"
| "repr_elems pr [v] = py_repr pr v"
| "repr_elems pr (v # w # vs) = py_repr pr v @ 44 # 32 # repr_elems pr (w # vs)"
| "repr_members pr [] = []"
| "repr_members pr [(k, v)] = repr_str pr k @ 58 # 32 # py_repr pr v"
| "repr_members pr ((k, v) # q # ps) =
     repr_str pr k @ 58 # 32 # py_repr pr v @ 44 # 32 # repr_members pr (q # ps)"

definition py_str :: "(nat \<Rightarrow> bool) \<Rightarrow> json \<Rightarrow> pystr" where
  "py_str pr v = (case v of JStr s \<Rightarrow> s | _ \<Rightarrow> py_repr pr v)"

lemma py_str_JStr [simp]: "py_str pr (JStr s) = s"
  by (simp add: py_str_def)

end
