(* ===== verification/Validation.thy ===== *)
theory Validation
  imports Json
begin

text \<open>
  \<open>common/validation.py\<close>: the two name patterns, the file-name and path-component
  sanitisers, and the check on the name of a transferred file. The arguments are the JSON
  values the callers pass (a peer may send any type), so that the \<open>TypeError\<close> a pattern
  raises on a non-string is part of the model.
\<close>

definition is_name_char :: "nat \<Rightarrow> bool" where
  "is_name_char c \<longleftrightarrow>
     (65 \<le> c \<and> c \<le> 90) \<or> (97 \<le> c \<and> c \<le> 122) \<or> (48 \<le> c \<and> c \<le> 57) \<or> c = 46 \<or> c = 95 \<or> c = 45"

text \<open>
  \<open>[A-Za-z0-9._-]{1,n}\<close> with \<open>fullmatch\<close>: the whole string, a final newline included, has to
  match.
\<close>

definition name_match :: "nat \<Rightarrow> pystr \<Rightarrow> bool" where
  "name_match n s \<longleftrightarrow> 1 \<le> length s \<and> length s \<le> n \<and> list_all is_name_char s"

definition is_safe_username :: "json \<Rightarrow> bool result" where
  "is_safe_username v =
     (if \<not> truthy v then Inr False
      else case v of JStr s \<Rightarrow> Inr (name_match 32 s) | _ \<Rightarrow> Inl TypeError)"

definition is_safe_group_name :: "json \<Rightarrow> bool result" where
  "is_safe_group_name v =
     (if \<not> truthy v then Inr False
      else case v of JStr s \<Rightarrow> Inr (name_match 48 s) | _ \<Rightarrow> Inl TypeError)"

text \<open>\<open>SAFE_PATH_PART_RE.sub("_", s)\<close>: every maximal run of other characters becomes one \<open>_\<close>.\<close>

function sub_unsafe :: "pystr \<Rightarrow> pystr" where
  "sub_unsafe [] = []"
| "sub_unsafe (c # cs) =
     (if is_name_char c then c # sub_unsafe cs
      else 95 # sub_unsafe (dropWhile (\<lambda>d. \<not> is_name_char d) cs))"
  by pat_completeness auto
termination
  by (relation "measure length") (auto simp: le_imp_less_Suc length_dropWhile_le)

definition is_dot_us :: "nat \<Rightarrow> bool" where
  "is_dot_us c \<longleftrightarrow> c = 46 \<or> c = 95"

text \<open>\<open>str(value or "")\<close>.\<close>

definition str_or_empty :: "(nat \<Rightarrow> bool) \<Rightarrow> json \<Rightarrow> pystr" where
  "str_or_empty pr v = (if truthy v then py_str pr v else [])"

definition clean_part :: "pystr \<Rightarrow> pystr" where
  "clean_part s = strip_by is_dot_us (sub_unsafe s)"

definition safe_path_part :: "(nat \<Rightarrow> bool) \<Rightarrow> json \<Rightarrow> pystr \<Rightarrow> pystr" where
  "safe_path_part pr v fallback =
     (let cleaned = take 80 (clean_part (str_or_empty pr v))
      in if cleaned = [] then fallback else cleaned)"

definition safe_filename :: "(nat \<Rightarrow> bool) \<Rightarrow> json \<Rightarrow> pystr" where
  "safe_filename pr v =
     (let basename = path_basename (replace_char 92 47 (str_or_empty pr v));
          cleaned = take 120 (clean_part basename)
      in if cleaned = [] then lit ''received_file'' else cleaned)"

definition BLOCKED_FILE_EXTENSIONS :: "pystr list" where
  "BLOCKED_FILE_EXTENSIONS =
     [lit ''.exe'', lit ''.bat'', lit ''.cmd'', lit ''.msi'', lit ''.sh'', lit ''.ps1'']"

text \<open>
  \<open>filename.lower()\<close> is applied to a name \<open>safe_filename\<close> returned, which is ASCII, so the
  ASCII fold is the whole of it.
\<close>

definition is_safe_transfer_filename :: "(nat \<Rightarrow> bool) \<Rightarrow> json \<Rightarrow> bool" where
  "is_safe_transfer_filename pr v =
     (if \<not> truthy v then False
      else let raw_filename = py_str pr v
           in if safe_filename pr (JStr raw_filename) \<noteq> raw_filename then False
              else let filename = safe_filename pr v;
                       ext = splitext_ext (lower_ascii filename)
                   in ext \<notin> set BLOCKED_FILE_EXTENSIONS)"

section \<open>The sanitisers\<close>

lemma sub_unsafe_chars: "list_all is_name_char (sub_unsafe s)"
  by (induction s rule: sub_unsafe.induct) (auto simp: is_name_char_def)

lemma sub_unsafe_id: "list_all is_name_char s \<Longrightarrow> sub_unsafe s = s"
  by (induction s) auto

lemma sub_unsafe_id_iff: "sub_unsafe s = s \<longleftrightarrow> list_all is_name_char s"
  using sub_unsafe_chars [of s] sub_unsafe_id [of s] by auto

lemma length_sub_unsafe: "length (sub_unsafe s) \<le> length s"
proof (induction s rule: sub_unsafe.induct)
  case (2 c cs)
  then show ?case
    using length_dropWhile_le [of "\<lambda>d. \<not> is_name_char d" cs] by (cases "is_name_char c") auto
qed simp

lemma clean_part_chars: "list_all is_name_char (clean_part s)"
  using sub_unsafe_chars [of s] strip_by_subset [of is_dot_us "sub_unsafe s"]
  by (auto simp: clean_part_def list_all_iff)

lemma clean_part_hd: "clean_part s \<noteq> [] \<Longrightarrow> \<not> is_dot_us (hd (clean_part s))"
  unfolding clean_part_def by (rule strip_by_hd)

lemma clean_part_last: "clean_part s \<noteq> [] \<Longrightarrow> \<not> is_dot_us (last (clean_part s))"
  unfolding clean_part_def by (rule strip_by_last)

lemma clean_part_id:
  "list_all is_name_char s \<Longrightarrow> s = [] \<or> \<not> is_dot_us (hd s) \<and> \<not> is_dot_us (last s) \<Longrightarrow>
   clean_part s = s"
  by (simp add: clean_part_def sub_unsafe_id strip_by_id)

text \<open>
  What a file-system component produced by a sanitiser must be: neither empty nor one of the
  two special directories, without a separator, of bounded length.
\<close>

definition good_component :: "nat \<Rightarrow> pystr \<Rightarrow> bool" where
  "good_component n s \<longleftrightarrow>
     s \<noteq> [] \<and> length s \<le> n \<and> list_all is_name_char s \<and> \<not> is_dot_us (hd s)"

locale path_sanitiser =
  fixes clean :: "json \<Rightarrow> pystr" and bound :: nat
  assumes good: "good_component bound (clean v)"
begin

lemma not_special: "clean v \<notin> {[], lit ''.'', lit ''..''}"
  using good [of v] by (auto simp: good_component_def py_eval is_dot_us_def)

lemma no_separator: "47 \<notin> set (clean v)" "92 \<notin> set (clean v)" "0 \<notin> set (clean v)"
  using good [of v] by (auto simp: good_component_def list_all_iff is_name_char_def)

lemma bounded: "length (clean v) \<le> bound"
  using good [of v] by (simp add: good_component_def)

lemma ascii: "list_all (\<lambda>c. c < 0x80) (clean v)"
proof -
  have "list_all is_name_char (clean v)" using good [of v] by (simp add: good_component_def)
  then show ?thesis by (rule list.pred_mono_strong) (auto simp: is_name_char_def)
qed

end

lemma good_component_take:
  assumes "0 < n"
  shows "good_component n (if take n (clean_part s) = [] then fb else take n (clean_part s)) \<longleftrightarrow>
    (clean_part s \<noteq> [] \<or> good_component n fb)"
proof (cases "clean_part s = []")
  case False
  then have "hd (take n (clean_part s)) = hd (clean_part s)"
    using assms by (cases "clean_part s"; cases n) auto
  then show ?thesis
    using False assms clean_part_hd [of s] clean_part_chars [of s]
    by (auto simp: good_component_def list_all_iff dest: in_set_takeD)
qed simp

lemma good_received_file: "good_component 120 (lit ''received_file'')"
  by (simp add: good_component_def py_eval is_name_char_def is_dot_us_def)

interpretation sf: path_sanitiser "safe_filename pr" 120 for pr
  by unfold_locales
    (simp only: safe_filename_def Let_def good_component_take good_received_file simp_thms zero_less_numeral)

definition path_part_or :: "(nat \<Rightarrow> bool) \<Rightarrow> string \<Rightarrow> json \<Rightarrow> pystr" where
  "path_part_or pr fb v = safe_path_part pr v (lit fb)"

lemma good_fallbacks:
  "good_component 80 (lit ''unknown_user'')" "good_component 80 (lit ''unknown_sender'')"
  by (simp_all add: good_component_def py_eval is_name_char_def is_dot_us_def)

interpretation su: path_sanitiser "path_part_or pr ''unknown_user''" 80 for pr
  by unfold_locales
    (simp only: path_part_or_def safe_path_part_def Let_def good_component_take good_fallbacks
      simp_thms zero_less_numeral)

interpretation ss: path_sanitiser "path_part_or pr ''unknown_sender''" 80 for pr
  by unfold_locales
    (simp only: path_part_or_def safe_path_part_def Let_def good_component_take good_fallbacks
      simp_thms zero_less_numeral)

section \<open>Names\<close>

lemma is_safe_username_JStr [simp]: "is_safe_username (JStr s) = Inr (name_match 32 s)"
  by (auto simp: is_safe_username_def name_match_def)

lemma is_safe_group_name_JStr [simp]: "is_safe_group_name (JStr s) = Inr (name_match 48 s)"
  by (auto simp: is_safe_group_name_def name_match_def)

lemma is_safe_username_True: "is_safe_username v = Inr True \<Longrightarrow> \<exists>s. v = JStr s \<and> name_match 32 s"
  by (cases v) (auto simp: is_safe_username_def split: if_splits)

lemma is_safe_group_name_True:
  "is_safe_group_name v = Inr True \<Longrightarrow> \<exists>s. v = JStr s \<and> name_match 48 s"
  by (cases v) (auto simp: is_safe_group_name_def split: if_splits)

lemma name_match_ascii: "name_match n s \<Longrightarrow> list_all (\<lambda>c. c < 0x80) s"
  by (auto simp: name_match_def list_all_iff is_name_char_def)

lemma name_match_not_space: "name_match n s \<Longrightarrow> list_all (\<lambda>c. \<not> is_space c) s"
  unfolding name_match_def list_all_iff is_name_char_def is_space_def by fastforce

lemma name_match_strip: "name_match n s \<Longrightarrow> str_strip s = s"
proof -
  assume m: "name_match n s"
  then have "s \<noteq> []" "list_all (\<lambda>c. \<not> is_space c) s"
    using name_match_not_space [OF m] by (auto simp: name_match_def)
  then show ?thesis by (auto simp: str_strip_def list_all_iff intro!: strip_by_id)
qed

lemma name_match_no_hash: "name_match n s \<Longrightarrow> lstrip_char 35 s = s"
  by (cases s) (auto simp: name_match_def is_name_char_def intro!: lstrip_char_id)

section \<open>Transfer file names\<close>

lemma name_char_simps: "\<not> is_name_char 47" "\<not> is_name_char 92"
  by (simp_all add: is_name_char_def)

lemma str_or_empty_JStr [simp]: "str_or_empty pr (JStr s) = s"
  by (simp add: str_or_empty_def)

lemma safe_filename_JStr_pr: "safe_filename pr (JStr s) = safe_filename pr' (JStr s)"
  by (simp add: safe_filename_def)

text \<open>The strings \<open>safe_filename\<close> leaves alone.\<close>

lemma clean_filename_id:
  assumes "s \<noteq> []" and "length s \<le> 120" and "list_all is_name_char s"
    and "\<not> is_dot_us (hd s)" and "\<not> is_dot_us (last s)"
  shows "safe_filename pr (JStr s) = s"
proof -
  have "47 \<notin> set s" "92 \<notin> set s"
    using assms(3) name_char_simps by (auto simp: list_all_iff)
  then have "path_basename (replace_char 92 47 s) = s"
    by (simp add: replace_char_id basename_id)
  moreover have "clean_part s = s"
    using assms by (intro clean_part_id) auto
  ultimately show ?thesis
    using assms by (simp add: safe_filename_def)
qed

lemma safe_filename_fixed:
  assumes "safe_filename pr (JStr s) = s"
  shows "good_component 120 s"
  using sf.good [of pr "JStr s"] assms by simp

lemma safe_filename_py_str:
  assumes "truthy v"
  shows "safe_filename pr v = safe_filename pr (JStr (py_str pr v))"
  using assms by (simp add: safe_filename_def str_or_empty_def)

lemma is_safe_transfer_filename_iff:
  "is_safe_transfer_filename pr v \<longleftrightarrow>
     truthy v \<and> safe_filename pr v = py_str pr v \<and>
     splitext_ext (lower_ascii (py_str pr v)) \<notin> set BLOCKED_FILE_EXTENSIONS"
  using safe_filename_py_str [of v pr]
  by (auto simp: is_safe_transfer_filename_def Let_def)

lemma list_all_lower_not_dot:
  "\<not> is_dot_us (hd s) \<Longrightarrow> s \<noteq> [] \<Longrightarrow> \<not> list_all (\<lambda>c. c = 46) (lower_ascii s)"
  by (cases s) (auto simp: lower_ascii_def is_dot_us_def split: if_splits)

lemma blocked_ext_shape: "e \<in> set BLOCKED_FILE_EXTENSIONS \<Longrightarrow> \<exists>t. e = 46 # t \<and> 46 \<notin> set t"
  by (auto simp: BLOCKED_FILE_EXTENSIONS_def py_eval)

lemma safe_filename_ends:
  assumes "safe_filename pr (JStr s) = s"
  shows "\<not> is_dot_us (last s)"
proof -
  have g: "good_component 120 s" by (rule safe_filename_fixed [OF assms])
  then have c: "s \<noteq> []" "list_all is_name_char s" by (simp_all add: good_component_def)
  then have "47 \<notin> set s" "92 \<notin> set s" using name_char_simps by (auto simp: list_all_iff)
  then have b: "path_basename (replace_char 92 47 s) = s" by (simp add: replace_char_id basename_id)
  have cl: "clean_part s = strip_by is_dot_us s" using c by (simp add: clean_part_def sub_unsafe_id)
  show ?thesis
  proof (cases "take 120 (clean_part s) = []")
    case True
    then have "s = lit ''received_file''" using assms b by (simp add: safe_filename_def)
    then show ?thesis by (simp add: py_eval is_dot_us_def)
  next
    case False
    then have t: "take 120 (strip_by is_dot_us s) = s" using assms b cl by (simp add: safe_filename_def)
    have "length (strip_by is_dot_us s) \<le> length s"
      unfolding strip_by_def length_rev by (metis length_dropWhile_le length_rev order_trans)
    then have "strip_by is_dot_us s = s"
      using t by (metis length_take min.absorb2 min.cobounded1 min_def take_all)
    then show ?thesis using c(1) by (simp add: strip_by_id_iff)
  qed
qed

section \<open>Properties\<close>

text \<open>
  What a sanitiser returns is one harmless path component, for values of every type: not empty,
  not \<open>.\<close> or \<open>..\<close>, of pattern characters only (so without separators), not starting with a
  dot or underscore, of at most 120 characters for file names and 80 for the other parts.\<close>

theorem sanitised_components_safe:
  "good_component 120 (safe_filename pr v) \<and>
   good_component 80 (safe_path_part pr v (lit ''unknown_user'')) \<and>
   good_component 80 (safe_path_part pr v (lit ''unknown_sender'')) \<and>
   safe_filename pr v \<notin> {[], lit ''.'', lit ''..''} \<and> 47 \<notin> set (safe_filename pr v) \<and>
   92 \<notin> set (safe_filename pr v)"
  using sf.good [of pr v] su.good [of pr v] ss.good [of pr v] sf.not_special [of pr v]
    sf.no_separator [of pr v]
  by (simp add: path_part_or_def)

text \<open>C34
  The transfer check accepts exactly the names the sanitiser leaves alone, less the blocked
  extensions: 1 to 120 pattern characters, neither the first nor the last a dot or an
  underscore, and no blocked extension when folded to lower case.\<close>

theorem transfer_filename_exact:
  "is_safe_transfer_filename pr (JStr s) \<longleftrightarrow>
     s \<noteq> [] \<and> length s \<le> 120 \<and> list_all is_name_char s \<and> hd s \<notin> {46, 95} \<and> last s \<notin> {46, 95} \<and>
     splitext_ext (lower_ascii s) \<notin> set BLOCKED_FILE_EXTENSIONS"
proof -
  have "s \<noteq> [] \<and> safe_filename pr (JStr s) = s \<longleftrightarrow>
      s \<noteq> [] \<and> length s \<le> 120 \<and> list_all is_name_char s \<and> \<not> is_dot_us (hd s) \<and> \<not> is_dot_us (last s)"
    using safe_filename_fixed [of pr s] safe_filename_ends [of pr s] clean_filename_id [of s pr]
    by (auto simp: good_component_def)
  then show ?thesis
    by (auto simp: is_safe_transfer_filename_iff is_dot_us_def)
qed

text \<open>
  A blocked extension is blocked in any mixture of cases, whatever stands before it (dots and
  other extensions included).\<close>

theorem blocked_extension_any_case:
  assumes "lower_ascii ext \<in> set BLOCKED_FILE_EXTENSIONS"
  shows "\<not> is_safe_transfer_filename pr (JStr (base @ ext))"
proof
  assume a: "is_safe_transfer_filename pr (JStr (base @ ext))"
  obtain t where t: "lower_ascii ext = 46 # t" "46 \<notin> set t"
    using blocked_ext_shape [OF assms] by blast
  have "safe_filename pr (JStr (base @ ext)) = base @ ext"
    using a by (simp add: is_safe_transfer_filename_iff)
  from safe_filename_fixed [OF this] have g: "\<not> is_dot_us (hd (base @ ext))"
    by (simp add: good_component_def)
  have "base \<noteq> []"
  proof
    assume "base = []"
    then have "hd ext = 46" "ext \<noteq> []"
      using t(1) by (cases ext; auto simp: lower_ascii_def split: if_splits)+
    with g \<open>base = []\<close> show False by (simp add: is_dot_us_def)
  qed
  then have "\<not> list_all (\<lambda>c. c = 46) (lower_ascii base)"
    using g by (intro list_all_lower_not_dot) auto
  then have "splitext_ext (lower_ascii (base @ ext)) = lower_ascii ext"
    using splitext_ext_append [OF t(2)] t(1) by (simp add: lower_ascii_def)
  then show False using a assms by (auto simp: is_safe_transfer_filename_iff)
qed

theorem blocked_extension_any_case_witness:
  "\<not> is_safe_transfer_filename (\<lambda>_. False) (JStr (lit ''report.pdf'' @ lit ''.eXe''))"
  by (rule blocked_extension_any_case) (simp add: lower_ascii_def BLOCKED_FILE_EXTENSIONS_def py_eval)

end
