(* ===== verification/Base64.thy ===== *)
theory Base64
  imports PyText
begin

text \<open>
  \<open>base64.b64encode\<close> and \<open>base64.b64decode\<close> as the program calls them (no \<open>validate\<close>):
  the decoder is the non-strict state machine of \<open>binascii.a2b_base64\<close>, which skips
  characters outside the alphabet, stops at a complete padding and reports an input whose
  last group is incomplete.
\<close>

definition b64_char :: "nat \<Rightarrow> nat" where
  "b64_char n =
     (if n < 26 then 65 + n else if n < 52 then 71 + n
      else if n < 62 then n - 4 else if n = 62 then 43 else 47)"

definition b64_value :: "nat \<Rightarrow> nat option" where
  "b64_value c =
     (if 65 \<le> c \<and> c \<le> 90 then Some (c - 65)
      else if 97 \<le> c \<and> c \<le> 122 then Some (c - 71)
      else if 48 \<le> c \<and> c \<le> 57 then Some (c + 4)
      else if c = 43 then Some 62 else if c = 47 then Some 63 else None)"

fun b64encode :: "bytes \<Rightarrow> pystr" where
  "b64encode [] = []"
| "b64encode [a] = [b64_char (unat a div 4), b64_char (unat a mod 4 * 16), 61, 61]"
| "b64encode [a, b] =
     [b64_char (unat a div 4), b64_char (unat a mod 4 * 16 + unat b div 16),
      b64_char (unat b mod 16 * 4), 61]"
| "b64encode (a # b # c # r) =
     b64_char (unat a div 4) # b64_char (unat a mod 4 * 16 + unat b div 16) #
     b64_char (unat b mod 16 * 4 + unat c div 64) # b64_char (unat c mod 64) # b64encode r"

text \<open>
  The loop over the input: \<open>q\<close> is the position in the group of four, \<open>l\<close> the bits left
  over from the previous character, \<open>p\<close> the padding characters seen since the last data
  character.
\<close>

fun a2b_loop :: "pystr \<Rightarrow> nat \<Rightarrow> nat \<Rightarrow> nat \<Rightarrow> bytes option" where
  "a2b_loop [] q l p = (if q = 0 then Some [] else None)"
| "a2b_loop (c # cs) q l p =
     (if c = 61 then
        (if 2 \<le> q \<and> 4 \<le> q + Suc p then Some []
         else a2b_loop cs q l (if 2 \<le> q then Suc p else p))
      else case b64_value c of
             None \<Rightarrow> a2b_loop cs q l p
           | Some v \<Rightarrow>
               (if q = 0 then a2b_loop cs 1 v 0
                else if q = 1 then
                  map_option (Cons (of_nat (l * 4 + v div 16))) (a2b_loop cs 2 (v mod 16) 0)
                else if q = 2 then
                  map_option (Cons (of_nat (l * 16 + v div 4))) (a2b_loop cs 3 (v mod 4) 0)
                else map_option (Cons (of_nat (l * 64 + v))) (a2b_loop cs 0 0 0)))"

definition b64decode :: "pystr \<Rightarrow> bytes result" where
  "b64decode s =
     (if list_all (\<lambda>c. c < 0x80) s
      then (case a2b_loop s 0 0 0 of None \<Rightarrow> Inl BinasciiError | Some bs \<Rightarrow> Inr bs)
      else Inl ValueError)"

lemma b64_value_char: "n < 64 \<Longrightarrow> b64_value (b64_char n) = Some n"
  by (auto simp: b64_char_def b64_value_def)

lemma b64_char_not_pad: "b64_char n \<noteq> 61"
  by (auto simp: b64_char_def)

lemma b64_char_ascii: "n < 64 \<Longrightarrow> 43 \<le> b64_char n \<and> b64_char n \<le> 122 \<and> b64_char n \<noteq> 92"
  by (auto simp: b64_char_def)

lemma unat_byte_less: "unat (b :: byte) < 256"
  using unsigned_less [of b] by simp

lemma byte_div_small:
  "unat (b :: byte) div 16 < 16" "unat b div 64 < 4"
  using unat_byte_less [of b] by linarith+

lemma b64_parts:
  "unat (a :: byte) div 4 < 64" "unat a mod 4 * 16 + unat (b :: byte) div 16 < 64"
  "unat b mod 16 * 4 + unat (c :: byte) div 64 < 64" "unat c mod 64 < 64"
  "unat a mod 4 * 16 < 64" "unat b mod 16 * 4 < 64"
  using unat_byte_less [of a] unat_byte_less [of b] unat_byte_less [of c]
    mod_less_divisor [of 4 "unat a"] mod_less_divisor [of 16 "unat b"]
    mod_less_divisor [of 64 "unat c"]
  by linarith+

lemma a2b_data:
  assumes "v < 64"
  shows "a2b_loop (b64_char v # cs) q l p =
    (if q = 0 then a2b_loop cs 1 v 0
     else if q = 1 then map_option (Cons (of_nat (l * 4 + v div 16))) (a2b_loop cs 2 (v mod 16) 0)
     else if q = 2 then map_option (Cons (of_nat (l * 16 + v div 4))) (a2b_loop cs 3 (v mod 4) 0)
     else map_option (Cons (of_nat (l * 64 + v))) (a2b_loop cs 0 0 0))"
  using assms by (simp add: b64_char_not_pad b64_value_char)

lemma a2b_pad:
  "a2b_loop (61 # cs) q l p =
    (if 2 \<le> q \<and> 4 \<le> q + Suc p then Some [] else a2b_loop cs q l (if 2 \<le> q then Suc p else p))"
  by simp

lemma div_add_small:
  "r < k \<Longrightarrow> (m * k + r) div k = m" "r < k \<Longrightarrow> (m * k + r) mod k = (r::nat)"
  by simp_all

lemma byte_of_nat_unat: "x = unat b \<Longrightarrow> (of_nat x :: byte) = b"
  by simp

lemma byte_of_parts:
  "(of_nat (unat a div 4 * 4 + (unat a mod 4 * 16 + unat (b :: byte) div 16) div 16) :: byte) = a"
  "(of_nat ((unat a mod 4 * 16 + unat b div 16) mod 16 * 16
      + (unat b mod 16 * 4 + unat (c :: byte) div 64) div 4) :: byte) = b"
  "(of_nat ((unat b mod 16 * 4 + unat c div 64) mod 4 * 64 + unat c mod 64) :: byte) = c"
proof -
  show "(of_nat (unat a div 4 * 4 + (unat a mod 4 * 16 + unat b div 16) div 16) :: byte) = a"
    using unat_byte_less [of b] by (simp add: byte_of_nat_unat div_add_small)
  show "(of_nat ((unat a mod 4 * 16 + unat b div 16) mod 16 * 16
      + (unat b mod 16 * 4 + unat c div 64) div 4) :: byte) = b"
    using unat_byte_less [of b] unat_byte_less [of c] by (simp add: byte_of_nat_unat div_add_small)
  show "(of_nat ((unat b mod 16 * 4 + unat c div 64) mod 4 * 64 + unat c mod 64) :: byte) = c"
    using unat_byte_less [of c] by (simp add: byte_of_nat_unat div_add_small)
qed

lemma byte_of_parts_short:
  "(of_nat (unat a div 4 * 4 + unat (a :: byte) mod 4 * 16 div 16) :: byte) = a"
  "(of_nat ((unat a mod 4 * 16 + unat b div 16) mod 16 * 16 + unat (b :: byte) mod 16 * 4 div 4)
      :: byte) = b"
  using byte_of_parts(1) [of a 0] byte_of_parts(2) [of a b 0] by simp_all

lemma a2b_encode: "a2b_loop (b64encode bs @ replicate n 61) 0 0 0 = Some bs"
proof (induction bs rule: b64encode.induct)
  case 1
  have "a2b_loop (replicate n 61) 0 l 0 = Some []" for l by (induction n) auto
  then show ?case by simp
next
  case (2 a)
  then show ?case
    by (simp add: a2b_data a2b_pad b64_parts byte_of_parts byte_of_parts_short byte_div_small
        del: a2b_loop.simps(2) of_nat_add of_nat_mult)
next
  case (3 a b)
  then show ?case
    by (simp add: a2b_data a2b_pad b64_parts byte_of_parts byte_of_parts_short byte_div_small
        del: a2b_loop.simps(2) of_nat_add of_nat_mult)
next
  case (4 a b c r)
  then show ?case
    by (simp add: a2b_data a2b_pad b64_parts byte_of_parts byte_of_parts_short byte_div_small
        del: a2b_loop.simps(2) of_nat_add of_nat_mult)
qed

lemma b64encode_ascii: "list_all (\<lambda>c. 43 \<le> c \<and> c \<le> 122 \<and> c \<noteq> 92) (b64encode bs)"
proof (induction bs rule: b64encode.induct)
  case (2 a)
  then show ?case
    by (auto simp: b64_char_ascii b64_parts)
next
  case (3 a b)
  then show ?case
    by (auto simp: b64_char_ascii b64_parts)
next
  case (4 a b c r)
  then show ?case
    by (auto simp: b64_char_ascii b64_parts)
qed simp

lemma b64decode_encode_pad: "b64decode (b64encode bs @ replicate n 61) = Inr bs"
proof -
  have "list_all (\<lambda>c. c < 0x80) (b64encode bs)"
    using b64encode_ascii by (rule list.pred_mono_strong) simp
  then show ?thesis
    by (auto simp: b64decode_def a2b_encode list_all_iff)
qed

interpretation b64: codec "\<lambda>bs. Inr (b64encode bs)" b64decode "\<lambda>_. True"
proof unfold_locales
  fix bs
  show "\<exists>y. Inr (b64encode bs) = (Inr y :: pystr result) \<and> b64decode y = Inr bs"
    using b64decode_encode_pad [of bs 0] by simp
qed

lemma length_b64encode: "length (b64encode bs) = 4 * ((length bs + 2) div 3)"
proof (induction bs rule: b64encode.induct)
  case (4 a b c r)
  have "length (a # b # c # r) + 2 = (length r + 2) + 3" by simp
  then have "(length (a # b # c # r) + 2) div 3 = Suc ((length r + 2) div 3)" by presburger
  with 4 show ?case by simp
qed simp_all

lemma b64encode_eq_Nil [simp]: "b64encode bs = [] \<longleftrightarrow> bs = []"
  by (cases bs rule: b64encode.cases) simp_all

text \<open>Decoding never yields more than three bytes for four characters of input.\<close>

lemma length_map_Cons_le:
  assumes "map_option (Cons x) r = Some bs"
    and "\<And>bs'. r = Some bs' \<Longrightarrow> 4 * length bs' \<le> m" and "m + 4 \<le> n"
  shows "4 * length bs \<le> (n :: nat)"
  using assms by (cases r) auto

lemma length_a2b:
  "a2b_loop s q l p = Some bs \<Longrightarrow> q \<le> 3 \<Longrightarrow>
   4 * length bs \<le> 3 * length s + (if q = 0 then 0 else 4 - q)"
proof (induction s q l p arbitrary: bs rule: a2b_loop.induct)
  case (1 q l p)
  then show ?case by (cases "q = 0") auto
next
  case (2 c cs q l p)
  show ?case
  proof (cases "c = 61 \<or> b64_value c = None")
    case True
    with "2.prems" "2.IH"(1) "2.IH"(2) show ?thesis
      by (fastforce split: if_splits)
  next
    case False
    then obtain v where v: "b64_value c = Some v" "c \<noteq> 61" by auto
    consider "q = 0" | "q = 1" | "q = 2" | "q = 3" using "2.prems"(2) by linarith
    then show ?thesis
    proof cases
      case 1
      with "2.prems" v "2.IH"(3) [OF v(2) v(1)] show ?thesis by simp
    next
      case 2
      with "2.prems"(1) v have "map_option (Cons (of_nat (l * 4 + v div 16)))
          (a2b_loop cs 2 (v mod 16) 0) = Some bs" by (simp del: of_nat_add of_nat_mult)
      then have "4 * length bs \<le> 3 * length cs + 6"
        by (rule length_map_Cons_le) (use "2.IH"(4) [OF v(2) v(1)] 2 in force)+
      with 2 show ?thesis by simp
    next
      case 3
      with "2.prems"(1) v have "map_option (Cons (of_nat (l * 16 + v div 4)))
          (a2b_loop cs 3 (v mod 4) 0) = Some bs" by (simp del: of_nat_add of_nat_mult)
      then have "4 * length bs \<le> 3 * length cs + 5"
        by (rule length_map_Cons_le) (use "2.IH"(5) [OF v(2) v(1)] 3 in force)+
      with 3 show ?thesis by simp
    next
      case 4
      with "2.prems"(1) v have "map_option (Cons (of_nat (l * 64 + v)))
          (a2b_loop cs 0 0 0) = Some bs" by (simp del: of_nat_add of_nat_mult)
      then have "4 * length bs \<le> 3 * length cs + 4"
        by (rule length_map_Cons_le) (use "2.IH"(6) [OF v(2) v(1)] 4 in force)+
      with 4 show ?thesis by simp
    qed
  qed
qed

end
