(* ===== verification/Encryption.thy ===== *)
theory Encryption
  imports Json Base64
begin

text \<open>
  \<open>common/encryption.py\<close>: the size limits, the two size checks, AES-GCM message
  encryption and RSA key wrapping. The \<open>cryptography\<close> package is not part of the
  repository: its primitives are the fields of the record \<open>crypto\<close>, a parameter of the
  model. What the code relies on (opening what was sealed under the same key and nonce gives
  the data back, the 16-byte tag, OAEP unwrapping) is stated by \<open>crypto_ok\<close>.
\<close>

definition MAX_MESSAGE_SIZE :: nat where
  "MAX_MESSAGE_SIZE = 64 * 1024"

definition MAX_FILE_SIZE :: nat where
  "MAX_FILE_SIZE = 5 * 1024 ^ 2"

definition MAX_FRAME_SIZE :: nat where
  "MAX_FRAME_SIZE = 8 * 1024 ^ 2"

lemmas size_limits = MAX_MESSAGE_SIZE_def MAX_FILE_SIZE_def MAX_FRAME_SIZE_def

text \<open>
  \<open>check_file_size\<close> is called with whatever JSON value the peer sent: a value that is not a
  string cannot be concatenated with \<open>"==="\<close>, and that \<open>TypeError\<close>, as any error of the
  decoder, is caught and turned into \<open>False\<close>.
\<close>

definition pad3 :: pystr where
  "pad3 = lit ''===''"

definition check_file_size :: "json \<Rightarrow> bool" where
  "check_file_size b64_data =
     (if \<not> truthy b64_data then False
      else case b64_data of
             JStr s \<Rightarrow>
               (case b64decode (s @ pad3) of
                  Inl e \<Rightarrow> False
                | Inr raw \<Rightarrow> length raw \<le> MAX_FILE_SIZE)
           | _ \<Rightarrow> False)"

definition check_message_size :: "pystr \<Rightarrow> bool result" where
  "check_message_size message =
     rmap (\<lambda>bs. length bs \<le> MAX_MESSAGE_SIZE) (utf8_encode message)"

section \<open>AES-GCM and RSA\<close>

record crypto =
  aes_seal :: "bytes \<Rightarrow> bytes \<Rightarrow> bytes \<Rightarrow> bytes"
    \<comment> \<open>key, nonce, data: ciphertext followed by the tag\<close>
  aes_open :: "bytes \<Rightarrow> bytes \<Rightarrow> bytes \<Rightarrow> bytes option"
  rsa_wrap :: "bytes \<Rightarrow> bytes \<Rightarrow> bytes result"
    \<comment> \<open>PEM text, plaintext: \<open>load_pem_public_key\<close> and OAEP encryption\<close>
  rsa_unwrap :: "bytes \<Rightarrow> bytes \<Rightarrow> bytes option"
    \<comment> \<open>private key, ciphertext\<close>

definition aes_key_ok :: "bytes \<Rightarrow> bool" where
  "aes_key_ok k \<longleftrightarrow> length k \<in> {16, 24, 32}"

definition crypto_ok :: "crypto \<Rightarrow> bool" where
  "crypto_ok cr \<longleftrightarrow>
     (\<forall>k n d. aes_key_ok k \<longrightarrow>
        aes_open cr k n (aes_seal cr k n d) = Some d \<and>
        length (aes_seal cr k n d) = length d + 16)"

text \<open>\<open>pem\<close> is an encoding of the public half of the private key \<open>priv\<close>.\<close>

definition rsa_pair :: "crypto \<Rightarrow> bytes \<Rightarrow> bytes \<Rightarrow> bool" where
  "rsa_pair cr pem priv \<longleftrightarrow>
     (\<forall>m. length m \<le> 190 \<longrightarrow>
        (\<exists>c. rsa_wrap cr pem m = Inr c \<and> length c = 256 \<and> rsa_unwrap cr priv c = Some m))"

text \<open>
  \<open>os.urandom\<close> is the parameter \<open>rnd\<close>: \<open>rnd i n\<close> is what the \<open>i\<close>-th call with argument
  \<open>n\<close> returns.
\<close>

definition generate_aes_key :: "(nat \<Rightarrow> nat \<Rightarrow> bytes) \<Rightarrow> nat \<Rightarrow> bytes" where
  "generate_aes_key rnd i = rnd i 32"

definition encrypt_message :: "crypto \<Rightarrow> bytes \<Rightarrow> pystr \<Rightarrow> bytes \<Rightarrow> bytes result" where
  "encrypt_message cr nonce message aes_key =
     (if \<not> aes_key_ok aes_key then Inl ValueError
      else rbind (utf8_encode message) (\<lambda>data. Inr (nonce @ aes_seal cr aes_key nonce data)))"

definition decrypt_message :: "crypto \<Rightarrow> bytes \<Rightarrow> bytes \<Rightarrow> pystr result" where
  "decrypt_message cr encrypted aes_key =
     (let nonce = take 12 encrypted; ciphertext = drop 12 encrypted
      in if \<not> aes_key_ok aes_key then Inl ValueError
         else if length nonce < 8 then Inl ValueError
         else case aes_open cr aes_key nonce ciphertext of
                None \<Rightarrow> Inl InvalidTag
              | Some data \<Rightarrow> utf8_decode data)"

definition rsa_encrypt_key :: "crypto \<Rightarrow> bytes \<Rightarrow> bytes \<Rightarrow> bytes result" where
  "rsa_encrypt_key cr public_key_bytes aes_key = rsa_wrap cr public_key_bytes aes_key"

lemma crypto_okD:
  assumes "crypto_ok cr" and "aes_key_ok k"
  shows "aes_open cr k n (aes_seal cr k n d) = Some d"
    and "length (aes_seal cr k n d) = length d + 16"
  using assms by (auto simp: crypto_ok_def)

lemma decrypt_encrypt:
  assumes "crypto_ok cr" and "aes_key_ok key" and "length nonce = 12"
    and "list_all scalar_value message"
  shows "\<exists>enc. encrypt_message cr nonce message key = Inr enc \<and>
    decrypt_message cr enc key = Inr message"
proof -
  obtain data where d: "utf8_encode message = Inr data" "utf8_decode data = Inr message"
    using utf8.dec_enc [OF assms(4)] by blast
  show ?thesis
    using assms(2,3) d crypto_okD(1) [OF assms(1,2), of nonce data]
    by (simp add: encrypt_message_def decrypt_message_def)
qed

lemma length_encrypt_ascii:
  assumes "crypto_ok cr" and "aes_key_ok key" and "list_all (\<lambda>c. c < 0x80) message"
  shows "\<exists>enc. encrypt_message cr nonce message key = Inr enc \<and>
    length enc = length nonce + length message + 16"
  using assms crypto_okD(2) [OF assms(1,2)]
  by (simp add: encrypt_message_def utf8_encode_ascii)

lemma check_file_size_JStr:
  "check_file_size (JStr s) \<longleftrightarrow>
     s \<noteq> [] \<and> (\<exists>raw. b64decode (s @ pad3) = Inr raw \<and> length raw \<le> MAX_FILE_SIZE)"
  by (auto simp: check_file_size_def split: sum.splits)

lemma check_file_size_is_str: "check_file_size v \<Longrightarrow> \<exists>s. v = JStr s"
  by (cases v) (auto simp: check_file_size_def split: if_splits)

lemma pad3_eq: "pad3 = replicate 3 61"
proof -
  have "pad3 = [61, 61, 61]" by (simp add: pad3_def py_eval)
  then show ?thesis by (simp add: numeral_3_eq_3)
qed

text \<open>What the check computes on a payload that \<open>b64encode\<close> produced.\<close>

lemma check_file_size_b64encode:
  "check_file_size (JStr (b64encode bs)) \<longleftrightarrow> bs \<noteq> [] \<and> length bs \<le> MAX_FILE_SIZE"
  using b64decode_encode_pad [of bs 3]
  by (simp add: check_file_size_JStr pad3_eq)

text \<open>A concrete instance of the primitives, for witnesses: a keyed tag and no secrecy.\<close>

definition toy_tag :: "bytes \<Rightarrow> bytes \<Rightarrow> bytes" where
  "toy_tag k n = take 16 (k @ replicate 16 0)"

definition toy_crypto :: crypto where
  "toy_crypto =
     \<lparr>aes_seal = (\<lambda>k n d. d @ toy_tag k n),
      aes_open = (\<lambda>k n c.
        if 16 \<le> length c \<and> drop (length c - 16) c = toy_tag k n
        then Some (take (length c - 16) c) else None),
      rsa_wrap = (\<lambda>pem m. if length m \<le> 190
        then Inr (of_nat (length m) # m @ replicate (255 - length m) 0) else Inl ValueError),
      rsa_unwrap = (\<lambda>priv c. Some (take (unat (hd c)) (tl c)))\<rparr>"

lemma toy_crypto_ok: "crypto_ok toy_crypto"
proof -
  have len: "length (toy_tag k n) = 16" for k n by (simp add: toy_tag_def)
  show ?thesis by (simp add: crypto_ok_def toy_crypto_def len)
qed

lemma toy_rsa_pair: "rsa_pair toy_crypto pem priv"
  by (simp add: rsa_pair_def toy_crypto_def unat_of_nat8)

section \<open>Properties\<close>

text \<open>C33
  Sealing and opening. Under a key AES-GCM takes, every text a UTF-8 encoder accepts is sealed
  into the 12-byte nonce, the encoded text and the 16-byte tag, and opening that with the same
  key gives the text back; under a key of any other length both functions raise
  \<open>ValueError\<close> on every input.\<close>

theorem encrypt_decrypt_roundtrip:
  assumes "crypto_ok cr" and "length nonce = 12" and "list_all scalar_value message"
  shows "if aes_key_ok key
    then \<exists>data enc. utf8_encode message = Inr data \<and> encrypt_message cr nonce message key = Inr enc \<and>
      take 12 enc = nonce \<and> length enc = 12 + length data + 16 \<and>
      decrypt_message cr enc key = Inr message
    else encrypt_message cr nonce message key = Inl ValueError \<and>
      (\<forall>enc. decrypt_message cr enc key = Inl ValueError)"
proof (cases "aes_key_ok key")
  case True
  obtain data where d: "utf8_encode message = Inr data"
    using utf8.dec_enc [OF assms(3)] by blast
  obtain enc where "encrypt_message cr nonce message key = Inr enc" "decrypt_message cr enc key = Inr message"
    using decrypt_encrypt [OF assms(1) True assms(2,3)] by blast
  then show ?thesis
    using True d assms(2) crypto_okD(2) [OF assms(1) True]
    by (auto simp: encrypt_message_def)
qed (simp add: encrypt_message_def decrypt_message_def)

theorem encrypt_decrypt_roundtrip_witness:
  "\<exists>data enc. utf8_encode [104, 8364] = Inr data \<and>
    encrypt_message toy_crypto (replicate 12 7) [104, 8364] (replicate 16 1) = Inr enc \<and>
    take 12 enc = replicate 12 7 \<and> length enc = 12 + length data + 16 \<and>
    decrypt_message toy_crypto enc (replicate 16 1) = Inr [104, 8364]"
proof -
  have k: "aes_key_ok (replicate 16 (1 :: byte))" by (simp add: aes_key_ok_def)
  have "list_all scalar_value [104, 8364]" by (simp add: scalar_value_def is_surrogate_def)
  from encrypt_decrypt_roundtrip [OF toy_crypto_ok _ this, of "replicate 12 7" "replicate 16 1"]
  show ?thesis using k by simp
qed

text \<open>
  The file-size check counts decoded bytes. On what \<open>b64encode\<close> makes of a file, the check
  accepts exactly the non-empty files of at most 5 MB; so the empty file is refused. A payload
  that is not a string is refused, not an error.\<close>

theorem file_size_check_exact:
  "(check_file_size (JStr (b64encode bs)) \<longleftrightarrow> 0 < length bs \<and> length bs \<le> 5 * 1024 * 1024) \<and>
   (check_file_size v \<longrightarrow> (\<exists>s. v = JStr s \<and> s \<noteq> []))"
proof (intro conjI impI)
  show "check_file_size (JStr (b64encode bs)) \<longleftrightarrow> 0 < length bs \<and> length bs \<le> 5 * 1024 * 1024"
    unfolding check_file_size_b64encode MAX_FILE_SIZE_def power2_eq_square mult.assoc by blast
  assume c: "check_file_size v"
  then obtain s where s: "v = JStr s" using check_file_size_is_str by blast
  have "s \<noteq> []" using c unfolding s check_file_size_JStr by blast
  with s show "\<exists>s. v = JStr s \<and> s \<noteq> []" by blast
qed

theorem file_size_check_exact_witness:
  "check_file_size (JStr (b64encode [1, 2])) \<and> \<not> check_file_size (JStr (b64encode [])) \<and>
   (check_file_size JNull \<longrightarrow> (\<exists>s. JNull = JStr s \<and> s \<noteq> []))"
  using file_size_check_exact [of "[1, 2]" JNull] file_size_check_exact [of "[]" JNull]
  unfolding list.size by (simp del: b64encode.simps)

text \<open>
  The message-size check counts bytes, not characters. A text of at most 16384 characters always
  passes, one of more than 65536 never does, and in between it depends on how many bytes the
  characters take.\<close>

theorem message_size_check_bounds:
  assumes "list_all scalar_value m"
  shows "\<exists>b. check_message_size m = Inr b \<and> (length m \<le> 16384 \<longrightarrow> b) \<and> (65536 < length m \<longrightarrow> \<not> b)"
proof -
  obtain bs where bs: "utf8_encode m = Inr bs" using utf8.dec_enc [OF assms] by blast
  then have bs_eq: "bs = concat (map utf8_char m)" by (auto simp: utf8_encode_def split: if_splits)
  have "length bs \<le> 4 * length m \<and> length m \<le> length bs"
    unfolding bs_eq
  proof (induction m)
    case (Cons c m)
    moreover have "1 \<le> length (utf8_char c)" using length_utf8_char(2) [of c] by linarith
    ultimately show ?case using length_utf8_char(1) [of c] by simp
  qed simp
  then show ?thesis using bs by (auto simp: check_message_size_def MAX_MESSAGE_SIZE_def)
qed

theorem message_size_check_bounds_witness:
  "check_message_size (replicate 70000 97) = Inr False \<and> check_message_size [104, 105] = Inr True"
proof -
  have "list_all scalar_value (replicate 70000 97)" "list_all scalar_value [104, 105]"
    by (simp_all add: list_all_iff scalar_value_def is_surrogate_def)
  from message_size_check_bounds [OF this(1)] message_size_check_bounds [OF this(2)]
  show ?thesis by (simp only: length_replicate) auto
qed

end
