(* ===== verification/Framing.thy ===== *)
theory Framing
  imports Encryption
begin

text \<open>
  The wire: length-prefixed frames (\<open>struct.pack(">I", n)\<close>, \<open>struct.unpack\<close>), the frame
  reader of \<open>server/server.py\<close>, and the two ways the program reads a socket. A socket that
  still has data is the list of the segments in which the data will arrive: one \<open>recv\<close> takes
  at most one segment, \<open>[]\<close> is a peer that has closed. \<open>conn.makefile('rb')\<close> buffers, so
  its \<open>read(n)\<close> only depends on the concatenation.
\<close>

section \<open>Length prefix\<close>

definition pack_be32 :: "nat \<Rightarrow> bytes result" where
  "pack_be32 n =
     (if n < 2 ^ 32
      then Inr [of_nat (n div 2 ^ 24), of_nat (n div 2 ^ 16), of_nat (n div 2 ^ 8), of_nat n]
      else Inl StructError)"

definition unpack_be32 :: "bytes \<Rightarrow> nat result" where
  "unpack_be32 bs =
     (case bs of
        [a, b, c, d] \<Rightarrow> Inr (unat a * 2 ^ 24 + unat b * 2 ^ 16 + unat c * 2 ^ 8 + unat d)
      | _ \<Rightarrow> Inl StructError)"

lemma unat_of_nat_mod: "unat (of_nat n :: byte) = n mod 256"
  by (simp add: unat_of_nat)

lemma four_digits:
  assumes "n < 2 ^ 32"
  shows "n div 2 ^ 24 mod 256 * 2 ^ 24 + n div 2 ^ 16 mod 256 * 2 ^ 16 + n div 2 ^ 8 mod 256 * 2 ^ 8
     + n mod 256 = (n :: nat)"
proof -
  have e: "n div 65536 = n div 256 div 256" "n div 16777216 = n div 256 div 256 div 256"
    by (simp_all add: div_mult2_eq [symmetric])
  have "n div 256 div 256 div 256 < 256"
    using assms by (simp add: div_mult2_eq [symmetric])
  then have "n div 16777216 mod 256 = n div 256 div 256 div 256" unfolding e by simp
  moreover have "n div 65536 = n div 256 div 256 div 256 * 256 + n div 65536 mod 256"
    "n div 256 = n div 65536 * 256 + n div 256 mod 256" "n = n div 256 * 256 + n mod 256"
    unfolding e by simp_all
  ultimately have digits: "n div 16777216 mod 256 * 16777216 + n div 65536 mod 256 * 65536
      + n div 256 mod 256 * 256 + n mod 256 = n" by linarith
  have "2 ^ 24 = (16777216 :: nat)" "2 ^ 16 = (65536 :: nat)" "2 ^ 8 = (256 :: nat)"
    by simp_all
  then show ?thesis using digits by (simp only:)
qed

interpretation be32: codec pack_be32 unpack_be32 "\<lambda>n. n < 2 ^ 32"
  by unfold_locales
    (use four_digits in \<open>auto simp: pack_be32_def unpack_be32_def unat_of_nat_mod\<close>)

lemma unpack_be32_bound: "unpack_be32 bs = Inr n \<Longrightarrow> n < 2 ^ 32"
proof -
  assume "unpack_be32 bs = Inr n"
  then obtain a b c d where "bs = [a, b, c, d]"
    and n: "n = unat a * 2 ^ 24 + unat b * 2 ^ 16 + unat c * 2 ^ 8 + unat d"
    by (auto simp: unpack_be32_def split: list.splits)
  then show ?thesis
    using unat_byte_less [of a] unat_byte_less [of b] unat_byte_less [of c] unat_byte_less [of d]
    by simp
qed

lemma length_pack_be32: "pack_be32 n = Inr h \<Longrightarrow> length h = 4"
  by (auto simp: pack_be32_def split: if_splits)

section \<open>Frames\<close>

definition frame :: "bytes \<Rightarrow> bytes result" where
  "frame body = rmap (\<lambda>h. h @ body) (pack_be32 (length body))"

text \<open>
  \<open>read_frame(conn_file)\<close> on the bytes still to come: the outcome and what is left.
  \<open>Inr None\<close> is the end of the stream before a header.
\<close>

definition read_frame :: "bytes \<Rightarrow> (bytes option) result \<times> bytes" where
  "read_frame s =
     (let header = take 4 s; s1 = drop 4 s
      in if header = [] then (Inr None, s1)
         else case unpack_be32 header of
                Inl e \<Rightarrow> (Inl e, s1)
              | Inr msg_len \<Rightarrow>
                  if msg_len > MAX_FRAME_SIZE then (Inl ValueError, s1)
                  else let data = take msg_len s1; s2 = drop msg_len s1
                       in if length data < msg_len then (Inl ValueError, s2)
                          else (Inr (Some data), s2))"

definition read_frame1 :: "bytes \<Rightarrow> (bytes \<times> bytes) option" where
  "read_frame1 s = (case read_frame s of (Inr (Some d), r) \<Rightarrow> Some (d, r) | _ \<Rightarrow> None)"

definition frame_bytes :: "bytes \<Rightarrow> bytes" where
  "frame_bytes body = (case frame body of Inr f \<Rightarrow> f | Inl e \<Rightarrow> [])"

definition frame_ok :: "bytes \<Rightarrow> bool" where
  "frame_ok body \<longleftrightarrow> length body \<le> MAX_FRAME_SIZE"

lemma frame_ok_small: "frame_ok d \<Longrightarrow> length d < 2 ^ 32"
  by (simp add: frame_ok_def MAX_FRAME_SIZE_def)

lemma frame_of_ok:
  assumes "length d < 2 ^ 32"
  shows "\<exists>h. frame d = Inr (h @ d) \<and> length h = 4 \<and> unpack_be32 h = Inr (length d)"
proof -
  obtain h where "pack_be32 (length d) = Inr h" "unpack_be32 h = Inr (length d)"
    using be32.dec_enc [OF assms] by blast
  then show ?thesis
    using length_pack_be32 by (auto simp: frame_def)
qed

lemma read_frame_frame:
  assumes "frame d = Inr f" and "frame_ok d"
  shows "read_frame (f @ rest) = (Inr (Some d), rest)"
proof -
  obtain h where h: "f = h @ d" "length h = 4" "unpack_be32 h = Inr (length d)"
    using frame_of_ok [OF frame_ok_small [OF assms(2)]] assms(1) by auto
  then show ?thesis
    using assms(2) by (auto simp: read_frame_def frame_ok_def Let_def)
qed

lemma frame_bytes_frame: "frame_ok d \<Longrightarrow> frame d = Inr (frame_bytes d)"
  using frame_of_ok [OF frame_ok_small, of d] by (auto simp: frame_bytes_def)

interpretation fr: prefix_codec frame_bytes read_frame1 frame_ok
proof unfold_locales
  fix d rest
  assume d: "frame_ok d"
  show "read_frame1 (frame_bytes d @ rest) = Some (d, rest)"
    using read_frame_frame [OF frame_bytes_frame [OF d] d] by (simp add: read_frame1_def)
next
  fix d
  assume d: "frame_ok d"
  show "frame_bytes d \<noteq> []"
    using frame_of_ok [OF frame_ok_small [OF d]] by (auto simp: frame_bytes_def)
qed

text \<open>Every outcome that goes on reading has consumed input: the frame loops end.\<close>

lemma read_frame_shorter: "read_frame s = (Inr (Some d), r) \<Longrightarrow> length r < length s"
  by (auto simp: read_frame_def Let_def split: if_splits sum.splits)

lemma read_frame_size: "read_frame s = (Inr (Some d), r) \<Longrightarrow> length d \<le> MAX_FRAME_SIZE"
  by (auto simp: read_frame_def Let_def split: if_splits sum.splits)

section \<open>Sockets\<close>

type_synonym segments = "bytes list"

definition live :: "segments \<Rightarrow> bool" where
  "live segs \<longleftrightarrow> [] \<notin> set segs"

definition recv :: "nat \<Rightarrow> segments \<Rightarrow> bytes \<times> segments" where
  "recv n segs =
     (case segs of
        [] \<Rightarrow> ([], [])
      | c # cs \<Rightarrow> if length c \<le> n then (c, cs) else (take n c, drop n c # cs))"

text \<open>\<open>recv_exact_socket\<close>: the loop, with the bytes collected so far.\<close>

function recv_loop :: "nat \<Rightarrow> bytes \<Rightarrow> segments \<Rightarrow> bytes result \<times> segments" where
  "recv_loop n chunks segs =
     (if length chunks < n then
        (let (chunk, segs') = recv (n - length chunks) segs
         in if chunk = [] then (Inl ValueError, segs')
            else recv_loop n (chunks @ chunk) segs')
      else (Inr chunks, segs))"
  by pat_completeness auto
termination
  by (relation "measure (\<lambda>(n, chunks, segs). n - length chunks)")
    (auto intro!: diff_less_mono2)

declare recv_loop.simps [simp del]

definition recv_exact_socket :: "segments \<Rightarrow> nat \<Rightarrow> bytes result \<times> segments" where
  "recv_exact_socket segs n = recv_loop n [] segs"

lemma recv_spec:
  assumes "live segs" and "0 < n" and "recv n segs = (chunk, segs')"
  shows "chunk @ concat segs' = concat segs" and "live segs'" and "length chunk \<le> n"
    and "chunk = [] \<longleftrightarrow> segs = []"
  using assms by (auto simp: recv_def live_def split: list.splits if_splits)

lemma recv_loop_spec:
  assumes "live segs" and "length chunks \<le> n"
  shows "n \<le> length chunks + length (concat segs) \<Longrightarrow>
      \<exists>segs'. recv_loop n chunks segs = (Inr (take n (chunks @ concat segs)), segs') \<and>
        concat segs' = drop n (chunks @ concat segs) \<and> live segs'"
    and "length chunks + length (concat segs) < n \<Longrightarrow>
      \<exists>segs'. recv_loop n chunks segs = (Inl ValueError, segs')"
  using assms
proof (induction n chunks segs rule: recv_loop.induct)
  case (1 n chunks segs)
  obtain chunk segs' where r: "recv (n - length chunks) segs = (chunk, segs')"
    by (cases "recv (n - length chunks) segs")
  {
    case 1
    show ?case
    proof (cases "length chunks < n")
      case True
      then have pos: "0 < n - length chunks" by simp
      note spec = recv_spec [OF "1.prems"(2) pos r]
      have ne: "chunk \<noteq> []" using spec(4) True "1.prems"(1) by auto
      then show ?thesis
        using "1.IH"(1) [OF True r [symmetric] refl ne] spec(2,3) True "1.prems"
          arg_cong [OF spec(1), of length]
        by (subst recv_loop.simps) (auto simp: r spec(1) [symmetric])
    qed (use "1.prems" in \<open>subst recv_loop.simps, auto\<close>)
  next
    case 2
    then have True: "length chunks < n" and pos: "0 < n - length chunks" by simp_all
    note spec = recv_spec [OF "2.prems"(2) pos r]
    show ?case
    proof (cases "chunk = []")
      case False
      then show ?thesis
        using "1.IH"(2) [OF True r [symmetric] refl False] spec(2,3) True "2.prems"
          arg_cong [OF spec(1), of length]
        by (subst recv_loop.simps) (auto simp: r)
    qed (use True in \<open>subst recv_loop.simps, simp add: r\<close>)
  }
qed

text \<open>Segments that hold exactly the bytes asked for are consumed, the next one is not touched.\<close>

lemma recv_loop_exact:
  assumes "live ks" and "length chunks + length (concat ks) = n"
  shows "recv_loop n chunks (ks @ segs) = (Inr (chunks @ concat ks), segs)"
  using assms
proof (induction ks arbitrary: chunks)
  case Nil
  then show ?case by (subst recv_loop.simps) simp
next
  case (Cons x ks)
  then have x: "x \<noteq> []" "length x \<le> n - length chunks" "length chunks < n"
    by (auto simp: live_def)
  then have "recv_loop n chunks ((x # ks) @ segs) = recv_loop n (chunks @ x) (ks @ segs)"
    by (subst recv_loop.simps) (simp add: recv_def)
  also have "\<dots> = (Inr ((chunks @ x) @ concat ks), segs)"
    using Cons.prems by (intro Cons.IH) (auto simp: live_def)
  finally show ?case by simp
qed

lemma recv_exact_exact:
  "live ks \<Longrightarrow> length (concat ks) = n \<Longrightarrow>
   recv_exact_socket (ks @ segs) n = (Inr (concat ks), segs)"
  by (simp add: recv_exact_socket_def recv_loop_exact)

text \<open>
  The read of a fixed length does not depend on how the bytes were split into segments.
\<close>

lemma recv_exact_spec:
  assumes "live segs"
  shows "n \<le> length (concat segs) \<Longrightarrow>
      \<exists>segs'. recv_exact_socket segs n = (Inr (take n (concat segs)), segs') \<and>
        concat segs' = drop n (concat segs) \<and> live segs'"
    and "length (concat segs) < n \<Longrightarrow> \<exists>segs'. recv_exact_socket segs n = (Inl ValueError, segs')"
  using recv_loop_spec [OF assms, of "[]" n] by (simp_all add: recv_exact_socket_def)

section \<open>Properties\<close>

text \<open>C32
  A read of fixed length does not depend on the segmentation. Whatever non-empty pieces the peer's
  bytes arrive in, \<open>recv_exact_socket\<close> returns the first \<open>n\<close> bytes and leaves exactly the
  rest, when there are as many; otherwise it raises \<open>ValueError\<close>, and in both cases it ends.\<close>

theorem recv_any_segmentation:
  assumes "live segs"
  shows "if n \<le> length (concat segs)
    then \<exists>segs'. recv_exact_socket segs n = (Inr (take n (concat segs)), segs') \<and>
      concat segs' = drop n (concat segs)
    else \<exists>segs'. recv_exact_socket segs n = (Inl ValueError, segs')"
  using recv_exact_spec [OF assms, of n] by auto

theorem recv_any_segmentation_witness:
  "\<exists>segs'. recv_exact_socket [[1], [2, 3], [4, 5]] 4 = (Inr [1, 2, 3, 4], segs') \<and> concat segs' = [5]"
  using recv_any_segmentation [of "[[1], [2, 3], [4, 5]]" 4] by (simp add: live_def)

text \<open>
  A stream of frames is unambiguous. Frames are self-delimiting: the frame reader takes a body
  within the limit back out of the stream whatever follows, and two sequences of bodies within
  the limit with the same bytes on the wire are the same sequence.\<close>

theorem frame_stream_unambiguous:
  assumes "list_all frame_ok xs" and "list_all frame_ok ys"
    and "concat (map frame_bytes xs) = concat (map frame_bytes ys)"
  shows "xs = ys \<and> (\<forall>x rest. x \<in> set xs \<longrightarrow>
    frame x = Inr (frame_bytes x) \<and> read_frame (frame_bytes x @ rest) = (Inr (Some x), rest))"
proof -
  have "frame x = Inr (frame_bytes x) \<and> read_frame (frame_bytes x @ rest) = (Inr (Some x), rest)"
    if "x \<in> set xs" for x rest
  proof -
    have ok: "frame_ok x" using that assms(1) by (auto simp: list_all_iff)
    show ?thesis using frame_bytes_frame [OF ok] read_frame_frame [OF frame_bytes_frame [OF ok] ok] by simp
  qed
  then show ?thesis using fr.concat_inject [OF assms] by blast
qed

theorem frame_stream_unambiguous_witness:
  "frame [1] = Inr (frame_bytes [1]) \<and> read_frame (frame_bytes [1] @ [9]) = (Inr (Some [1]), [9])"
proof -
  have "list_all frame_ok [[1], []]" by (simp add: frame_ok_def size_limits)
  from frame_stream_unambiguous [OF this this refl] show ?thesis by simp
qed

text \<open>
  The frame limit is enforced before the body is read. Of a header that announces more than
  8 MB nothing after the four bytes is consumed and \<open>ValueError\<close> is raised; no body the
  reader ever returns is longer than the limit; and a returned frame consumed exactly its four
  bytes of length and its body.\<close>

theorem frame_reader_bounded:
  assumes "read_frame s = (r, rest)"
  shows "(\<forall>n. unpack_be32 (take 4 s) = Inr n \<longrightarrow> 8388608 < n \<longrightarrow> r = Inl ValueError \<and> rest = drop 4 s) \<and>
    (\<forall>d. r = Inr (Some d) \<longrightarrow> length d \<le> 8388608 \<and> s = take 4 s @ d @ rest \<and>
      unpack_be32 (take 4 s) = Inr (length d))"
proof -
  have split: "s = take 4 s @ take n (drop 4 s) @ drop (n + 4) s" for n
    by (metis append_take_drop_id drop_drop)
  have "take 4 s \<noteq> []" if "unpack_be32 (take 4 s) = Inr n" for n
    using that by (auto simp: unpack_be32_def)
  moreover have "s = take 4 s @ d @ rest \<and> unpack_be32 (take 4 s) = Inr (length d)" if "r = Inr (Some d)" for d
    using assms that
    using split by (auto simp: read_frame_def Let_def split: if_splits sum.splits)
  ultimately show ?thesis
    using assms read_frame_size [of s _ rest]
    by (auto simp: read_frame_def Let_def MAX_FRAME_SIZE_def split: if_splits sum.splits)
qed

theorem frame_reader_bounded_witness:
  "\<exists>r rest. read_frame [1, 0, 0, 0, 9] = (r, rest) \<and> r = Inl ValueError \<and> rest = [9]"
proof -
  obtain r rest where r: "read_frame [1, 0, 0, 0, 9] = (r, rest)" by force
  have "unpack_be32 (take 4 [1, 0, 0, 0, 9]) = Inr 16777216" by (simp add: unpack_be32_def)
  then show ?thesis using frame_reader_bounded [OF r] r by simp
qed

end
