(* ===== verification/Server.thy ===== *)
theory Server
  imports Validation Framing
begin

text \<open>
  \<open>server/server.py\<close>: the shared tables, sending, the handler of each request, the frame
  loop, the handshake and the clean-up of a connection.

  The state is what the threads of the server share (\<open>clients\<close>, \<open>groups\<close>) together with the
  outside world they write to: the log of the frames written to connections, which
  connections refuse a write, and how many random draws and clock readings were made. A
  function of the code that can raise returns the exception or the value beside the state it
  leaves, so effects before the exception persist.
\<close>

section \<open>State\<close>

type_synonym conn = nat

record delivery =
  d_conn :: conn
  d_key :: bytes
  d_payload :: json
  d_bytes :: bytes

record server =
  clients :: "(pystr \<times> (conn \<times> bytes)) list"
  groups :: "(pystr \<times> pystr list) list"
  sent :: "delivery list"
  broken :: "conn \<Rightarrow> bool"
  draws :: nat
  ticks :: nat

text \<open>What the process gets from outside: primitives, randomness, the clock, the private key.\<close>

record env =
  e_crypto :: crypto
  e_random :: "nat \<Rightarrow> nat \<Rightarrow> bytes"
  e_clock :: "nat \<Rightarrow> pystr"
    \<comment> \<open>\<open>datetime.now(utc).isoformat()\<close> at the n-th reading\<close>
  e_float :: "pystr \<Rightarrow> pyfloat"
  e_printable :: "nat \<Rightarrow> bool"
  e_private :: bytes

type_synonym 'a step = "server \<Rightarrow> 'a result \<times> server"
type_synonym send_op = "conn \<Rightarrow> bytes \<Rightarrow> json \<Rightarrow> unit step"

section \<open>Sending\<close>

definition wrap_payload :: "json \<Rightarrow> json" where
  "wrap_payload payload =
     (case payload of
        JStr m \<Rightarrow> JObj [(lit ''type'', JStr (lit ''error'')), (lit ''message'', JStr m)]
      | _ \<Rightarrow> payload)"

definition send_payload :: "env \<Rightarrow> send_op" where
  "send_payload e c key payload0 s =
     (let payload = wrap_payload payload0
      in case encrypt_message (e_crypto e) (e_random e (draws s) 12) (dumps payload) key of
           Inl x \<Rightarrow> (Inl x, s)
         | Inr encrypted \<Rightarrow>
             (let s1 = s\<lparr>draws := Suc (draws s)\<rparr>
              in case frame encrypted of
                   Inl x \<Rightarrow> (Inl x, s1)
                 | Inr f \<Rightarrow>
                     if broken s c then (Inl OSError, s1)
                     else (Inr (), s1\<lparr>sent := sent s @
                       [\<lparr>d_conn = c, d_key = key, d_payload = payload, d_bytes = f\<rparr>]\<rparr>)))"

definition error_payload :: "pystr \<Rightarrow> json" where
  "error_payload m = JObj [(lit ''type'', JStr (lit ''error'')), (lit ''message'', JStr m)]"

definition send_error :: "env \<Rightarrow> conn \<Rightarrow> bytes \<Rightarrow> pystr \<Rightarrow> unit step" where
  "send_error e c key m s = send_payload e c key (error_payload m) s"

definition user_list_payload :: "pystr list \<Rightarrow> json" where
  "user_list_payload us =
     JObj [(lit ''type'', JStr (lit ''user_list'')), (lit ''users'', JList (map JStr us))]"

text \<open>The loop of \<open>broadcast_user_list\<close>: a failed send is reported and the loop goes on.\<close>

fun send_each :: "send_op \<Rightarrow> json \<Rightarrow> (conn \<times> bytes) list \<Rightarrow> server \<Rightarrow> server" where
  "send_each send payload [] s = s"
| "send_each send payload ((c, key) # ts) s =
     send_each send payload ts (snd (send c key payload s))"

definition broadcast_user_list :: "env \<Rightarrow> server \<Rightarrow> server" where
  "broadcast_user_list e s =
     send_each (send_payload e) (user_list_payload (dict_keys (clients s))) (map snd (clients s)) s"

definition forward_payload :: "env \<Rightarrow> pystr \<Rightarrow> json \<Rightarrow> unit step" where
  "forward_payload e to_user payload s =
     (case dict_get (clients s) to_user of
        None \<Rightarrow> (Inr (), s)
      | Some (c, key) \<Rightarrow> send_payload e c key payload s)"

text \<open>
  The member loops of group requests: every connected member but the sender, looked up when
  its turn comes; an exception of a send leaves the loop.
\<close>

fun send_members :: "send_op \<Rightarrow> pystr \<Rightarrow> json \<Rightarrow> pystr list \<Rightarrow> unit step" where
  "send_members send username payload [] s = (Inr (), s)"
| "send_members send username payload (m # ms) s =
     (case dict_get (clients s) m of
        Some (c, key) \<Rightarrow>
          if m \<noteq> username then
            (case send c key payload s of
               (Inl x, s') \<Rightarrow> (Inl x, s')
             | (Inr _, s') \<Rightarrow> send_members send username payload ms s')
          else send_members send username payload ms s
      | None \<Rightarrow> send_members send username payload ms s)"

section \<open>Requests\<close>

text \<open>\<open>datetime.now(utc).isoformat() + "Z"\<close>.\<close>

definition stamp :: "env \<Rightarrow> server \<Rightarrow> json" where
  "stamp e s = JStr (e_clock e (ticks s) @ lit ''Z'')"

definition tick :: "server \<Rightarrow> server" where
  "tick s = s\<lparr>ticks := Suc (ticks s)\<rparr>"

definition str_of :: "json \<Rightarrow> pystr" where
  "str_of v = (case v of JStr s \<Rightarrow> s | _ \<Rightarrow> [])"

text \<open>\<open>all(is_safe_username(m) for m in members)\<close>, left to right, stopping at the first no.\<close>

fun all_safe :: "json list \<Rightarrow> bool result" where
  "all_safe [] = Inr True"
| "all_safe (v # vs) =
     (case is_safe_username v of
        Inl x \<Rightarrow> Inl x
      | Inr b \<Rightarrow> if b then all_safe vs else Inr False)"

definition members_ok :: "json \<Rightarrow> bool result" where
  "members_ok v = (case v of JList vs \<Rightarrow> all_safe vs | _ \<Rightarrow> Inr False)"

definition member_names :: "json \<Rightarrow> pystr list" where
  "member_names v = (case v of JList vs \<Rightarrow> map str_of vs | _ \<Rightarrow> [])"

definition sorted_set :: "pystr list \<Rightarrow> pystr list" where
  "sorted_set xs = sort (remdups xs)"

definition invite_payload :: "pystr \<Rightarrow> pystr list \<Rightarrow> json" where
  "invite_payload g ms =
     JObj [(lit ''type'', JStr (lit ''group_invite'')), (lit ''group_name'', JStr g),
       (lit ''members'', JList (map JStr ms))]"

definition created_payload :: "pystr \<Rightarrow> json" where
  "created_payload g =
     JObj [(lit ''type'', JStr (lit ''group_created'')), (lit ''group_name'', JStr g)]"

definition handle_create_group ::
  "env \<Rightarrow> pystr \<Rightarrow> conn \<Rightarrow> bytes \<Rightarrow> jobject \<Rightarrow> unit step" where
  "handle_create_group e username c key p s =
     (let group_name = jget p (lit ''group_name'');
          members0 = jget_or p (lit ''members'') (JList [])
      in case is_safe_group_name group_name of
           Inl x \<Rightarrow> (Inl x, s)
         | Inr False \<Rightarrow> send_error e c key (lit ''Invalid group name.'') s
         | Inr True \<Rightarrow>
             (case members_ok members0 of
                Inl x \<Rightarrow> (Inl x, s)
              | Inr False \<Rightarrow> send_error e c key (lit ''Invalid group members.'') s
              | Inr True \<Rightarrow>
                  (let g = str_of group_name;
                       members = sorted_set (member_names members0 @ [username])
                   in if dict_get (groups s) g \<noteq> None
                      then send_error e c key (lit ''Group already exists.'') s
                      else
                        (case send_members (send_payload e) username (invite_payload g members)
                            members (s\<lparr>groups := dict_set (groups s) g members\<rparr>) of
                           (Inl x, s2) \<Rightarrow> (Inl x, s2)
                         | (Inr _, s2) \<Rightarrow> send_payload e c key (created_payload g) s2))))"

text \<open>\<open>groups.get(name, {}).get("members")\<close> and the membership test.\<close>

definition group_members :: "server \<Rightarrow> pystr \<Rightarrow> pystr list" where
  "group_members s g = (case dict_get (groups s) g of None \<Rightarrow> [] | Some ms \<Rightarrow> ms)"

definition group_message_payload :: "env \<Rightarrow> pystr \<Rightarrow> jobject \<Rightarrow> server \<Rightarrow> jobject" where
  "group_message_payload e g p s =
     dict_set (dict_set (dict_set (dict_set (dict_set p (lit ''to'') (JStr g))
       (lit ''payload'') (jget p (lit ''payload''))) (lit ''payload_type'') (JStr (lit ''text'')))
       (lit ''to_type'') (JStr (lit ''group''))) (lit ''timestamp'') (stamp e s)"

definition handle_group_message ::
  "env \<Rightarrow> pystr \<Rightarrow> conn \<Rightarrow> bytes \<Rightarrow> jobject \<Rightarrow> unit step" where
  "handle_group_message e username c key p s =
     (let group_name = jget p (lit ''to'')
      in case is_safe_group_name group_name of
           Inl x \<Rightarrow> (Inl x, s)
         | Inr False \<Rightarrow> send_error e c key (lit ''Invalid group name.'') s
         | Inr True \<Rightarrow>
             (let g = str_of group_name; members = group_members s g
              in if members = [] \<or> username \<notin> set members
                 then send_error e c key (lit ''Not a member of that group.'') s
                 else send_members (send_payload e) username
                        (JObj (group_message_payload e g p s)) members (tick s)))"

definition message_payload :: "env \<Rightarrow> jobject \<Rightarrow> server \<Rightarrow> jobject" where
  "message_payload e p s =
     dict_set (dict_set (dict_set p (lit ''payload_type'') (JStr (lit ''text'')))
       (lit ''to_type'') (JStr (lit ''user''))) (lit ''timestamp'') (stamp e s)"

definition handle_message ::
  "env \<Rightarrow> pystr \<Rightarrow> conn \<Rightarrow> bytes \<Rightarrow> jobject \<Rightarrow> unit step" where
  "handle_message e username c key p s =
     (let to_user = jget p (lit ''to'')
      in case is_safe_username to_user of
           Inl x \<Rightarrow> (Inl x, s)
         | Inr False \<Rightarrow> send_error e c key (lit ''Invalid recipient username.'') s
         | Inr True \<Rightarrow>
             (case check_message_size
                 (py_str (e_printable e) (jget_or p (lit ''payload'') (JStr []))) of
                Inl x \<Rightarrow> (Inl x, s)
              | Inr False \<Rightarrow>
                  send_error e c key
                    (lit ''Message dropped. Exceeds limit of '' @ int_str (int MAX_MESSAGE_SIZE) @
                     lit ''.'') s
              | Inr True \<Rightarrow>
                  forward_payload e (str_of to_user) (JObj (message_payload e p s)) (tick s)))"

definition file_payload :: "env \<Rightarrow> jobject \<Rightarrow> server \<Rightarrow> jobject" where
  "file_payload e p s =
     dict_set (dict_set p (lit ''payload_type'') (JStr (lit ''file'')))
       (lit ''timestamp'') (stamp e s)"

definition file_target :: "env \<Rightarrow> jobject \<Rightarrow> pystr" where
  "file_target e p = lstrip_char 35 (py_str (e_printable e) (jget_or p (lit ''to'') (JStr [])))"

definition handle_file ::
  "env \<Rightarrow> pystr \<Rightarrow> conn \<Rightarrow> bytes \<Rightarrow> jobject \<Rightarrow> unit step" where
  "handle_file e username c key p s =
     (let file_data = jget p (lit ''payload'');
          file_to = file_target e p;
          filename = jget p (lit ''filename'');
          is_group = (jget p (lit ''to_type'') = JStr (lit ''group''))
      in if \<not> truthy file_data \<or> \<not> truthy filename then (Inl ValueError, s)
         else if \<not> is_safe_transfer_filename (e_printable e) filename
         then send_error e c key (lit ''Blocked dangerous filename.'') s
         else if \<not> check_file_size file_data
         then send_error e c key
                (lit ''Message dropped. Exceeds limit of '' @ int_str (int MAX_FILE_SIZE) @
                 lit '' bytes.'') s
         else
           (let payload = JObj (file_payload e p s); s1 = tick s
            in if is_group then
                 (case is_safe_group_name (JStr file_to) of
                    Inl x \<Rightarrow> (Inl x, s1)
                  | Inr False \<Rightarrow> send_error e c key (lit ''Invalid group name.'') s1
                  | Inr True \<Rightarrow>
                      (let members = group_members s1 file_to
                       in if members = [] \<or> username \<notin> set members
                          then send_error e c key (lit ''Not a member of that group.'') s1
                          else send_members (send_payload e) username payload members s1))
               else
                 (case is_safe_username (JStr file_to) of
                    Inl x \<Rightarrow> (Inl x, s1)
                  | Inr False \<Rightarrow> send_error e c key (lit ''Invalid recipient username.'') s1
                  | Inr True \<Rightarrow> forward_payload e file_to payload s1)))"

text \<open>The \<open>match payload.get("type")\<close>, after \<open>payload["from"] = username\<close>.\<close>

definition handle_payload ::
  "env \<Rightarrow> pystr \<Rightarrow> conn \<Rightarrow> bytes \<Rightarrow> jobject \<Rightarrow> unit step" where
  "handle_payload e username c key p0 s =
     (let p = dict_set p0 (lit ''from'') (JStr username); t = jget p (lit ''type'')
      in if t = JStr (lit ''create_group'') then handle_create_group e username c key p s
         else if t = JStr (lit ''group_message'') then handle_group_message e username c key p s
         else if t = JStr (lit ''message'') then handle_message e username c key p s
         else if t = JStr (lit ''message_file'') \<or> t = JStr (lit ''group_file'')
         then handle_file e username c key p s
         else (Inr (), s))"

text \<open>The body of the inner \<open>try\<close>.\<close>

definition handle_frame :: "env \<Rightarrow> pystr \<Rightarrow> conn \<Rightarrow> bytes \<Rightarrow> bytes \<Rightarrow> unit step" where
  "handle_frame e username c key data s =
     (case rbind (decrypt_message (e_crypto e) data key) (loads (e_float e)) of
        Inl x \<Rightarrow> (Inl x, s)
      | Inr v \<Rightarrow>
          (case v of
             JObj p \<Rightarrow> handle_payload e username c key p s
           | _ \<Rightarrow> (Inl ValueError, s)))"

text \<open>\<open>except Exception\<close> around it: the exception is printed, the state stays.\<close>

definition process_frame :: "env \<Rightarrow> pystr \<Rightarrow> conn \<Rightarrow> bytes \<Rightarrow> bytes \<Rightarrow> server \<Rightarrow> server" where
  "process_frame e username c key data s = snd (handle_frame e username c key data s)"

section \<open>A connection\<close>

text \<open>
  The frame loop on the bytes the connection will still receive. It ends at the end of the
  stream, at a framing error (\<open>ValueError\<close>, reported by the loop) or with an exception the
  loop does not catch (a truncated header: \<open>struct.error\<close>).
\<close>

datatype loop_end = EndOfStream | FrameError | Uncaught exn

function serve :: "env \<Rightarrow> pystr \<Rightarrow> conn \<Rightarrow> bytes \<Rightarrow> bytes \<Rightarrow> server \<Rightarrow> loop_end \<times> server" where
  "serve e username c key inp s =
     (case read_frame inp of
        (Inl x, r) \<Rightarrow> (if is_ValueError x then (FrameError, s) else (Uncaught x, s))
      | (Inr None, r) \<Rightarrow> (EndOfStream, s)
      | (Inr (Some data), r) \<Rightarrow>
          serve e username c key r (process_frame e username c key data s))"
  by pat_completeness auto
termination
  by (relation "measure (\<lambda>(e, username, c, key, inp, s). length inp)")
    (auto dest: sym [THEN read_frame_shorter])

declare serve.simps [simp del]

text \<open>
  The handshake: 256 bytes of wrapped key, one \<open>recv\<close> for the name, the checks and the
  registration under the lock. \<open>Rejected u\<close> is a return or an exception with the local
  variable \<open>username\<close> equal to \<open>u\<close>.
\<close>

datatype handshake_result = Rejected "pystr option" | Joined pystr bytes bytes

definition handshake :: "env \<Rightarrow> conn \<Rightarrow> segments \<Rightarrow> server \<Rightarrow> handshake_result \<times> server" where
  "handshake e c segs s =
     (case recv_exact_socket segs 256 of
        (Inl x, segs1) \<Rightarrow> (Rejected None, s)
      | (Inr encrypted_aes_key, segs1) \<Rightarrow>
          (case rsa_unwrap (e_crypto e) (e_private e) encrypted_aes_key of
             None \<Rightarrow> (Rejected None, s)
           | Some aes_key \<Rightarrow>
               (let (name_bytes, segs2) = recv 1024 segs1
                in case utf8_decode name_bytes of
                     Inl x \<Rightarrow> (Rejected None, s)
                   | Inr text \<Rightarrow>
                       (let username = str_strip text
                        in if username = [] then (Rejected (Some username), s)
                           else if is_safe_username (JStr username) \<noteq> Inr True then
                             (Rejected (Some username),
                              snd (send_error e c aes_key (lit ''Invalid username.'') s))
                           else if dict_get (clients s) username \<noteq> None then
                             (Rejected (Some username),
                              snd (send_error e c aes_key (lit ''Username already connected.'') s))
                           else
                             (Joined username aes_key (concat segs2),
                              s\<lparr>clients := dict_set (clients s) username (c, aes_key)\<rparr>)))))"

text \<open>After the registration: the list of users to the newcomer, then to everyone.\<close>

definition announce :: "env \<Rightarrow> conn \<Rightarrow> bytes \<Rightarrow> server \<Rightarrow> server" where
  "announce e c key s =
     broadcast_user_list e
       (snd (send_payload e c key (user_list_payload (dict_keys (clients s))) s))"

text \<open>The \<open>finally\<close> block.\<close>

definition cleanup :: "env \<Rightarrow> pystr option \<Rightarrow> conn \<Rightarrow> server \<Rightarrow> server" where
  "cleanup e username c s =
     (let s1 = (case username of
                  None \<Rightarrow> s
                | Some u \<Rightarrow>
                    (case dict_get (clients s) u of
                       Some (c', _) \<Rightarrow>
                         if c' = c then s\<lparr>clients := dict_del (clients s) u\<rparr> else s
                     | None \<Rightarrow> s));
          s2 = broadcast_user_list e s1
      in s2\<lparr>broken := (broken s2)(c := True)\<rparr>)"

definition handle_client :: "env \<Rightarrow> conn \<Rightarrow> segments \<Rightarrow> server \<Rightarrow> server" where
  "handle_client e c segs s =
     (case handshake e c segs s of
        (Rejected u, s1) \<Rightarrow> cleanup e u c s1
      | (Joined u key inp, s1) \<Rightarrow>
          cleanup e (Some u) c (snd (serve e u c key inp (announce e c key s1))))"

end
