(* ===== verification/Routing.thy ===== *)
theory Routing
  imports Server
begin

text \<open>
  What the request handlers of the server deliver. The handlers rely on sending only through
  the contract \<open>transport\<close>: a send leaves the tables alone, and either logs one delivery of
  the payload to the connection or raises and logs nothing. The loops over recipients are
  analysed once from that contract; \<open>send_payload\<close> meets it.
\<close>

section \<open>Deliveries\<close>

definition same_tables :: "server \<Rightarrow> server \<Rightarrow> bool" where
  "same_tables s s' \<longleftrightarrow> clients s' = clients s \<and> groups s' = groups s \<and> broken s' = broken s"

definition deliveries :: "server \<Rightarrow> server \<Rightarrow> delivery list" where
  "deliveries s s' = drop (length (sent s)) (sent s')"

definition target_of :: "delivery \<Rightarrow> conn \<times> bytes" where
  "target_of d = (d_conn d, d_key d)"

text \<open>From \<open>s\<close> to \<open>s'\<close> the payload went to exactly these connections, in this order.\<close>

definition delivered :: "json \<Rightarrow> (conn \<times> bytes) list \<Rightarrow> server \<Rightarrow> server \<Rightarrow> bool" where
  "delivered p ts s s' \<longleftrightarrow>
     same_tables s s' \<and>
     (\<exists>ds. sent s' = sent s @ ds \<and> map target_of ds = ts \<and> list_all (\<lambda>d. d_payload d = p) ds)"

lemma same_tables_refl [simp]: "same_tables s s"
  by (simp add: same_tables_def)

lemma same_tables_trans: "same_tables s s1 \<Longrightarrow> same_tables s1 s2 \<Longrightarrow> same_tables s s2"
  by (simp add: same_tables_def)

lemma delivered_Nil [simp]: "delivered p [] s s"
  by (simp add: delivered_def)

lemma delivered_tables: "delivered p ts s s' \<Longrightarrow> same_tables s s'"
  by (simp add: delivered_def)

lemma delivered_append:
  assumes "delivered p ts s s1" and "delivered p us s1 s2"
  shows "delivered p (ts @ us) s s2"
proof -
  obtain ds where "sent s1 = sent s @ ds" "map target_of ds = ts" "list_all (\<lambda>d. d_payload d = p) ds"
    using assms(1) by (auto simp: delivered_def)
  moreover obtain es where "sent s2 = sent s1 @ es" "map target_of es = us"
    "list_all (\<lambda>d. d_payload d = p) es"
    using assms(2) by (auto simp: delivered_def)
  ultimately show ?thesis
    using assms by (auto simp: delivered_def intro: same_tables_trans)
qed

lemma delivered_deliveries:
  "delivered p ts s s' \<Longrightarrow>
   sent s' = sent s @ deliveries s s' \<and> map target_of (deliveries s s') = ts \<and>
   list_all (\<lambda>d. d_payload d = p) (deliveries s s')"
  by (auto simp: delivered_def deliveries_def)

lemma delivered_in:
  "delivered p ts s s' \<Longrightarrow> d \<in> set (deliveries s s') \<Longrightarrow> d_payload d = p \<and> target_of d \<in> set ts"
  using delivered_deliveries [of p ts s s'] by (auto simp: list_all_iff)

section \<open>The contract of sending\<close>

locale transport =
  fixes send :: send_op
  assumes send_done: "send c k p s = (Inr u, s') \<Longrightarrow> delivered (wrap_payload p) [(c, k)] s s'"
    and send_failed: "send c k p s = (Inl x, s') \<Longrightarrow> delivered (wrap_payload p) [] s s'"
begin

lemma send_tables: "same_tables s (snd (send c k p s))"
proof (cases "send c k p s")
  case (Pair r s')
  then show ?thesis
    by (cases r) (auto dest: send_done send_failed delivered_tables)
qed

lemma send_either:
  obtains ts where "delivered (wrap_payload p) ts s (snd (send c k p s))" "set ts \<subseteq> {(c, k)}"
proof (cases "send c k p s")
  case (Pair r s')
  show ?thesis
  proof (cases r)
    case (Inl x)
    with Pair that [of "[]"] show ?thesis by (auto dest: send_failed)
  next
    case (Inr u)
    with Pair that [of "[(c, k)]"] show ?thesis by (auto dest: send_done)
  qed
qed

text \<open>The best-effort loop: whoever cannot be reached is skipped, in the order of the targets.\<close>

lemma send_each_delivered:
  "\<exists>us. delivered (wrap_payload p) us s (send_each send p ts s) \<and> subseq us ts"
proof (induction ts arbitrary: s)
  case Nil
  show ?case by (auto intro: exI [of _ "[]"])
next
  case (Cons t ts)
  obtain c k where t: "t = (c, k)" by force
  obtain r s1 where r: "send c k p s = (r, s1)" by force
  obtain us where us: "delivered (wrap_payload p) us s1 (send_each send p ts s1)" "subseq us ts"
    using Cons.IH by blast
  show ?case
  proof (cases r)
    case (Inl x)
    then have "delivered (wrap_payload p) ([] @ us) s (send_each send p ts s1)"
      using r us(1) send_failed delivered_append by blast
    then show ?thesis using us(2) r t by auto
  next
    case (Inr u)
    then have "delivered (wrap_payload p) ([(c, k)] @ us) s (send_each send p ts s1)"
      using r us(1) send_done delivered_append by blast
    then show ?thesis using us(2) r t by (auto intro!: exI [of _ "(c, k) # us"])
  qed
qed

end

text \<open>The connections a member loop addresses.\<close>

definition fanout_targets :: "(pystr \<times> (conn \<times> bytes)) list \<Rightarrow> pystr \<Rightarrow> pystr list \<Rightarrow> (conn \<times> bytes) list" where
  "fanout_targets cl username ms =
     List.map_filter (\<lambda>m. if m = username then None else dict_get cl m) ms"

lemma fanout_targets_Cons:
  "fanout_targets cl u (m # ms) =
     (case dict_get cl m of
        Some t \<Rightarrow> if m \<noteq> u then t # fanout_targets cl u ms else fanout_targets cl u ms
      | None \<Rightarrow> fanout_targets cl u ms)"
  by (auto simp: fanout_targets_def List.map_filter_def split: option.splits)

lemma fanout_targets_Nil [simp]: "fanout_targets cl u [] = []"
  by (simp add: fanout_targets_def List.map_filter_def)

lemma in_fanout_targets:
  "t \<in> set (fanout_targets cl u ms) \<longleftrightarrow> (\<exists>m\<in>set ms. m \<noteq> u \<and> dict_get cl m = Some t)"
  by (induction ms) (auto simp: fanout_targets_Cons split: option.splits)

context transport begin

text \<open>
  The member loop serves an initial segment of its targets: all of them when it returns,
  those before the first failing send when it raises.
\<close>

lemma send_members_prefix:
  assumes "send_members send u p ms s = (r, s')"
  shows "\<exists>n. n \<le> length (fanout_targets (clients s) u ms) \<and>
    delivered (wrap_payload p) (take n (fanout_targets (clients s) u ms)) s s' \<and>
    (r = Inr () \<longleftrightarrow> n = length (fanout_targets (clients s) u ms))"
  using assms
proof (induction ms arbitrary: s)
  case Nil
  then show ?case by simp
next
  case (Cons m ms)
  show ?case
  proof (cases "m = u \<or> dict_get (clients s) m = None")
    case True
    then show ?thesis
      using Cons by (auto simp: fanout_targets_Cons split: option.splits)
  next
    case False
    then obtain c k where m: "dict_get (clients s) m = Some (c, k)" "m \<noteq> u" by auto
    let ?T = "fanout_targets (clients s) u ms"
    have T: "fanout_targets (clients s) u (m # ms) = (c, k) # ?T"
      using m by (simp add: fanout_targets_Cons)
    obtain r1 s1 where r1: "send c k p s = (r1, s1)" by force
    show ?thesis
    proof (cases r1)
      case (Inl x)
      then have "r = Inl x" "s' = s1" using Cons.prems m r1 by simp_all
      moreover have "delivered (wrap_payload p) [] s s1"
        using r1 Inl send_failed by simp
      ultimately show ?thesis unfolding T by (intro exI [of _ 0]) simp
    next
      case (Inr v)
      then have rest: "send_members send u p ms s1 = (r, s')" using Cons.prems m r1 by simp
      have d: "delivered (wrap_payload p) [(c, k)] s s1" using r1 Inr send_done by simp
      then have cl: "clients s1 = clients s" by (simp add: delivered_def same_tables_def)
      obtain n where n: "n \<le> length ?T" "delivered (wrap_payload p) (take n ?T) s1 s'"
        "r = Inr () \<longleftrightarrow> n = length ?T"
        using Cons.IH [OF rest] unfolding cl by blast
      show ?thesis
        unfolding T using n delivered_append [OF d n(2)] by (intro exI [of _ "Suc n"]) simp
    qed
  qed
qed

end

lemma send_payload_result:
  "send_payload e c k p s =
     (case encrypt_message (e_crypto e) (e_random e (draws s) 12) (dumps (wrap_payload p)) k of
        Inl x \<Rightarrow> (Inl x, s)
      | Inr enc \<Rightarrow>
          (case frame enc of
             Inl x \<Rightarrow> (Inl x, s\<lparr>draws := Suc (draws s)\<rparr>)
           | Inr f \<Rightarrow>
               if broken s c then (Inl OSError, s\<lparr>draws := Suc (draws s)\<rparr>)
               else (Inr (), s\<lparr>draws := Suc (draws s), sent := sent s @
                 [\<lparr>d_conn = c, d_key = k, d_payload = wrap_payload p, d_bytes = f\<rparr>]\<rparr>)))"
  by (simp add: send_payload_def Let_def split: sum.splits)

interpretation tr: transport "send_payload e" for e
  by unfold_locales
    (auto simp: send_payload_result delivered_def same_tables_def target_of_def
      split: sum.splits if_splits)

section \<open>When a send succeeds\<close>

definition sendable :: "env \<Rightarrow> server \<Rightarrow> conn \<Rightarrow> bytes \<Rightarrow> json \<Rightarrow> bool" where
  "sendable e s c k p \<longleftrightarrow>
     \<not> broken s c \<and> aes_key_ok k \<and>
     (\<forall>i. \<exists>enc f. encrypt_message (e_crypto e) (e_random e i 12) (dumps (wrap_payload p)) k = Inr enc \<and>
        frame enc = Inr f)"

lemma send_payload_sendable:
  "sendable e s c k p \<Longrightarrow> \<exists>u. fst (send_payload e c k p s) = Inr u"
proof -
  assume a: "sendable e s c k p"
  then obtain enc f where
    "encrypt_message (e_crypto e) (e_random e (draws s) 12) (dumps (wrap_payload p)) k = Inr enc"
    "frame enc = Inr f" unfolding sendable_def by blast
  then show ?thesis using a by (simp add: send_payload_result sendable_def)
qed

lemma send_payload_bad_key: "\<not> aes_key_ok k \<Longrightarrow> send_payload e c k p s = (Inl ValueError, s)"
  by (simp add: send_payload_result encrypt_message_def)

lemma send_payload_broken: "broken s c \<Longrightarrow> \<exists>x s'. send_payload e c k p s = (Inl x, s')"
  by (auto simp: send_payload_result split: sum.splits)

lemma same_tables_sendable: "same_tables s0 s \<Longrightarrow> sendable e s0 c k p \<Longrightarrow> sendable e s c k p"
  by (simp add: sendable_def same_tables_def)

section \<open>Error replies and forwards\<close>

lemma wrap_JObj [simp]: "wrap_payload (JObj p) = JObj p"
  by (simp add: wrap_payload_def)

lemma wrap_error [simp]: "wrap_payload (error_payload m) = error_payload m"
  by (simp add: error_payload_def)

lemma wrap_user_list [simp]: "wrap_payload (user_list_payload us) = user_list_payload us"
  by (simp add: user_list_payload_def)

lemma wrap_invite [simp]: "wrap_payload (invite_payload g ms) = invite_payload g ms"
  by (simp add: invite_payload_def)

lemma wrap_created [simp]: "wrap_payload (created_payload g) = created_payload g"
  by (simp add: created_payload_def)

lemma send_error_delivered:
  "\<exists>ts. delivered (error_payload m) ts s (snd (send_error e c k m s)) \<and> set ts \<subseteq> {(c, k)}"
  unfolding send_error_def using tr.send_either [of "error_payload m" s e c k] by auto

lemma forward_delivered:
  "\<exists>ts. delivered (JObj p) ts s (snd (forward_payload e v (JObj p) s)) \<and>
     set ts \<subseteq> set_option (dict_get (clients s) v) \<and>
     (fst (forward_payload e v (JObj p) s) = Inr () \<longrightarrow>
        ts = (case dict_get (clients s) v of None \<Rightarrow> [] | Some t \<Rightarrow> [t]))"
proof (cases "dict_get (clients s) v")
  case None
  then show ?thesis by (auto simp: forward_payload_def)
next
  case (Some t)
  obtain c k where t: "t = (c, k)" by force
  obtain r s' where r: "send_payload e c k (JObj p) s = (r, s')" by force
  show ?thesis
  proof (cases r)
    case (Inl x)
    then show ?thesis
      using r Some t tr.send_failed [of e c k "JObj p" s x s']
      by (auto simp: forward_payload_def intro!: exI [of _ "[]"])
  next
    case (Inr u)
    then show ?thesis
      using r Some t tr.send_done [of e c k "JObj p" s u s']
      by (auto simp: forward_payload_def intro!: exI [of _ "[(c, k)]"])
  qed
qed

section \<open>What is emitted\<close>

definition emits :: "(delivery \<Rightarrow> bool) \<Rightarrow> server \<Rightarrow> server \<Rightarrow> bool" where
  "emits P s s' \<longleftrightarrow> (\<exists>ds. sent s' = sent s @ ds \<and> list_all P ds)"

lemma emits_refl: "sent s' = sent s \<Longrightarrow> emits P s s'"
  by (simp add: emits_def)

lemma emits_trans: "emits P s s1 \<Longrightarrow> emits P s1 s2 \<Longrightarrow> emits P s s2"
  by (auto simp: emits_def)

lemma emits_mono: "emits P s s' \<Longrightarrow> (\<And>d. P d \<Longrightarrow> Q d) \<Longrightarrow> emits Q s s'"
  by (auto simp: emits_def list_all_iff)

lemma emits_deliveries: "emits P s s' \<longleftrightarrow> prefix (sent s) (sent s') \<and> list_all P (deliveries s s')"
  by (auto simp: emits_def deliveries_def prefix_def)

lemma emits_start: "emits P s s' \<Longrightarrow> sent s0 = sent s \<Longrightarrow> emits P s0 s'"
  by (simp add: emits_def)

lemma delivered_emits:
  assumes "delivered p ts s s'" and "\<And>d. d_payload d = p \<Longrightarrow> target_of d \<in> set ts \<Longrightarrow> P d"
  shows "emits P s s'"
  using delivered_deliveries [OF assms(1)] assms(2)
  unfolding emits_def list_all_iff by (metis imageI list.set_map)

text \<open>
  What a frame of user \<open>u\<close> on connection \<open>c\<close> may make the server write: an answer on that
  same connection, an invitation to a group \<open>u\<close> belongs to, or one of the four forwarded
  kinds with \<open>u\<close> as its sender.
\<close>

definition kind_of :: "json \<Rightarrow> json" where
  "kind_of v = (case v of JObj p \<Rightarrow> jget p (lit ''type'') | _ \<Rightarrow> JNull)"

definition field_of :: "json \<Rightarrow> pystr \<Rightarrow> json" where
  "field_of v k = (case v of JObj p \<Rightarrow> jget p k | _ \<Rightarrow> JNull)"

definition forwarded_kinds :: "json list" where
  "forwarded_kinds =
     [JStr (lit ''message''), JStr (lit ''group_message''), JStr (lit ''message_file''),
      JStr (lit ''group_file'')]"

definition is_reply :: "conn \<Rightarrow> delivery \<Rightarrow> bool" where
  "is_reply c d \<longleftrightarrow>
     d_conn d = c \<and> kind_of (d_payload d) \<in> {JStr (lit ''error''), JStr (lit ''group_created'')}"

definition is_invite :: "pystr \<Rightarrow> delivery \<Rightarrow> bool" where
  "is_invite u d \<longleftrightarrow>
     (\<exists>g ms. d_payload d = invite_payload g ms \<and> u \<in> set ms \<and> name_match 48 g)"

definition is_forward :: "pystr \<Rightarrow> delivery \<Rightarrow> bool" where
  "is_forward u d \<longleftrightarrow>
     kind_of (d_payload d) \<in> set forwarded_kinds \<and> field_of (d_payload d) (lit ''from'') = JStr u"

definition legit :: "pystr \<Rightarrow> conn \<Rightarrow> delivery \<Rightarrow> bool" where
  "legit u c d \<longleftrightarrow> is_reply c d \<or> is_invite u d \<or> is_forward u d"

lemma kind_simps [simp]:
  "kind_of (error_payload m) = JStr (lit ''error'')"
  "kind_of (created_payload g) = JStr (lit ''group_created'')"
  "kind_of (invite_payload g ms) = JStr (lit ''group_invite'')"
  "kind_of (user_list_payload us) = JStr (lit ''user_list'')"
  "kind_of (JObj p) = jget p (lit ''type'')"
  by (simp_all add: kind_of_def error_payload_def created_payload_def invite_payload_def
      user_list_payload_def jget_def dict_get_Cons)

lemma payload_type:
  "error_payload m = JObj q \<Longrightarrow> jget q (lit ''type'') = JStr (lit ''error'')"
  "created_payload g = JObj q \<Longrightarrow> jget q (lit ''type'') = JStr (lit ''group_created'')"
  "invite_payload g ms = JObj q \<Longrightarrow> jget q (lit ''type'') = JStr (lit ''group_invite'')"
  using kind_simps(1) [of m] kind_simps(2) [of g] kind_simps(3) [of g ms] by simp_all

lemma field_of_JObj [simp]: "field_of (JObj p) k = jget p k"
  by (simp add: field_of_def)

lemma emits_error:
  assumes "\<And>d. d_payload d = error_payload m \<Longrightarrow> target_of d = (c, k) \<Longrightarrow> P d"
  shows "emits P s (snd (send_error e c k m s))"
proof -
  obtain ts where "delivered (error_payload m) ts s (snd (send_error e c k m s))"
    "set ts \<subseteq> {(c, k)}" using send_error_delivered by blast
  then show ?thesis by (intro delivered_emits) (auto intro: assms)
qed

lemma emits_send:
  assumes "\<And>d. d_payload d = wrap_payload p \<Longrightarrow> target_of d = (c, k) \<Longrightarrow> P d"
  shows "emits P s (snd (send_payload e c k p s))"
proof -
  obtain ts where "delivered (wrap_payload p) ts s (snd (send_payload e c k p s))"
    "set ts \<subseteq> {(c, k)}"
    by (rule tr.send_either)
  then show ?thesis by (intro delivered_emits) (auto intro: assms)
qed

lemma emits_members:
  assumes "\<And>d m. d_payload d = wrap_payload p \<Longrightarrow> m \<in> set ms \<Longrightarrow> m \<noteq> u \<Longrightarrow>
    dict_get (clients s) m = Some (target_of d) \<Longrightarrow> P d"
  shows "emits P s (snd (send_members (send_payload e) u p ms s))"
proof -
  obtain r s' where r: "send_members (send_payload e) u p ms s = (r, s')" by force
  obtain n where "delivered (wrap_payload p) (take n (fanout_targets (clients s) u ms)) s s'"
    using tr.send_members_prefix [OF r] by blast
  moreover have "P d" if "d_payload d = wrap_payload p"
    "target_of d \<in> set (take n (fanout_targets (clients s) u ms))" for d
    using that(2) [THEN in_set_takeD] assms that(1) by (auto simp: in_fanout_targets)
  ultimately show ?thesis unfolding r by (auto intro: delivered_emits)
qed

lemma emits_forward:
  assumes "\<And>d. d_payload d = JObj p \<Longrightarrow> dict_get (clients s) v = Some (target_of d) \<Longrightarrow> P d"
  shows "emits P s (snd (forward_payload e v (JObj p) s))"
proof -
  obtain ts where "delivered (JObj p) ts s (snd (forward_payload e v (JObj p) s))"
    "set ts \<subseteq> set_option (dict_get (clients s) v)"
    using forward_delivered by blast
  then show ?thesis by (intro delivered_emits) (auto intro!: assms dest: subsetD)
qed

lemma is_forwardI:
  "d_payload d = JObj p \<Longrightarrow> jget p (lit ''from'') = JStr u \<Longrightarrow>
   jget p (lit ''type'') \<in> set forwarded_kinds \<Longrightarrow> is_forward u d"
  by (simp add: is_forward_def)

lemma payload_keeps [simp]:
  "jget (group_message_payload e g p s) (lit ''from'') = jget p (lit ''from'')"
  "jget (group_message_payload e g p s) (lit ''type'') = jget p (lit ''type'')"
  "jget (message_payload e p s) (lit ''from'') = jget p (lit ''from'')"
  "jget (message_payload e p s) (lit ''type'') = jget p (lit ''type'')"
  "jget (file_payload e p s) (lit ''from'') = jget p (lit ''from'')"
  "jget (file_payload e p s) (lit ''type'') = jget p (lit ''type'')"
  by (simp_all add: group_message_payload_def message_payload_def file_payload_def)

lemma sent_tick [simp]: "sent (tick s) = sent s" "clients (tick s) = clients s"
  "groups (tick s) = groups s" "broken (tick s) = broken s"
  by (simp_all add: tick_def)

lemma group_members_tick [simp]: "group_members (tick s) g = group_members s g"
  by (simp add: group_members_def)

end
