(* ===== verification/Requests.thy ===== *)
theory Requests
  imports Routing
begin

text \<open>
  The requests of \<open>handle_client\<close>, one section per kind: what each branch returns, what it
  delivers and what it changes, errors included; then the facts that hold for every request.
\<close>

named_theorems request_defs

declare handle_create_group_def [request_defs] handle_group_message_def [request_defs]
  handle_message_def [request_defs] handle_file_def [request_defs]

section \<open>What no request does\<close>

lemma members_same_tables: "same_tables s (snd (send_members (send_payload e) u p ms s))"
proof -
  obtain r s' where r: "send_members (send_payload e) u p ms s = (r, s')" by force
  then show ?thesis
    using tr.send_members_prefix [OF r] delivered_tables by auto
qed

lemma error_same_tables: "same_tables s (snd (send_error e c k m s))"
  unfolding send_error_def by (rule tr.send_tables)

lemma forward_same_tables: "same_tables s (snd (forward_payload e v p s))"
  by (auto simp: forward_payload_def tr.send_tables split: option.splits)

lemma same_tables_tick: "same_tables (tick s) s' \<Longrightarrow> same_tables s s'"
  by (simp add: same_tables_def)

lemmas same_tables_intros =
  members_same_tables error_same_tables forward_same_tables tr.send_tables same_tables_refl

lemma handle_group_message_tables: "same_tables s (snd (handle_group_message e u c k p s))"
  by (auto simp: request_defs Let_def intro: same_tables_intros same_tables_tick
      split: sum.splits bool.splits)

lemma handle_message_tables: "same_tables s (snd (handle_message e u c k p s))"
  by (auto simp: request_defs Let_def intro: same_tables_intros same_tables_tick
      split: sum.splits bool.splits)

lemma handle_file_tables: "same_tables s (snd (handle_file e u c k p s))"
  by (auto simp: request_defs Let_def intro: same_tables_intros same_tables_tick
      split: sum.splits bool.splits)

text \<open>Group creation: the only request that writes a table, and only a new entry.\<close>

definition adds_group :: "pystr \<Rightarrow> server \<Rightarrow> server \<Rightarrow> bool" where
  "adds_group u s s' \<longleftrightarrow>
     clients s' = clients s \<and> broken s' = broken s \<and>
     (\<exists>g ms. dict_get (groups s) g = None \<and> groups s' = dict_set (groups s) g ms \<and>
        name_match 48 g \<and> u \<in> set ms \<and> sorted ms \<and> distinct ms \<and>
        list_all (\<lambda>m. m = u \<or> name_match 32 m) ms)"

lemma set_sorted_set [simp]: "set (sorted_set xs) = set xs"
  by (simp add: sorted_set_def)

lemma sorted_sorted_set [simp]: "sorted (sorted_set xs)" "distinct (sorted_set xs)"
  by (simp_all add: sorted_set_def)

lemma all_safe_True: "all_safe vs = Inr True \<Longrightarrow> list_all (name_match 32) (map str_of vs)"
proof (induction vs)
  case (Cons v vs)
  then show ?case
    by (auto simp: str_of_def dest: is_safe_username_True split: sum.splits if_splits)
qed simp

lemma members_ok_True:
  "members_ok v = Inr True \<Longrightarrow> list_all (name_match 32) (member_names v)"
  by (cases v) (auto simp: members_ok_def member_names_def dest: all_safe_True)

lemma handle_create_group_tables:
  "same_tables s (snd (handle_create_group e u c k p s)) \<or>
   adds_group u s (snd (handle_create_group e u c k p s))"
proof (cases "is_safe_group_name (jget p (lit ''group_name'')) = Inr True \<and>
    members_ok (jget_or p (lit ''members'') (JList [])) = Inr True \<and>
    dict_get (groups s) (str_of (jget p (lit ''group_name''))) = None")
  case False
  then show ?thesis
    by (auto simp: handle_create_group_def Let_def intro: same_tables_intros
        split: sum.splits bool.splits)
next
  case True
  let ?g = "str_of (jget p (lit ''group_name''))"
  let ?ms = "sorted_set (member_names (jget_or p (lit ''members'') (JList [])) @ [u])"
  let ?s1 = "s\<lparr>groups := dict_set (groups s) ?g ?ms\<rparr>"
  obtain r s2 where r: "send_members (send_payload e) u (invite_payload ?g ?ms) ?ms ?s1 = (r, s2)"
    by force
  have t2: "same_tables ?s1 s2"
    using members_same_tables [of ?s1 e u "invite_payload ?g ?ms" ?ms] by (simp add: r)
  have h: "handle_create_group e u c k p s =
      (case r of Inl x \<Rightarrow> (Inl x, s2) | Inr _ \<Rightarrow> send_payload e c k (created_payload ?g) s2)"
    using True by (simp add: handle_create_group_def r)
  have "same_tables ?s1 (snd (handle_create_group e u c k p s))"
    using t2 tr.send_tables same_tables_trans unfolding h by (auto split: sum.splits)
  moreover have "name_match 48 ?g"
    using True is_safe_group_name_True by (fastforce simp: str_of_def)
  moreover have "list_all (\<lambda>m. m = u \<or> name_match 32 m) ?ms"
    using True members_ok_True by (auto simp: list_all_iff)
  ultimately show ?thesis
    using True unfolding adds_group_def same_tables_def
    by (intro disjI2) (auto intro!: exI [of _ ?g] exI [of _ ?ms])
qed

lemma handle_payload_tables:
  "same_tables s (snd (handle_payload e u c k p s)) \<or>
   adds_group u s (snd (handle_payload e u c k p s))"
  using handle_create_group_tables handle_group_message_tables handle_message_tables
    handle_file_tables
  by (simp add: handle_payload_def Let_def)

lemma process_frame_tables:
  "same_tables s (process_frame e u c k d s) \<or> adds_group u s (process_frame e u c k d s)"
  using handle_payload_tables
  by (auto simp: process_frame_def handle_frame_def split: sum.splits json.splits)

lemma process_frame_clients [simp]: "clients (process_frame e u c k d s) = clients s"
  using process_frame_tables [of s e u c k d] by (auto simp: same_tables_def adds_group_def)

lemma process_frame_broken [simp]: "broken (process_frame e u c k d s) = broken s"
  using process_frame_tables [of s e u c k d] by (auto simp: same_tables_def adds_group_def)

section \<open>What every request emits\<close>

text \<open>
  Everything a request can make the server write, with the conditions under which it does:
  \<open>p\<close> is the payload after \<open>payload["from"] = username\<close>, \<open>s\<close> the state in which the
  request is treated, \<open>d\<close> the frame written.
\<close>

definition error_texts :: "pystr list" where
  "error_texts =
     [lit ''Invalid group name.'', lit ''Invalid group members.'', lit ''Group already exists.'',
      lit ''Not a member of that group.'', lit ''Invalid recipient username.'',
      lit ''Message dropped. Exceeds limit of '' @ int_str (int MAX_MESSAGE_SIZE) @ lit ''.'',
      lit ''Blocked dangerous filename.'',
      lit ''Message dropped. Exceeds limit of '' @ int_str (int MAX_FILE_SIZE) @ lit '' bytes.'']"

definition file_accepted :: "env \<Rightarrow> jobject \<Rightarrow> bool" where
  "file_accepted e p \<longleftrightarrow>
     is_safe_transfer_filename (e_printable e) (jget p (lit ''filename'')) \<and>
     check_file_size (jget p (lit ''payload''))"

definition in_group :: "server \<Rightarrow> pystr \<Rightarrow> pystr \<Rightarrow> bool" where
  "in_group s g u \<longleftrightarrow> u \<in> set (group_members s g)"

inductive emission ::
  "env \<Rightarrow> pystr \<Rightarrow> conn \<Rightarrow> bytes \<Rightarrow> jobject \<Rightarrow> server \<Rightarrow> delivery \<Rightarrow> bool"
  for e u c k p s where
  em_error: "d_payload d = error_payload m \<Longrightarrow> m \<in> set error_texts \<Longrightarrow> target_of d = (c, k) \<Longrightarrow>
    emission e u c k p s d"
| em_created: "d_payload d = created_payload g \<Longrightarrow> name_match 48 g \<Longrightarrow> target_of d = (c, k) \<Longrightarrow>
    emission e u c k p s d"
| em_invite: "d_payload d = invite_payload g ms \<Longrightarrow> name_match 48 g \<Longrightarrow> u \<in> set ms \<Longrightarrow>
    list_all (\<lambda>m. m = u \<or> name_match 32 m) ms \<Longrightarrow> m \<in> set ms \<Longrightarrow> m \<noteq> u \<Longrightarrow>
    dict_get (clients s) m = Some (target_of d) \<Longrightarrow> emission e u c k p s d"
| em_message: "jget p (lit ''type'') = JStr (lit ''message'') \<Longrightarrow>
    jget p (lit ''to'') = JStr v \<Longrightarrow> name_match 32 v \<Longrightarrow>
    check_message_size (py_str (e_printable e) (jget_or p (lit ''payload'') (JStr []))) = Inr True \<Longrightarrow>
    d_payload d = JObj (message_payload e p s) \<Longrightarrow> dict_get (clients s) v = Some (target_of d) \<Longrightarrow>
    emission e u c k p s d"
| em_group_message: "jget p (lit ''type'') = JStr (lit ''group_message'') \<Longrightarrow>
    jget p (lit ''to'') = JStr g \<Longrightarrow> name_match 48 g \<Longrightarrow> in_group s g u \<Longrightarrow>
    d_payload d = JObj (group_message_payload e g p s) \<Longrightarrow> in_group s g m \<Longrightarrow> m \<noteq> u \<Longrightarrow>
    dict_get (clients s) m = Some (target_of d) \<Longrightarrow> emission e u c k p s d"
| em_file: "jget p (lit ''type'') \<in> {JStr (lit ''message_file''), JStr (lit ''group_file'')} \<Longrightarrow>
    file_accepted e p \<Longrightarrow> jget p (lit ''to_type'') \<noteq> JStr (lit ''group'') \<Longrightarrow>
    name_match 32 (file_target e p) \<Longrightarrow> d_payload d = JObj (file_payload e p s) \<Longrightarrow>
    dict_get (clients s) (file_target e p) = Some (target_of d) \<Longrightarrow> emission e u c k p s d"
| em_group_file: "jget p (lit ''type'') \<in> {JStr (lit ''message_file''), JStr (lit ''group_file'')} \<Longrightarrow>
    file_accepted e p \<Longrightarrow> jget p (lit ''to_type'') = JStr (lit ''group'') \<Longrightarrow>
    in_group s (file_target e p) u \<Longrightarrow> d_payload d = JObj (file_payload e p s) \<Longrightarrow>
    in_group s (file_target e p) m \<Longrightarrow> m \<noteq> u \<Longrightarrow>
    dict_get (clients s) m = Some (target_of d) \<Longrightarrow> emission e u c k p s d"

lemma emits_tick: "emits P (tick s) s' \<Longrightarrow> emits P s s'"
  by (simp add: emits_def)

lemma emits_same [simp]: "emits P s s"
  by (simp add: emits_refl)

lemma emits_if:
  "(b \<Longrightarrow> emits P s (snd x)) \<Longrightarrow> (\<not> b \<Longrightarrow> emits P s (snd y)) \<Longrightarrow>
   emits P s (snd (if b then x else y))"
  by simp

lemma emits_case_result:
  "(\<And>x. r = Inl x \<Longrightarrow> emits P s (snd (f x))) \<Longrightarrow> (r = Inr True \<Longrightarrow> emits P s (snd t)) \<Longrightarrow>
   (r = Inr False \<Longrightarrow> emits P s (snd g)) \<Longrightarrow>
   emits P s (snd (case r of Inl x \<Rightarrow> f x | Inr b \<Rightarrow> (case b of True \<Rightarrow> t | False \<Rightarrow> g)))"
  by (simp split: sum.splits bool.splits)

lemma emits_raise: "emits P s (snd (Inl x, s))" "emits P s (snd (Inl x, tick s))"
  by (simp_all add: emits_def)

lemmas emits_branches = emits_if emits_case_result emits_raise

lemma emits_error_text:
  assumes "m \<in> set error_texts"
  shows "emits (emission e u c k p s) s (snd (send_error e c k m s))"
    and "emits (emission e u c k p s) s (snd (send_error e c k m (tick s)))"
proof -
  have "emits (emission e u c k p s) s' (snd (send_error e c k m s'))" for s'
    by (rule emits_error) (rule em_error [OF _ assms])
  then show "emits (emission e u c k p s) s (snd (send_error e c k m s))"
    "emits (emission e u c k p s) s (snd (send_error e c k m (tick s)))"
    by (blast intro: emits_tick)+
qed

lemma error_texts_simps [simp]:
  "lit ''Invalid group name.'' \<in> set error_texts" "lit ''Invalid group members.'' \<in> set error_texts"
  "lit ''Group already exists.'' \<in> set error_texts"
  "lit ''Not a member of that group.'' \<in> set error_texts"
  "lit ''Invalid recipient username.'' \<in> set error_texts"
  "lit ''Blocked dangerous filename.'' \<in> set error_texts"
  "lit ''Message dropped. Exceeds limit of '' @ int_str (int MAX_MESSAGE_SIZE) @ lit ''.''
     \<in> set error_texts"
  "lit ''Message dropped. Exceeds limit of '' @ int_str (int MAX_FILE_SIZE) @ lit '' bytes.''
     \<in> set error_texts"
  unfolding error_texts_def by (simp_all only: list.set insert_iff simp_thms)

lemma handle_message_emits:
  assumes "jget p (lit ''type'') = JStr (lit ''message'')"
  shows "emits (emission e u c k p s) s (snd (handle_message e u c k p s))"
  unfolding handle_message_def Let_def
proof (intro emits_branches emits_error_text error_texts_simps)
  assume to: "is_safe_username (jget p (lit ''to'')) = Inr True"
    and size: "check_message_size (py_str (e_printable e) (jget_or p (lit ''payload'') (JStr [])))
      = Inr True"
  obtain v where v: "jget p (lit ''to'') = JStr v" "name_match 32 v"
    using is_safe_username_True [OF to] by blast
  show "emits (emission e u c k p s) s (snd (forward_payload e (str_of (jget p (lit ''to'')))
      (JObj (message_payload e p s)) (tick s)))"
    by (rule emits_tick, rule emits_forward)
      (auto simp: v str_of_def intro: em_message [OF assms v size])
qed

lemma handle_group_message_emits:
  assumes "jget p (lit ''type'') = JStr (lit ''group_message'')"
  shows "emits (emission e u c k p s) s (snd (handle_group_message e u c k p s))"
  unfolding handle_group_message_def Let_def
proof (intro emits_branches emits_error_text error_texts_simps)
  let ?g = "str_of (jget p (lit ''to''))"
  assume to: "is_safe_group_name (jget p (lit ''to'')) = Inr True"
    and member: "\<not> (group_members s ?g = [] \<or> u \<notin> set (group_members s ?g))"
  obtain g where g: "jget p (lit ''to'') = JStr g" "name_match 48 g"
    using is_safe_group_name_True [OF to] by blast
  have u: "in_group s g u" using member by (simp add: g str_of_def in_group_def)
  show "emits (emission e u c k p s) s (snd (send_members (send_payload e) u
      (JObj (group_message_payload e ?g p s)) (group_members s ?g) (tick s)))"
    by (rule emits_tick, rule emits_members)
      (auto simp: g str_of_def in_group_def intro: em_group_message [OF assms g u])
qed

lemma handle_file_emits:
  assumes "jget p (lit ''type'') \<in> {JStr (lit ''message_file''), JStr (lit ''group_file'')}"
  shows "emits (emission e u c k p s) s (snd (handle_file e u c k p s))"
  unfolding handle_file_def Let_def
proof (intro emits_branches emits_error_text error_texts_simps)
  let ?v = "file_target e p"
  assume "\<not> \<not> is_safe_transfer_filename (e_printable e) (jget p (lit ''filename''))"
    and "\<not> \<not> check_file_size (jget p (lit ''payload''))"
  then have ok: "file_accepted e p" by (simp add: file_accepted_def)
  show "emits (emission e u c k p s) s (snd (forward_payload e ?v (JObj (file_payload e p s)) (tick s)))"
    if "jget p (lit ''to_type'') \<noteq> JStr (lit ''group'')" "is_safe_username (JStr ?v) = Inr True"
    by (rule emits_tick, rule emits_forward)
      (use that in \<open>auto intro: em_file [OF assms ok]\<close>)
  show "emits (emission e u c k p s) s (snd (send_members (send_payload e) u
      (JObj (file_payload e p s)) (group_members (tick s) ?v) (tick s)))"
    if "jget p (lit ''to_type'') = JStr (lit ''group'')"
      "\<not> (group_members (tick s) ?v = [] \<or> u \<notin> set (group_members (tick s) ?v))"
    by (rule emits_tick, rule emits_members)
      (use that in \<open>auto simp: in_group_def intro: em_group_file [OF assms ok]\<close>)
qed

lemma handle_create_group_emits: "emits (emission e u c k p s) s (snd (handle_create_group e u c k p s))"
  unfolding handle_create_group_def Let_def
proof (intro emits_branches emits_error_text error_texts_simps)
  let ?g = "str_of (jget p (lit ''group_name''))"
  let ?ms = "sorted_set (member_names (jget_or p (lit ''members'') (JList [])) @ [u])"
  let ?s1 = "s\<lparr>groups := dict_set (groups s) ?g ?ms\<rparr>"
  assume a: "is_safe_group_name (jget p (lit ''group_name'')) = Inr True"
    "members_ok (jget_or p (lit ''members'') (JList [])) = Inr True"
  have g: "name_match 48 ?g" using is_safe_group_name_True [OF a(1)] by (auto simp: str_of_def)
  have ms: "u \<in> set ?ms" "list_all (\<lambda>m. m = u \<or> name_match 32 m) ?ms"
    using members_ok_True [OF a(2)] by (auto simp: list_all_iff)
  obtain r s2 where r: "send_members (send_payload e) u (invite_payload ?g ?ms) ?ms ?s1 = (r, s2)"
    by force
  have "emits (emission e u c k p s) ?s1
      (snd (send_members (send_payload e) u (invite_payload ?g ?ms) ?ms ?s1))"
    by (rule emits_members) (auto intro!: em_invite [OF _ g ms])
  then have e2: "emits (emission e u c k p s) s s2" unfolding r by (auto intro: emits_start)
  have "emits (emission e u c k p s) s2 (snd (send_payload e c k (created_payload ?g) s2))"
    by (rule emits_send) (auto intro: em_created [OF _ g])
  then show "emits (emission e u c k p s) s (snd (case send_members (send_payload e) u
      (invite_payload ?g ?ms) ?ms ?s1 of (Inl x, s2) \<Rightarrow> (Inl x, s2)
      | (Inr uu, s2) \<Rightarrow> send_payload e c k (created_payload ?g) s2))"
    using e2 emits_trans [OF e2] unfolding r by (simp split: sum.splits)
qed

lemma handle_payload_emits:
  "emits (emission e u c k (dict_set p (lit ''from'') (JStr u)) s) s
     (snd (handle_payload e u c k p s))"
  using handle_message_emits handle_group_message_emits handle_file_emits handle_create_group_emits
  by (simp add: handle_payload_def Let_def)

text \<open>The payload a frame carries, when it carries one.\<close>

definition frame_payload :: "env \<Rightarrow> bytes \<Rightarrow> bytes \<Rightarrow> jobject option" where
  "frame_payload e k d =
     (case rbind (decrypt_message (e_crypto e) d k) (loads (e_float e)) of
        Inr (JObj p) \<Rightarrow> Some p
      | _ \<Rightarrow> None)"

lemma process_frame_payload:
  "process_frame e u c k d s =
     (case frame_payload e k d of
        None \<Rightarrow> s
      | Some p \<Rightarrow> snd (handle_payload e u c k p s))"
  by (auto simp: process_frame_def handle_frame_def frame_payload_def split: sum.splits json.splits)

lemma process_frame_emission:
  "emits (\<lambda>x. \<exists>p. frame_payload e k d = Some p \<and>
      emission e u c k (dict_set p (lit ''from'') (JStr u)) s x)
     s (process_frame e u c k d s)"
proof (cases "frame_payload e k d")
  case (Some p)
  then show ?thesis
    unfolding process_frame_payload by (auto intro: emits_mono [OF handle_payload_emits])
qed (simp add: process_frame_payload)

text \<open>Every frame written is one of three kinds: an answer, an invitation, a forward in the sender's name.\<close>

lemma emission_legit:
  "emission e u c k p s d \<Longrightarrow> jget p (lit ''from'') = JStr u \<Longrightarrow> legit u c d"
proof (induction rule: emission.induct)
  case (em_invite d g ms m)
  then show ?case by (auto simp: legit_def is_invite_def)
qed (auto simp: legit_def is_reply_def is_forward_def target_of_def forwarded_kinds_def)

lemma process_frame_emits: "emits (legit u c) s (process_frame e u c k d s)"
  using process_frame_emission by (rule emits_mono) (auto intro: emission_legit)

text \<open>A frame goes either back to its author, or to a registered connection under its own key.\<close>

lemma emission_target:
  "emission e u c k p s d \<Longrightarrow> target_of d = (c, k) \<or> (\<exists>v. dict_get (clients s) v = Some (target_of d))"
  by (induction rule: emission.induct) auto

end
