(* ===== verification/JsonRoundtrip.thy ===== *)
theory JsonRoundtrip
  imports Json
begin

text \<open>
  \<open>json.loads\<close> reads back what \<open>json.dumps\<close> wrote. The values this holds for
  (\<open>json_wf\<close>) are those without a high surrogate directly followed by a low one inside a
  string (the decoder joins such a pair), with integers \<open>int()\<close> accepts, floats in the
  interpreter's own notation, and objects with distinct keys.
\<close>

fun pair_free :: "pystr \<Rightarrow> bool" where
  "pair_free (c # d # s) = (\<not> (is_high c \<and> is_low d) \<and> pair_free (d # s))"
| "pair_free [c] = True"
| "pair_free [] = True"

definition str_wf :: "pystr \<Rightarrow> bool" where
  "str_wf s \<longleftrightarrow> pair_free s \<and> list_all (\<lambda>c. c \<le> 0x10FFFF) s"

definition float_wf :: "(pystr \<Rightarrow> pyfloat) \<Rightarrow> pyfloat \<Rightarrow> bool" where
  "float_wf fl f =
     (case f of
        FFin r \<Rightarrow>
          parse_number fl r = Some (JFloat f, []) \<and> take 9 r \<noteq> lit ''-Infinity'' \<and>
          list_all (\<lambda>c. c < 0x80) r \<and> (is_digit (hd r) \<or> hd r = 45)
      | _ \<Rightarrow> True)"

fun json_wf :: "(pystr \<Rightarrow> pyfloat) \<Rightarrow> json \<Rightarrow> bool"
  and json_wf_elems :: "(pystr \<Rightarrow> pyfloat) \<Rightarrow> json list \<Rightarrow> bool"
  and json_wf_members :: "(pystr \<Rightarrow> pyfloat) \<Rightarrow> jobject \<Rightarrow> bool" where
  "json_wf fl JNull = True"
| "json_wf fl (JBool b) = True"
| "json_wf fl (JInt i) = (length (dec_nat (nat \<bar>i\<bar>)) \<le> max_int_digits)"
| "json_wf fl (JFloat f) = float_wf fl f"
| "json_wf fl (JStr s) = str_wf s"
| "json_wf fl (JList vs) = json_wf_elems fl vs"
| "json_wf fl (JObj ps) = (dict_ok ps \<and> json_wf_members fl ps)"
| "json_wf_elems fl [] = True"
| "json_wf_elems fl (v # vs) = (json_wf fl v \<and> json_wf_elems fl vs)"
| "json_wf_members fl [] = True"
| "json_wf_members fl ((k, v) # ps) = (str_wf k \<and> json_wf fl v \<and> json_wf_members fl ps)"

section \<open>Strings\<close>

lemma hex_value_digit: "d < 16 \<Longrightarrow> hex_value (hex_digit d) = Some d"
  by (auto simp: hex_value_def hex_digit_def)

lemma hex_digits4:
  "c div 0x1000 * 0x1000 + c div 0x100 mod 0x10 * 0x100 + c div 0x10 mod 0x10 * 0x10
     + c mod 0x10 = (c::nat)"
proof -
  have e: "c div 0x100 = c div 0x10 div 0x10" "c div 0x1000 = c div 0x10 div 0x10 div 0x10"
    by (simp_all add: div_mult2_eq [symmetric])
  have "c = c div 0x10 * 0x10 + c mod 0x10"
    "c div 0x10 = c div 0x100 * 0x10 + c div 0x10 mod 0x10"
    "c div 0x100 = c div 0x1000 * 0x10 + c div 0x100 mod 0x10"
    unfolding e by simp_all
  then show ?thesis by linarith
qed

lemma scan_hex4_text:
  assumes "c < 0x10000"
  shows "scan_hex4 (hex4_text c @ r) = Some (c, r)"
proof -
  have "c div 0x1000 < 0x10" using assms by linarith
  then show ?thesis
    using hex_digits4 [of c] by (simp add: scan_hex4_def hex4_text_def hex_value_digit)
qed

text \<open>What may follow an escaped high surrogate without being joined to it.\<close>

definition no_low_follows :: "pystr \<Rightarrow> bool" where
  "no_low_follows r =
     (case r of
        a # b # r2 \<Rightarrow>
          a = 92 \<and> b = 117 \<longrightarrow>
          (case scan_hex4 r2 of None \<Rightarrow> False | Some (d, r3) \<Rightarrow> \<not> is_low d)
      | _ \<Rightarrow> True)"

lemma scan_unicode_single:
  assumes "c < 0x10000" and "is_high c \<Longrightarrow> no_low_follows r"
  shows "scan_unicode (hex4_text c @ r) = Some (c, r)"
  using assms
  by (auto simp: scan_unicode_def scan_hex4_text no_low_follows_def
      split: list.splits option.splits)

lemma pair_halves:
  assumes "0x10000 \<le> c" "c \<le> 0x10FFFF"
  shows "is_high (0xD800 + (c - 0x10000) div 0x400)" "is_low (0xDC00 + (c - 0x10000) mod 0x400)"
    and "join_pair (0xD800 + (c - 0x10000) div 0x400) (0xDC00 + (c - 0x10000) mod 0x400) = c"
proof -
  have "(c - 0x10000) div 0x400 < 0x400" using assms by linarith
  then show "is_high (0xD800 + (c - 0x10000) div 0x400)" by (simp add: is_high_def)
  have "(c - 0x10000) mod 0x400 < 0x400" by simp
  then have "(c - 0x10000) mod 0x400 \<le> 0x3FF" by linarith
  then show "is_low (0xDC00 + (c - 0x10000) mod 0x400)" by (simp add: is_low_def)
  have "(c - 0x10000) div 0x400 * 0x400 + (c - 0x10000) mod 0x400 = c - 0x10000"
    by (rule div_mult_mod_eq)
  then show "join_pair (0xD800 + (c - 0x10000) div 0x400) (0xDC00 + (c - 0x10000) mod 0x400) = c"
    using assms by (simp add: join_pair_def)
qed

lemma scan_unicode_pair:
  assumes "0x10000 \<le> c" "c \<le> 0x10FFFF"
  shows "scan_unicode (hex4_text (0xD800 + (c - 0x10000) div 0x400) @
      92 # 117 # hex4_text (0xDC00 + (c - 0x10000) mod 0x400) @ r) = Some (c, r)"
proof -
  let ?h = "0xD800 + (c - 0x10000) div 0x400" and ?l = "0xDC00 + (c - 0x10000) mod 0x400"
  note p = pair_halves [OF assms]
  have lt: "?h < 0x10000" "?l < 0x10000" using p(1,2) by (simp_all add: is_high_def is_low_def)
  show ?thesis
    unfolding scan_unicode_def scan_hex4_text [OF lt(1)]
    using p scan_hex4_text [OF lt(2)] by simp
qed

lemma no_low_esc:
  assumes "\<not> is_low d" and "d \<le> 0x10FFFF"
  shows "no_low_follows (esc_char d @ r)"
proof -
  consider "d < 0x10000" | "0x10000 \<le> d" by linarith
  then show ?thesis
  proof cases
    case 1
    then show ?thesis
      using assms scan_hex4_text [OF 1, of r]
      by (auto simp: no_low_follows_def esc_char_def split: list.splits)
  next
    case 2
    have lt: "0xD800 + (d - 0x10000) div 0x400 < 0x10000"
      using pair_halves(1) [OF 2 assms(2)] by (simp add: is_high_def)
    have "\<not> is_low (0xD800 + (d - 0x10000) div 0x400)"
      using pair_halves(1) [OF 2 assms(2)] by (simp add: is_high_def is_low_def)
    then show ?thesis
      using 2 scan_hex4_text [OF lt] by (simp add: no_low_follows_def esc_char_def)
  qed
qed

lemma scan_str_esc:
  assumes "c \<le> 0x10FFFF" and "is_high c \<Longrightarrow> no_low_follows r"
  shows "scan_str (esc_char c @ r) = map_option (\<lambda>(t, r'). (c # t, r')) (scan_str r)"
proof -
  have simple: "scan_str (92 # x # r) = map_option (\<lambda>(t, r'). (c # t, r')) (scan_str r)"
    if "simple_escape x = Some c" for x
    using that by (auto simp: scan_escape_def simple_escape_def split: if_splits)
  consider "c \<in> {34, 92, 10, 13, 9, 8, 12}" | "c \<notin> {34, 92}" "32 \<le> c" "c \<le> 126"
    | "c \<notin> {34, 92, 10, 13, 9, 8, 12}" "c < 32 \<or> 126 < c" "c < 0x10000" | "0x10000 \<le> c"
    by auto linarith
  then show ?thesis
  proof cases
    case 1
    then show ?thesis
      using simple [of 34] simple [of 92] simple [of 110] simple [of 114] simple [of 116]
        simple [of 98] simple [of 102]
      by (auto simp: esc_char_def simple_escape_def)
  next
    case 2
    then show ?thesis by (simp add: esc_char_def)
  next
    case 3
    then have "esc_char c = 92 # 117 # hex4_text c" by (auto simp: esc_char_def)
    then show ?thesis
      using scan_unicode_single [OF 3(3) assms(2)] by (simp add: scan_escape_def)
  next
    case 4
    then show ?thesis
      using scan_unicode_pair [OF 4 assms(1), of r] by (simp add: esc_char_def scan_escape_def)
  qed
qed

lemma scan_str_dumps:
  "str_wf s \<Longrightarrow> scan_str (concat (map esc_char s) @ 34 # rest) = Some (s, rest)"
proof (induction s rule: pair_free.induct)
  case (1 c d s)
  have wf: "str_wf (d # s)" "c \<le> 0x10FFFF" "d \<le> 0x10FFFF" "is_high c \<Longrightarrow> \<not> is_low d"
    using "1.prems" by (auto simp: str_wf_def)
  have "is_high c \<Longrightarrow> no_low_follows (concat (map esc_char (d # s)) @ 34 # rest)"
    using no_low_esc [OF wf(4) wf(3)] by simp
  then show ?case
    using "1.IH" wf(1) scan_str_esc [OF wf(2)] by simp
next
  case (2 c)
  have "no_low_follows (34 # rest)" by (simp add: no_low_follows_def split: list.splits)
  then show ?case
    using 2 scan_str_esc [of c "34 # rest"] by (simp add: str_wf_def)
qed simp

lemma dumps_str_append: "dumps_str s @ rest = 34 # concat (map esc_char s) @ 34 # rest"
  by (simp add: dumps_str_def)

section \<open>Numbers\<close>

text \<open>What may follow a number without being read as a part of it.\<close>

definition num_stop :: "pystr \<Rightarrow> bool" where
  "num_stop r \<longleftrightarrow> r = [] \<or> (\<not> is_digit (hd r) \<and> hd r \<notin> {46, 101, 69, 43, 45})"

lemma while_append_stop:
  assumes "num_stop rest"
  shows "takeWhile is_digit (s @ rest) = takeWhile is_digit s"
    and "dropWhile is_digit (s @ rest) = dropWhile is_digit s @ rest"
proof -
  have "takeWhile is_digit rest = []" "dropWhile is_digit rest = rest"
    using assms by (cases rest; simp add: num_stop_def)+
  then show "takeWhile is_digit (s @ rest) = takeWhile is_digit s"
    "dropWhile is_digit (s @ rest) = dropWhile is_digit s @ rest"
    by (induction s) auto
qed

lemma scan_int_append:
  assumes "scan_int s = Some (ds, r)" and "num_stop rest"
  shows "scan_int (s @ rest) = Some (ds, r @ rest)"
  using assms while_append_stop [OF assms(2), of s]
  by (cases s) (auto simp: scan_int_def split: if_splits)

lemma scan_frac_append:
  assumes "num_stop rest"
  shows "scan_frac (s @ rest) = (fst (scan_frac s), snd (scan_frac s) @ rest)"
proof (cases s)
  case Nil
  then show ?thesis
    using assms by (cases rest) (auto simp: scan_frac_def num_stop_def split: list.splits)
next
  case (Cons p t)
  show ?thesis
  proof (cases t)
    case Nil
    then show ?thesis
      using Cons assms by (cases rest) (auto simp: scan_frac_def num_stop_def split: list.splits)
  next
    case (Cons d u)
    then show ?thesis
      using \<open>s = p # t\<close> while_append_stop [OF assms, of "d # u"] by (auto simp: scan_frac_def)
  qed
qed

lemma scan_exp_append:
  assumes "num_stop rest"
  shows "scan_exp (s @ rest) = (fst (scan_exp s), snd (scan_exp s) @ rest)"
proof (cases s)
  case Nil
  then show ?thesis
    using assms by (cases rest) (auto simp: scan_exp_def num_stop_def split: list.splits)
next
  case (Cons e t)
  note w = while_append_stop [OF assms]
  show ?thesis
  proof (cases t)
    case Nil
    then show ?thesis
      using Cons assms w [of "[]"]
      by (cases rest) (auto simp: scan_exp_def num_stop_def Let_def split: list.splits)
  next
    case (Cons x u)
    then show ?thesis
      using \<open>s = e # t\<close> w [of u] w [of "x # u"]
      by (auto simp: scan_exp_def Let_def split: if_splits)
  qed
qed

lemma parse_number_append:
  assumes "parse_number fl s = Some (v, [])" and "num_stop rest" and "s \<noteq> []"
  shows "parse_number fl (s @ rest) = Some (v, rest)"
proof -
  let ?s = "if hd s = 45 then tl s else s"
  obtain ds r1 where int: "scan_int ?s = Some (ds, r1)"
    using assms(1,3) by (auto simp: parse_number_def Let_def split: option.splits if_splits)
  have hd: "hd (s @ rest) = hd s" "tl (s @ rest) = tl s @ rest" using assms(3) by simp_all
  have "scan_int (if hd s = 45 then tl s @ rest else s @ rest) = Some (ds, r1 @ rest)"
    using scan_int_append [OF int assms(2)] by (simp split: if_splits)
  then show ?thesis
    using assms(1,3) int scan_frac_append [OF assms(2), of r1]
      scan_exp_append [OF assms(2), of "snd (scan_frac r1)"]
    by (auto simp: parse_number_def Let_def hd case_prod_beta split: if_splits)
qed

lemma parse_digits:
  assumes "list_all is_digit ds" and "ds \<noteq> []" and "ds = [48] \<or> hd ds \<noteq> 48"
    and "num_stop rest"
  shows "scan_int (ds @ rest) = Some (ds, rest)"
proof (cases "ds = [48]")
  case False
  then obtain d t where d: "ds = d # t" "d \<noteq> 48" using assms(2,3) by (cases ds) auto
  have "takeWhile is_digit ds = ds" "dropWhile is_digit ds = []"
    using assms(1) by (auto simp: takeWhile_eq_all_conv dropWhile_eq_Nil_conv list_all_iff)
  then show ?thesis
    using while_append_stop [OF assms(4), of ds] assms(1) d by (auto simp: scan_int_def)
qed (simp add: scan_int_def)

lemma num_stop_scans: "num_stop rest \<Longrightarrow> scan_frac rest = ([], rest) \<and> scan_exp rest = ([], rest)"
  using scan_frac_append [of rest "[]"] scan_exp_append [of rest "[]"]
  by (simp add: scan_frac_def scan_exp_def)

lemma dec_nat_shape: "dec_nat n = [48] \<or> hd (dec_nat n) \<noteq> 48"
  using dec_nat_head [of n] by (cases "n = 0") (auto simp: dec_nat.simps [of 0])

lemma parse_number_nat:
  assumes "length (dec_nat n) \<le> max_int_digits" and "num_stop rest"
  shows "parse_number fl (dec_nat n @ rest) = Some (JInt (int n), rest)"
    and "parse_number fl (45 # dec_nat n @ rest) = Some (JInt (- int n), rest)"
proof -
  have scan: "scan_int (dec_nat n @ rest) = Some (dec_nat n, rest)"
    using dec_nat_digits dec_nat_nonempty dec_nat_shape assms(2) by (rule parse_digits)
  have "hd (dec_nat n @ rest) \<noteq> 45"
    using dec_nat_digits [of n] dec_nat_nonempty [of n] by (cases "dec_nat n") (auto simp: is_digit_def)
  then show "parse_number fl (dec_nat n @ rest) = Some (JInt (int n), rest)"
    using scan num_stop_scans [OF assms(2)] assms(1) by (simp add: parse_number_def)
  show "parse_number fl (45 # dec_nat n @ rest) = Some (JInt (- int n), rest)"
    using scan num_stop_scans [OF assms(2)] assms(1) by (simp add: parse_number_def)
qed

lemma parse_number_int:
  assumes "length (dec_nat (nat \<bar>i\<bar>)) \<le> max_int_digits" and "num_stop rest"
  shows "parse_number fl (int_str i @ rest) = Some (JInt i, rest)"
  using parse_number_nat [OF assms] by (cases "i < 0") (simp_all add: int_str_def)

section \<open>Values\<close>

lemma parse_scalar_number:
  assumes "is_digit (hd s) \<or> hd s = 45" and "take 9 s \<noteq> lit ''-Infinity''"
  shows "parse_scalar fl s = parse_number fl s"
  using assms by (auto simp: parse_scalar_def is_digit_def Let_def)

lemma int_str_head: "int_str i \<noteq> [] \<and> (is_digit (hd (int_str i)) \<or> hd (int_str i) = 45)"
  using dec_nat_digits [of "nat i"] dec_nat_nonempty [of "nat i"]
  by (cases "dec_nat (nat i)") (auto simp: int_str_def list_all_iff)

lemma int_str_not_inf: "take 9 (int_str i @ rest) \<noteq> lit ''-Infinity''"
proof -
  obtain d t where d: "dec_nat (nat (- i)) = d # t" "is_digit d"
    using dec_nat_digits [of "nat (- i)"] dec_nat_nonempty [of "nat (- i)"]
    by (cases "dec_nat (nat (- i))") auto
  obtain d' t' where d': "dec_nat (nat i) = d' # t'" "is_digit d'"
    using dec_nat_digits [of "nat i"] dec_nat_nonempty [of "nat i"]
    by (cases "dec_nat (nat i)") auto
  show ?thesis using d d' by (auto simp: int_str_def py_eval is_digit_def numeral_eq_Suc)
qed

text \<open>The first character of an encoded value decides the branch of the decoder.\<close>

lemma parse_value_scalar:
  assumes "s \<noteq> []" and "hd s \<notin> {34, 123, 91}"
  shows "parse_value (Suc n) fl s = parse_scalar fl s"
  using assms by (cases s) auto

lemma keyword_append: "keyword w v (w @ r) = Some (v, r)"
  by (simp add: keyword_def)

definition value_head :: "pystr \<Rightarrow> bool" where
  "value_head s \<longleftrightarrow> s \<noteq> [] \<and> \<not> is_ws (hd s) \<and> hd s \<notin> {93, 125, 44, 0xFEFF}"

lemma value_head_append: "value_head s \<Longrightarrow> value_head (s @ r)"
  by (simp add: value_head_def)

lemma value_head_skip: "value_head s \<Longrightarrow> skip_ws s = s"
  by (cases s) (simp_all add: value_head_def skip_ws_def)

lemma value_head_expect: "value_head s \<Longrightarrow> expect 93 s = None"
  by (cases s) (simp_all add: value_head_def expect_def)

lemma dumps_head: "json_wf fl v \<Longrightarrow> value_head (dumps v)"
proof (cases v)
  case (JInt i)
  then show ?thesis
    using int_str_head [of i] by (auto simp: value_head_def is_ws_def is_digit_def)
next
  case (JFloat f)
  assume "json_wf fl v"
  then show ?thesis
    using JFloat
    by (cases f)
      (auto simp: value_head_def is_ws_def is_digit_def float_wf_def float_text_def py_eval
        parse_number_def scan_int_def)
qed (auto simp: value_head_def is_ws_def py_eval dumps_str_def)

lemma parse_value_float:
  assumes "float_wf fl f" and "num_stop rest"
  shows "parse_value (Suc n) fl (float_text f @ rest) = Some (JFloat f, rest)"
proof (cases f)
  case (FFin r)
  have r: "parse_number fl r = Some (JFloat f, [])" "is_digit (hd r) \<or> hd r = 45"
    "take 9 r \<noteq> lit ''-Infinity''"
    using assms(1) FFin by (simp_all add: float_wf_def)
  have ne: "r \<noteq> []" using r(1) by (auto simp: parse_number_def scan_int_def Let_def)
  have inf: "take 9 (r @ rest) \<noteq> lit ''-Infinity''"
  proof (cases "length r < 9")
    case True
    show ?thesis
    proof
      assume t: "take 9 (r @ rest) = lit ''-Infinity''"
      then have t': "r @ take (9 - length r) rest = lit ''-Infinity''" using True by simp
      then have "hd r = 45" using ne by (cases r) (simp_all add: py_eval)
      moreover have "\<forall>c\<in>set (tl r). \<not> is_digit c"
      proof -
        have "set (tl r) \<subseteq> set (tl (lit ''-Infinity''))"
          unfolding t' [symmetric] using ne by (cases r) auto
        then show ?thesis by (auto simp: py_eval is_digit_def)
      qed
      ultimately show False
        using r(1) by (cases "tl r") (auto simp: parse_number_def scan_int_def Let_def is_digit_def split: if_splits)
    qed
  qed (use r(3) in simp)
  have "parse_value (Suc n) fl (r @ rest) = parse_scalar fl (r @ rest)"
    using ne r(2) by (intro parse_value_scalar) (auto simp: is_digit_def)
  then show ?thesis
    using FFin parse_number_append [OF r(1) assms(2) ne] parse_scalar_number [of "r @ rest" fl] r(2) ne inf
    by (simp add: float_text_def)
qed (simp_all add: float_text_def py_eval parse_scalar_def keyword_def)

lemma parse_value_int:
  assumes "length (dec_nat (nat \<bar>i\<bar>)) \<le> max_int_digits" and "num_stop rest"
  shows "parse_value (Suc n) fl (int_str i @ rest) = Some (JInt i, rest)"
proof -
  have h: "int_str i @ rest \<noteq> []" "is_digit (hd (int_str i @ rest)) \<or> hd (int_str i @ rest) = 45"
    using int_str_head [of i] by auto
  then have "parse_value (Suc n) fl (int_str i @ rest) = parse_scalar fl (int_str i @ rest)"
    by (intro parse_value_scalar) (auto simp: is_digit_def)
  then show ?thesis
    using parse_scalar_number [OF h(2) int_str_not_inf] parse_number_int [OF assms] by simp
qed

lemma skip_ws_not: "\<not> is_ws c \<Longrightarrow> skip_ws (c # s) = c # s"
  by (simp add: skip_ws_def)

lemma skip_ws_space: "skip_ws (32 # s) = skip_ws s"
  by (simp add: skip_ws_def is_ws_def)

lemma expect_Cons: "expect c (d # s) = (if d = c then Some s else None)"
  by (simp add: expect_def)

lemmas punct = skip_ws_not skip_ws_space expect_Cons is_ws_def

lemma num_stop_punct: "num_stop (44 # r)" "num_stop (93 # r)" "num_stop (125 # r)" "num_stop []"
  by (simp_all add: num_stop_def is_digit_def)

lemma elems_head: "json_wf_elems fl vs \<Longrightarrow> vs \<noteq> [] \<Longrightarrow> value_head (dumps_elems vs)"
  by (cases vs rule: dumps_elems.cases) (auto intro: value_head_append dumps_head)

lemma members_head: "ps \<noteq> [] \<Longrightarrow> \<exists>t. dumps_members ps = 34 # t"
  by (cases ps rule: dumps_members.cases) (auto simp: dumps_str_def)

lemma parse_dumps:
  "json_wf fl v \<Longrightarrow> num_stop rest \<Longrightarrow> length (dumps v) \<le> n \<Longrightarrow>
   parse_value n fl (dumps v @ rest) = Some (v, rest)"
  "json_wf_elems fl vs \<Longrightarrow> vs \<noteq> [] \<Longrightarrow> length (dumps_elems vs) < n \<Longrightarrow>
   parse_elems n fl (dumps_elems vs @ 93 # rest) = Some (vs, rest)"
  "json_wf_members fl ps \<Longrightarrow> ps \<noteq> [] \<Longrightarrow> length (dumps_members ps) < n \<Longrightarrow>
   parse_members n fl (dumps_members ps @ 125 # rest) = Some (ps, rest)"
proof (induction v and vs and ps arbitrary: n rest and n rest and n rest
    rule: dumps_dumps_elems_dumps_members.induct)
  case 1
  then show ?case
    by (cases n) (simp_all add: py_eval parse_scalar_def keyword_def)
next
  case (2 b)
  then show ?case
    by (cases n; cases b) (simp_all add: py_eval parse_scalar_def keyword_def)
next
  case (3 i)
  then show ?case
    using parse_value_int int_str_head [of i] by (cases n) auto
next
  case (4 f)
  have "float_text f \<noteq> []" using dumps_head [OF "4.prems"(1)] by (simp add: value_head_def)
  then show ?case
    using 4 parse_value_float by (cases n) auto
next
  case (5 s)
  then show ?case
    using scan_str_dumps [of s rest] by (cases n) (auto simp: dumps_str_append dumps_str_def)
next
  case (6 vs)
  then obtain m where m: "n = Suc m" by (cases n) auto
  show ?case
  proof (cases "vs = []")
    case True
    then show ?thesis using m by (simp add: punct)
  next
    case False
    have wf: "json_wf_elems fl vs" using "6.prems"(1) by simp
    note h = value_head_append [OF elems_head [OF wf False], of "93 # rest"]
    have "parse_elems m fl (dumps_elems vs @ 93 # rest) = Some (vs, rest)"
      using "6.prems"(3) m by (intro "6.IH" wf False) simp
    then show ?thesis
      using m value_head_skip [OF h] value_head_expect [OF h] by simp
  qed
next
  case (7 ps)
  then obtain m where m: "n = Suc m" by (cases n) auto
  show ?case
  proof (cases "ps = []")
    case True
    then show ?thesis using m by (simp add: punct dict_of_pairs_def)
  next
    case False
    have wf: "json_wf_members fl ps" "dict_ok ps" using "7.prems"(1) by simp_all
    obtain t where t: "dumps_members ps = 34 # t" using members_head [OF False] by blast
    have "parse_members m fl (dumps_members ps @ 125 # rest) = Some (ps, rest)"
      using "7.prems"(3) m by (intro "7.IH" wf(1) False) simp
    then show ?thesis
      using m dict_of_pairs_distinct [OF wf(2)] by (simp add: t punct)
  qed
next
  case 8
  then show ?case by simp
next
  case (9 v)
  then obtain m where m: "n = Suc m" by (cases n) auto
  have "parse_value m fl (dumps v @ 93 # rest) = Some (v, 93 # rest)"
    using "9.prems" m by (intro "9.IH") (auto simp: num_stop_punct)
  then show ?case using m by (simp add: punct)
next
  case (10 v w vs)
  then obtain m where m: "n = Suc m" by (cases n) auto
  have wf: "json_wf fl v" "json_wf_elems fl (w # vs)" using "10.prems"(1) by simp_all
  let ?r = "dumps_elems (w # vs) @ 93 # rest"
  note h = value_head_append [OF elems_head [OF wf(2)], of "93 # rest", simplified]
  have "parse_value m fl (dumps v @ 44 # 32 # ?r) = Some (v, 44 # 32 # ?r)"
    using "10.prems" m by (intro "10.IH"(1) wf(1)) (auto simp: num_stop_punct)
  moreover have "parse_elems m fl ?r = Some (w # vs, rest)"
    using "10.prems" m by (intro "10.IH"(2) wf(2)) auto
  ultimately show ?case
    using m value_head_skip [OF h] by (simp add: punct)
next
  case 11
  then show ?case by simp
next
  case (12 k v)
  then obtain m where m: "n = Suc m" by (cases n) auto
  have wf: "str_wf k" "json_wf fl v" using "12.prems"(1) by simp_all
  have "parse_value m fl (dumps v @ 125 # rest) = Some (v, 125 # rest)"
    using "12.prems" m by (intro "12.IH" wf(2)) (auto simp: num_stop_punct dumps_str_def)
  then show ?case
    using m scan_str_dumps [OF wf(1)] value_head_skip [OF value_head_append [OF dumps_head [OF wf(2)]]]
    by (simp add: dumps_str_append punct)
next
  case (13 k v q ps)
  then obtain m where m: "n = Suc m" by (cases n) auto
  have wf: "str_wf k" "json_wf fl v" "json_wf_members fl (q # ps)" using "13.prems"(1) by simp_all
  let ?r = "dumps_members (q # ps) @ 125 # rest"
  obtain t where t: "dumps_members (q # ps) = 34 # t" using members_head by blast
  have "parse_value m fl (dumps v @ 44 # 32 # ?r) = Some (v, 44 # 32 # ?r)"
    using "13.prems" m by (intro "13.IH"(1) wf(2)) (auto simp: num_stop_punct dumps_str_def)
  moreover have "parse_members m fl ?r = Some (q # ps, rest)"
    using "13.prems" m by (intro "13.IH"(2) wf(3)) auto
  ultimately show ?case
    using m scan_str_dumps [OF wf(1)] value_head_skip [OF value_head_append [OF dumps_head [OF wf(2)]]]
    by (simp add: dumps_str_append punct t)
qed

lemma loads_dumps:
  assumes "json_wf fl v"
  shows "loads fl (dumps v) = Inr v"
proof -
  note h = dumps_head [OF assms]
  have "parse_value (2 * length (dumps v) + 2) fl (dumps v @ []) = Some (v, [])"
    using assms num_stop_punct(4) by (rule parse_dumps) simp
  then show ?thesis
    using h value_head_skip [OF h] by (simp add: loads_def value_head_def skip_ws_def)
qed

interpretation js: codec "\<lambda>v. Inr (dumps v)" "loads fl" "json_wf fl" for fl
  by unfold_locales (simp add: loads_dumps)

end
