(* ===== verification/JsonParse.thy ===== *)
theory JsonParse
  imports JsonRoundtrip
begin

text \<open>
  What \<open>json.loads\<close> can return: the scanners consume input, the fuel of the value parser is
  enough (more fuel changes nothing), and every value that comes out of a text without lone
  surrogates is one that \<open>json.dumps\<close> writes and \<open>json.loads\<close> reads back.
\<close>

section \<open>Every parser consumes input\<close>

lemma length_skip_ws: "length (skip_ws s) \<le> length s"
  by (simp add: skip_ws_def length_dropWhile_le)

lemma expect_shorter: "expect c s = Some r \<Longrightarrow> length s = Suc (length r)"
  by (auto simp: expect_def split: list.splits if_splits)

lemma scan_int_shorter: "scan_int s = Some (ds, r) \<Longrightarrow> length r < length s"
  by (auto simp: scan_int_def less_Suc_eq_le length_dropWhile_le split: list.splits if_splits)

lemma scan_frac_shorter: "scan_frac s = (f, r) \<Longrightarrow> length r \<le> length s"
  by (auto simp: scan_frac_def le_SucI length_dropWhile_le split: list.splits if_splits)

lemma scan_exp_shorter: "scan_exp s = (x, r) \<Longrightarrow> length r \<le> length s"
  by (auto simp: scan_exp_def Let_def le_SucI length_dropWhile_le split: list.splits if_splits)

lemma keyword_shorter: "keyword w v s = Some (x, r) \<Longrightarrow> w \<noteq> [] \<Longrightarrow> length r < length s"
  by (cases s; cases w) (auto simp: keyword_def split: if_splits)

lemma parse_number_shorter: "parse_number fl s = Some (v, r) \<Longrightarrow> length r < length s"
proof -
  assume a: "parse_number fl s = Some (v, r)"
  define t where "t = (if s \<noteq> [] \<and> hd s = 45 then tl s else s)"
  obtain ds r1 where r1: "scan_int t = Some (ds, r1)"
    using a by (fastforce simp: parse_number_def t_def Let_def split: option.splits)
  obtain fr r2 ex r3 where r2: "scan_frac r1 = (fr, r2)" "scan_exp r2 = (ex, r3)" by force
  have "r = r3" using a r1 r2 by (auto simp: parse_number_def t_def Let_def split: if_splits)
  moreover have "length t \<le> length s" by (simp add: t_def)
  ultimately show ?thesis
    using scan_int_shorter [OF r1] scan_frac_shorter [OF r2(1)] scan_exp_shorter [OF r2(2)]
    by simp
qed

lemma parse_scalar_shorter: "parse_scalar fl s = Some (v, r) \<Longrightarrow> length r < length s"
proof -
  assume a: "parse_scalar fl s = Some (v, r)"
  have "length r < length s" if "take 9 s = lit ''-Infinity''" "r = drop 9 s"
    using that by (cases s) (auto simp: py_eval)
  then show ?thesis
    using a by (auto simp: parse_scalar_def Let_def dest: keyword_shorter parse_number_shorter
        split: if_splits)
qed

lemma parse_shorter:
  "parse_value n fl s = Some (v, r) \<Longrightarrow> length r < length s"
  "parse_elems n fl s = Some (vs, r) \<Longrightarrow> length r < length s"
  "parse_members n fl s = Some (ps, r) \<Longrightarrow> length r < length s"
proof (induction n fl s and n fl s and n fl s arbitrary: v r and vs r and ps r
    rule: parse_value_parse_elems_parse_members.induct)
  case (3 n fl c cs)
  then show ?case
    using length_skip_ws [of cs]
    by (fastforce dest: scan_str_shorter expect_shorter parse_scalar_shorter
        split: if_splits option.splits)
next
  case (5 n fl s)
  from "5.prems" obtain v t where v: "parse_value n fl s = Some (v, t)"
    by (auto split: option.splits)
  have t: "length t < length s" using "5.IH"(1) [OF v] .
  show ?case
  proof (cases "expect 93 (skip_ws t)")
    case None
    then obtain t' where t': "expect 44 (skip_ws t) = Some t'"
      using "5.prems" v by (auto split: option.splits)
    then show ?thesis
      using "5.prems" v None "5.IH"(2) [OF v refl None t'] t expect_shorter [OF t']
        length_skip_ws [of t] length_skip_ws [of t']
      by fastforce
  next
    case (Some t')
    then show ?thesis
      using "5.prems" v t expect_shorter [OF Some] length_skip_ws [of t] by simp
  qed
next
  case (7 n fl s)
  from "7.prems" obtain s1 k s2 s3 v t where s1: "expect 34 s = Some s1"
    and k: "scan_str s1 = Some (k, s2)" and s3: "expect 58 (skip_ws s2) = Some s3"
    and v: "parse_value n fl (skip_ws s3) = Some (v, t)"
    by (auto split: option.splits)
  have t: "length t < length s"
    using "7.IH"(1) [OF s1 k refl s3 v] expect_shorter [OF s1] scan_str_shorter [OF k]
      expect_shorter [OF s3] length_skip_ws [of s2] length_skip_ws [of s3] by linarith
  show ?case
  proof (cases "expect 125 (skip_ws t)")
    case None
    then obtain t' where t': "expect 44 (skip_ws t) = Some t'"
      using "7.prems" s1 k s3 v by (auto split: option.splits)
    then show ?thesis
      using "7.prems" s1 k s3 v None "7.IH"(2) [OF s1 k refl s3 v refl None t'] t
        expect_shorter [OF t'] length_skip_ws [of t] length_skip_ws [of t']
      by fastforce
  next
    case (Some t')
    then show ?thesis
      using "7.prems" s1 k s3 v t expect_shorter [OF Some] length_skip_ws [of t] by simp
  qed
qed simp_all

section \<open>The fuel is enough\<close>

text \<open>
  With at least twice the length of the text (and one more for the inside of a list or an
  object) the result no longer depends on the fuel.
\<close>

lemma parse_enough:
  "2 * length s < n \<Longrightarrow> 2 * length s < m \<Longrightarrow> parse_value n fl s = parse_value m fl s"
  "2 * length s + 1 < n \<Longrightarrow> 2 * length s + 1 < m \<Longrightarrow> parse_elems n fl s = parse_elems m fl s"
  "2 * length s + 1 < n \<Longrightarrow> 2 * length s + 1 < m \<Longrightarrow>
   parse_members n fl s = parse_members m fl s"
proof (induction n fl s and n fl s and n fl s arbitrary: m and m and m
    rule: parse_value_parse_elems_parse_members.induct)
  case (2 n fl)
  then show ?case by (cases m) simp_all
next
  case (3 n fl c cs)
  obtain m' where m: "m = Suc m'" using "3.prems" by (cases m) simp_all
  have l: "2 * length (skip_ws cs) + 1 < n" "2 * length (skip_ws cs) + 1 < m'"
    using "3.prems" m length_skip_ws [of cs] by auto
  have "parse_members n fl (skip_ws cs) = parse_members m' fl (skip_ws cs)"
    if "c = 123" "expect 125 (skip_ws cs) = None"
    using "3.IH"(1) [OF _ that l] that by simp
  moreover have "parse_elems n fl (skip_ws cs) = parse_elems m' fl (skip_ws cs)"
    if "c = 91" "expect 93 (skip_ws cs) = None"
    using "3.IH"(2) [OF _ _ that l] that by simp
  ultimately show ?case
    unfolding m parse_value.simps by (auto simp del: parse_value.simps split: option.split)
next
  case (5 n fl s)
  obtain m' where m: "m = Suc m'" using "5.prems" by (cases m) simp_all
  have v: "parse_value n fl s = parse_value m' fl s"
    using "5.IH"(1) [of m'] "5.prems" m by simp
  show ?case
  proof (cases "parse_value n fl s")
    case (Some vr)
    then obtain v t where vt: "parse_value n fl s = Some (v, t)" by (cases vr) simp
    have "parse_elems n fl (skip_ws t') = parse_elems m' fl (skip_ws t')"
      if "expect 93 (skip_ws t) = None" "expect 44 (skip_ws t) = Some t'" for t'
      using "5.IH"(2) [OF vt refl that, of m'] "5.prems" m parse_shorter(1) [OF vt]
        expect_shorter [OF that(2)] length_skip_ws [of t] length_skip_ws [of t'] by simp
    moreover have "parse_value m' fl s = Some (v, t)" using v vt by simp
    ultimately show ?thesis
      unfolding m using vt by (auto split: option.split)
  qed (use v m in simp)
next
  case (7 n fl s)
  obtain m' where m: "m = Suc m'" using "7.prems" by (cases m) simp_all
  show ?case
  proof (cases "\<exists>s1 k s2 s3. expect 34 s = Some s1 \<and> scan_str s1 = Some (k, s2) \<and>
      expect 58 (skip_ws s2) = Some s3")
    case True
    then obtain s1 k s2 s3 where p: "expect 34 s = Some s1" "scan_str s1 = Some (k, s2)"
      "expect 58 (skip_ws s2) = Some s3" by blast
    have short: "length (skip_ws s3) < length s"
      using expect_shorter [OF p(1)] scan_str_shorter [OF p(2)] expect_shorter [OF p(3)]
        length_skip_ws [of s2] length_skip_ws [of s3] by linarith
    have v: "parse_value n fl (skip_ws s3) = parse_value m' fl (skip_ws s3)"
      using "7.IH"(1) [OF p(1,2) refl p(3), of m'] "7.prems" m short by simp
    have "parse_members n fl (skip_ws t') = parse_members m' fl (skip_ws t')"
      if "parse_value n fl (skip_ws s3) = Some (v, t)"
        "expect 125 (skip_ws t) = None" "expect 44 (skip_ws t) = Some t'" for v t t'
      using "7.IH"(2) [OF p(1,2) refl p(3) that(1) refl that(2,3), of m'] "7.prems" m short
        parse_shorter(1) [OF that(1)] expect_shorter [OF that(3)] length_skip_ws [of t]
        length_skip_ws [of t'] by simp
    then show ?thesis
      unfolding m using v [symmetric] p by (auto split: option.split)
  next
    case False
    then show ?thesis unfolding m by (auto split: option.splits)
  qed
qed simp_all

section \<open>What comes out is well-formed\<close>

text \<open>\<open>float()\<close> of a literal is written by \<open>repr\<close> as a literal that denotes it again.\<close>

definition float_ok :: "(pystr \<Rightarrow> pyfloat) \<Rightarrow> bool" where
  "float_ok fl \<longleftrightarrow> (\<forall>s. float_wf fl (fl s))"

definition no_surrogates :: "pystr \<Rightarrow> bool" where
  "no_surrogates s \<longleftrightarrow> list_all scalar_value s"

lemma no_surrogates_simps [simp]:
  "no_surrogates []" "no_surrogates (c # s) \<longleftrightarrow> scalar_value c \<and> no_surrogates s"
  by (simp_all add: no_surrogates_def)

lemma no_surrogates_drop:
  "no_surrogates s \<Longrightarrow> no_surrogates (drop n s)"
  "no_surrogates s \<Longrightarrow> no_surrogates (dropWhile P s)"
  by (auto simp: no_surrogates_def list_all_iff dest: in_set_dropD set_dropWhileD)

lemma scan_hex4_out:
  "scan_hex4 s = Some (c, r) \<Longrightarrow> c < 0x10000 \<and> (no_surrogates s \<longrightarrow> no_surrogates r)"
proof -
  assume a: "scan_hex4 s = Some (c, r)"
  have h: "hex_value a = Some w \<Longrightarrow> w < 16" for a w
    by (auto simp: hex_value_def split: if_splits)
  obtain a b d e where s: "s = a # b # d # e # r"
    using a by (auto simp: scan_hex4_def split: list.splits option.splits)
  then obtain w x y z where "hex_value a = Some w" "hex_value b = Some x" "hex_value d = Some y"
    "hex_value e = Some z" "c = w * 0x1000 + x * 0x100 + y * 0x10 + z"
    using a by (auto simp: scan_hex4_def split: option.splits)
  then have "c < 0x10000"
    using h [of a w] h [of b x] h [of d y] h [of e z] by simp
  then show ?thesis using s by simp
qed

text \<open>A high half that was not joined is not followed by the escape of a low half.\<close>

definition low_ahead :: "pystr \<Rightarrow> bool" where
  "low_ahead r \<longleftrightarrow> (\<exists>t d u. r = 92 # 117 # t \<and> scan_hex4 t = Some (d, u) \<and> is_low d)"

lemma scan_unicode_out:
  assumes "scan_unicode s = Some (c, r)"
  shows "c \<le> 0x10FFFF" and "no_surrogates s \<Longrightarrow> no_surrogates r" and "is_high c \<Longrightarrow> \<not> low_ahead r"
    and "is_low c \<Longrightarrow> \<exists>u. scan_hex4 s = Some (c, u)"
proof -
  obtain c0 r0 where s: "scan_hex4 s = Some (c0, r0)"
    using assms by (auto simp: scan_unicode_def split: option.splits)
  show "c \<le> 0x10FFFF" "no_surrogates s \<Longrightarrow> no_surrogates r"
    using assms s scan_hex4_out [OF s]
    by (auto simp: scan_unicode_def is_high_def is_low_def join_pair_def
        dest!: scan_hex4_out split: list.splits option.splits if_splits)
  show "is_high c \<Longrightarrow> \<not> low_ahead r" "is_low c \<Longrightarrow> \<exists>u. scan_hex4 s = Some (c, u)"
    using assms s
    by (auto simp: scan_unicode_def low_ahead_def is_high_def is_low_def join_pair_def
        split: list.splits option.splits if_splits)
qed

lemma scan_escape_out:
  assumes "scan_escape s = Some (c, r)"
  shows "no_surrogates s \<Longrightarrow> c \<le> 0x10FFFF \<and> no_surrogates r" and "is_high c \<Longrightarrow> \<not> low_ahead r"
    and "is_low c \<Longrightarrow> \<exists>t u. s = 117 # t \<and> scan_hex4 t = Some (c, u)"
  using assms scan_unicode_out
  by (auto simp: scan_escape_def simple_escape_def scalar_value_def is_high_def is_low_def
      split: list.splits if_splits)

lemma pair_free_Cons:
  "pair_free (c # t) \<longleftrightarrow> pair_free t \<and> \<not> (t \<noteq> [] \<and> is_high c \<and> is_low (hd t))"
  by (cases t) auto

lemma str_wf_Cons:
  "str_wf (c # t) \<longleftrightarrow> c \<le> 0x10FFFF \<and> \<not> (t \<noteq> [] \<and> is_high c \<and> is_low (hd t)) \<and> str_wf t"
  by (auto simp: str_wf_def pair_free_Cons)

lemma str_wf_Nil [simp]: "str_wf []"
  by (simp add: str_wf_def)

lemma scan_str_out:
  "scan_str s = Some (t, r) \<Longrightarrow> no_surrogates s \<Longrightarrow>
   str_wf t \<and> no_surrogates r \<and> (t \<noteq> [] \<and> is_low (hd t) \<longrightarrow> low_ahead s)"
proof (induction s arbitrary: t r rule: scan_str.induct)
  case (2 c cs)
  consider "c = 34" | "c = 92" | "c \<noteq> 34" "c \<noteq> 92" "\<not> c < 32"
    using "2.prems" by (auto split: if_splits)
  then show ?case
  proof cases
    case 1
    then show ?thesis using "2.prems" by auto
  next
    case 2
    then obtain e r1 t1 where e: "scan_escape cs = Some (e, r1)" "scan_str r1 = Some (t1, r)"
      "t = e # t1"
      using "2.prems" by (auto split: option.splits)
    have ns: "e \<le> 0x10FFFF" "no_surrogates r1" using scan_escape_out(1) [OF e(1)] "2.prems" by auto
    have ih: "str_wf t1 \<and> no_surrogates r \<and> (t1 \<noteq> [] \<and> is_low (hd t1) \<longrightarrow> low_ahead r1)"
      using "2.IH"(1) [OF _ 2 e(1) refl e(2) ns(2)] 2 by simp
    have "is_low e \<Longrightarrow> low_ahead (c # cs)"
      using scan_escape_out(3) [OF e(1)] 2 by (auto simp: low_ahead_def)
    then show ?thesis
      using ih ns scan_escape_out(2) [OF e(1)] by (auto simp: e(3) str_wf_Cons)
  next
    case 3
    then obtain t1 where t: "scan_str cs = Some (t1, r)" "t = c # t1"
      using "2.prems" by auto
    have "scalar_value c" "no_surrogates cs" using "2.prems" by simp_all
    then show ?thesis
      using "2.IH"(2) [OF 3 t(1)] t(2)
      by (auto simp: str_wf_Cons scalar_value_def is_surrogate_def is_high_def is_low_def)
  qed
qed simp

lemma keyword_out: "keyword w v s = Some (x, r) \<Longrightarrow> x = v \<and> r = drop (length w) s"
  by (auto simp: keyword_def split: if_splits)

lemma scan_int_out:
  assumes "scan_int s = Some (ds, r)" and "no_surrogates s"
  shows "no_surrogates r"
  using assms no_surrogates_drop(2) [of s is_digit]
  by (auto simp: scan_int_def split: list.splits if_splits)

lemma scan_frac_out: "scan_frac s = (x, r) \<Longrightarrow> no_surrogates s \<Longrightarrow> no_surrogates r"
  by (auto simp: scan_frac_def intro: no_surrogates_drop split: list.splits if_splits)

lemma scan_exp_out: "scan_exp s = (x, r) \<Longrightarrow> no_surrogates s \<Longrightarrow> no_surrogates r"
  by (auto simp: scan_exp_def Let_def intro: no_surrogates_drop split: list.splits if_splits)

lemma dec_value_append: "dec_value (xs @ [d]) = 10 * dec_value xs + (d - 48)"
  by (simp add: dec_value_def)

lemma length_dec_nat: "n < 10 ^ k \<Longrightarrow> 0 < k \<Longrightarrow> length (dec_nat n) \<le> k"
proof (induction n arbitrary: k rule: dec_nat.induct)
  case (1 n)
  show ?case
  proof (cases "n < 10")
    case True
    then show ?thesis using "1.prems" by (subst dec_nat.simps) simp
  next
    case False
    then obtain j where k: "k = Suc j" "0 < j"
      using "1.prems" by (cases k; cases "k = 1") auto
    then have "n div 10 < 10 ^ j" using "1.prems" by (simp add: less_mult_imp_div_less mult.commute)
    then show ?thesis
      using "1.IH" [OF False _ k(2)] k False by (subst dec_nat.simps) simp
  qed
qed

lemma dec_value_less: "list_all is_digit ds \<Longrightarrow> dec_value ds < 10 ^ length ds"
proof (induction ds rule: rev_induct)
  case (snoc d ds)
  then have "dec_value ds < 10 ^ length ds" "d - 48 \<le> 9" by (auto simp: is_digit_def)
  then show ?case by (simp add: dec_value_append)
qed (simp add: dec_value_def)

lemma scan_int_digits: "scan_int s = Some (ds, r) \<Longrightarrow> list_all is_digit ds \<and> ds \<noteq> []"
proof -
  have "is_digit 48" by (simp add: is_digit_def)
  moreover assume "scan_int s = Some (ds, r)"
  ultimately show ?thesis
    by (auto simp: scan_int_def list_all_iff dest: set_takeWhileD split: list.splits if_splits)
qed

lemma parse_number_out:
  assumes "parse_number fl s = Some (v, r)" and "float_ok fl" and "no_surrogates s"
  shows "json_wf fl v \<and> no_surrogates r"
proof -
  define t where "t = (if s \<noteq> [] \<and> hd s = 45 then tl s else s)"
  obtain ds r1 where r1: "scan_int t = Some (ds, r1)"
    using assms(1) by (fastforce simp: parse_number_def t_def Let_def split: option.splits)
  obtain fr r2 ex r3 where r2: "scan_frac r1 = (fr, r2)" "scan_exp r2 = (ex, r3)" by force
  have "no_surrogates t" using assms(3) by (cases s) (simp_all add: t_def)
  then have r3: "no_surrogates r3"
    using scan_int_out [OF r1] scan_frac_out [OF r2(1)] scan_exp_out [OF r2(2)] by blast
  have "length (dec_nat (dec_value ds)) \<le> length ds"
    using length_dec_nat [OF dec_value_less] scan_int_digits [OF r1] by auto
  then show ?thesis
    using assms r1 r2 r3
    by (auto simp: parse_number_def t_def Let_def float_ok_def split: if_splits)
qed

lemma parse_scalar_out:
  assumes "parse_scalar fl s = Some (v, r)" and "float_ok fl" and "no_surrogates s"
  shows "json_wf fl v \<and> no_surrogates r"
  using assms parse_number_out [of fl s v r]
  by (auto simp: parse_scalar_def Let_def float_wf_def intro: no_surrogates_drop
      dest!: keyword_out split: if_splits)

lemma json_wf_elems_iff: "json_wf_elems fl vs \<longleftrightarrow> list_all (json_wf fl) vs"
  by (induction vs) auto

lemma json_wf_members_iff:
  "json_wf_members fl ps \<longleftrightarrow> list_all (\<lambda>p. str_wf (fst p) \<and> json_wf fl (snd p)) ps"
  by (induction ps) auto

lemma json_wf_members_set:
  "json_wf_members fl ps \<Longrightarrow> str_wf k \<Longrightarrow> json_wf fl v \<Longrightarrow> json_wf_members fl (dict_set ps k v)"
  by (induction ps) auto

lemma json_wf_set:
  "json_wf fl (JObj ps) \<Longrightarrow> str_wf k \<Longrightarrow> json_wf fl v \<Longrightarrow> json_wf fl (JObj (dict_set ps k v))"
  by (simp add: json_wf_members_set dict_ok_set)

lemma json_wf_of_pairs:
  assumes "json_wf_members fl ps"
  shows "json_wf fl (JObj (dict_of_pairs ps))"
proof -
  have "json_wf_members fl (foldl (\<lambda>m p. dict_set m (fst p) (snd p)) m ps)"
    if "json_wf_members fl m" for m
    using that assms
  proof (induction ps arbitrary: m)
    case (Cons p ps)
    then show ?case by (cases p) (simp add: json_wf_members_set)
  qed simp
  then show ?thesis by (simp add: dict_ok_of_pairs, simp add: dict_of_pairs_def)
qed

lemma expect_out: "expect c s = Some r \<Longrightarrow> no_surrogates s \<Longrightarrow> no_surrogates r"
  by (auto simp: expect_def split: list.splits if_splits)

lemma skip_ws_out: "no_surrogates s \<Longrightarrow> no_surrogates (skip_ws s)"
  by (simp add: skip_ws_def no_surrogates_drop)

lemmas scan_outs = expect_out skip_ws_out

lemma parse_out:
  "parse_value n fl s = Some (v, r) \<Longrightarrow> float_ok fl \<Longrightarrow> no_surrogates s \<Longrightarrow>
   json_wf fl v \<and> no_surrogates r"
  "parse_elems n fl s = Some (vs, r) \<Longrightarrow> float_ok fl \<Longrightarrow> no_surrogates s \<Longrightarrow>
   json_wf_elems fl vs \<and> no_surrogates r"
  "parse_members n fl s = Some (ps, r) \<Longrightarrow> float_ok fl \<Longrightarrow> no_surrogates s \<Longrightarrow>
   json_wf_members fl ps \<and> no_surrogates r"
proof (induction n fl s and n fl s and n fl s arbitrary: v r and vs r and ps r
    rule: parse_value_parse_elems_parse_members.induct)
  case (3 n fl c cs)
  have cs: "no_surrogates cs" "no_surrogates (skip_ws cs)"
    using "3.prems"(3) by (simp_all add: skip_ws_out)
  consider "c = 34" | "c = 123" | "c = 91" | "c \<noteq> 34" "c \<noteq> 123" "c \<noteq> 91" by blast
  then show ?case
  proof cases
    case 1
    then show ?thesis using "3.prems"(1) scan_str_out [of cs] cs by auto
  next
    case 2
    show ?thesis
    proof (cases "expect 125 (skip_ws cs)")
      case None
      then obtain ps where ps: "parse_members n fl (skip_ws cs) = Some (ps, r)"
        "v = JObj (dict_of_pairs ps)" using "3.prems"(1) 2 by auto
      then show ?thesis
        using "3.IH"(1) [OF _ 2 None ps(1) "3.prems"(2) cs(2)] 2 json_wf_of_pairs [of fl ps] by simp
    next
      case (Some r')
      then show ?thesis using "3.prems"(1) 2 expect_out [OF Some cs(2)] by (auto simp: dict_ok_def)
    qed
  next
    case 3
    show ?thesis
    proof (cases "expect 93 (skip_ws cs)")
      case None
      then obtain vs where vs: "parse_elems n fl (skip_ws cs) = Some (vs, r)" "v = JList vs"
        using "3.prems"(1) 3 by auto
      then show ?thesis
        using "3.IH"(2) [OF _ _ 3 None vs(1) "3.prems"(2) cs(2)] 3 by simp
    next
      case (Some r')
      then show ?thesis using "3.prems"(1) 3 expect_out [OF Some cs(2)] by auto
    qed
  next
    case 4
    then show ?thesis
      using "3.prems" parse_scalar_out [of fl "c # cs" v r] by simp
  qed
next
  case (5 n fl s)
  from "5.prems" obtain v t where v: "parse_value n fl s = Some (v, t)"
    by (auto split: option.splits)
  have vt: "json_wf fl v" "no_surrogates (skip_ws t)"
    using "5.IH"(1) [OF v "5.prems"(2,3)] by (simp_all add: skip_ws_out)
  show ?case
  proof (cases "expect 93 (skip_ws t)")
    case None
    then obtain t' ws where t': "expect 44 (skip_ws t) = Some t'"
      and ws: "parse_elems n fl (skip_ws t') = Some (ws, r)" "vs = v # ws"
      using "5.prems"(1) v by (auto split: option.splits)
    have "no_surrogates (skip_ws t')" using expect_out [OF t' vt(2)] by (rule skip_ws_out)
    then show ?thesis
      using "5.IH"(2) [OF v refl None t' ws(1) "5.prems"(2)] vt ws(2) by simp
  next
    case (Some t')
    then show ?thesis using "5.prems"(1) v vt expect_out [OF Some vt(2)] by auto
  qed
next
  case (7 n fl s)
  from "7.prems"(1) obtain s1 k s2 s3 v t where s1: "expect 34 s = Some s1"
    and k: "scan_str s1 = Some (k, s2)" and s3: "expect 58 (skip_ws s2) = Some s3"
    and v: "parse_value n fl (skip_ws s3) = Some (v, t)"
    by (auto split: option.splits)
  have kw: "str_wf k" "no_surrogates s2"
    using scan_str_out [OF k expect_out [OF s1 "7.prems"(3)]] by simp_all
  have "no_surrogates (skip_ws s3)"
    using expect_out [OF s3 skip_ws_out [OF kw(2)]] by (rule skip_ws_out)
  then have vt: "json_wf fl v" "no_surrogates (skip_ws t)"
    using "7.IH"(1) [OF s1 k refl s3 v "7.prems"(2)] by (simp_all add: skip_ws_out)
  show ?case
  proof (cases "expect 125 (skip_ws t)")
    case None
    then obtain t' qs where t': "expect 44 (skip_ws t) = Some t'"
      and qs: "parse_members n fl (skip_ws t') = Some (qs, r)" "ps = (k, v) # qs"
      using "7.prems"(1) s1 k s3 v by (auto split: option.splits)
    have "no_surrogates (skip_ws t')" using expect_out [OF t' vt(2)] by (rule skip_ws_out)
    then show ?thesis
      using "7.IH"(2) [OF s1 k refl s3 v refl None t' qs(1) "7.prems"(2)] vt kw(1) qs(2) by simp
  next
    case (Some t')
    then show ?thesis
      using "7.prems"(1) s1 k s3 v vt kw(1) expect_out [OF Some vt(2)] by auto
  qed
qed simp_all

text \<open>
  So a value that came from the wire, where the text was decoded from UTF-8, survives being
  written and read again.
\<close>

lemma loads_wf:
  assumes "loads fl s = Inr v" and "float_ok fl" and "list_all scalar_value s"
  shows "json_wf fl v"
proof -
  obtain r where r: "parse_value (2 * length s + 2) fl (skip_ws s) = Some (v, r)"
    using assms(1) by (auto simp: loads_def split: if_splits option.splits)
  have "no_surrogates (skip_ws s)"
    using assms(3) by (simp add: no_surrogates_def [symmetric] skip_ws_out)
  then show ?thesis using parse_out(1) [OF r assms(2)] by blast
qed

lemma loads_fuel:
  assumes "2 * length s + 2 \<le> n" and "\<not> (s \<noteq> [] \<and> hd s = 0xFEFF)"
  shows "loads fl s =
    (case parse_value n fl (skip_ws s) of
       None \<Rightarrow> Inl JSONDecodeError
     | Some (v, r) \<Rightarrow> if skip_ws r = [] then Inr v else Inl JSONDecodeError)"
proof -
  have "parse_value (2 * length s + 2) fl (skip_ws s) = parse_value n fl (skip_ws s)"
    using length_skip_ws [of s] assms(1) by (intro parse_enough(1)) auto
  then show ?thesis using assms(2) by (auto simp: loads_def)
qed

end
