(* ===== verification/Wire.thy ===== *)
theory Wire
  imports Requests JsonParse
begin

text \<open>
  From a payload to the bytes on the wire and back: \<open>json.dumps\<close> writes ASCII, the JSON and
  UTF-8 codecs compose, and every frame the server writes is the sealed text of its payload,
  which a receiver with the same key reads back.
\<close>

section \<open>The text of a payload\<close>

lemma hex_digit_ascii: "d < 16 \<Longrightarrow> hex_digit d < 0x80"
  by (simp add: hex_digit_def)

lemma hex4_ascii: "c < 0x10000 \<Longrightarrow> list_all (\<lambda>c. c < 0x80) (hex4_text c)"
proof -
  assume "c < 0x10000"
  then have "c div 0x1000 < 16" by linarith
  then show ?thesis by (simp add: hex4_text_def hex_digit_ascii)
qed

lemma esc_char_ascii: "c \<le> 0x10FFFF \<Longrightarrow> list_all (\<lambda>c. c < 0x80) (esc_char c)"
proof -
  assume c: "c \<le> 0x10FFFF"
  then have "0xD800 + (c - 0x10000) div 0x400 < 0x10000" "0xDC00 + (c - 0x10000) mod 0x400 < 0x10000"
    by linarith+
  then show ?thesis by (auto simp: esc_char_def hex4_ascii)
qed

lemma dumps_str_ascii: "str_wf s \<Longrightarrow> list_all (\<lambda>c. c < 0x80) (dumps_str s)"
proof -
  assume "str_wf s"
  then have "list_all (\<lambda>c. c \<le> 0x10FFFF) s" by (simp add: str_wf_def)
  then have "list_all (\<lambda>c. c < 0x80) (concat (map esc_char s))"
    by (induction s) (auto simp: esc_char_ascii)
  then show ?thesis by (simp add: dumps_str_def)
qed

lemma digits_ascii: "list_all is_digit s \<Longrightarrow> list_all (\<lambda>c. c < 0x80) s"
  by (erule list.pred_mono_strong) (simp add: is_digit_def)

lemma float_text_ascii: "float_wf fl f \<Longrightarrow> list_all (\<lambda>c. c < 0x80) (float_text f)"
  by (cases f) (simp_all add: float_wf_def float_text_def py_eval)

lemma dumps_ascii:
  "json_wf fl v \<Longrightarrow> list_all (\<lambda>c. c < 0x80) (dumps v)"
  "json_wf_elems fl vs \<Longrightarrow> list_all (\<lambda>c. c < 0x80) (dumps_elems vs)"
  "json_wf_members fl ps \<Longrightarrow> list_all (\<lambda>c. c < 0x80) (dumps_members ps)"
proof (induction v and vs and ps rule: dumps_dumps_elems_dumps_members.induct)
  case (3 i)
  then show ?case
    using digits_ascii [OF dec_nat_digits] by (auto simp: int_str_def)
qed (auto simp: py_eval dumps_str_ascii float_text_ascii)

lemma ascii_scalar: "list_all (\<lambda>c. c < 0x80) s \<Longrightarrow> list_all scalar_value s"
  by (erule list.pred_mono_strong) (simp add: scalar_value_def is_surrogate_def)

text \<open>A payload as UTF-8 bytes, and back.\<close>

interpretation jw: codec_pair "\<lambda>v. Inr (dumps v)" "loads fl" "json_wf fl"
  utf8_encode utf8_decode "list_all scalar_value" for fl
  by unfold_locales (auto intro: ascii_scalar dumps_ascii)

lemma str_wf_low: "list_all (\<lambda>c. c < 0xD800) s \<Longrightarrow> str_wf s"
proof -
  assume a: "list_all (\<lambda>c. c < 0xD800) s"
  then have "pair_free s" by (induction s rule: pair_free.induct) (auto simp: is_high_def)
  with a show ?thesis by (auto simp: str_wf_def elim: list.pred_mono_strong)
qed

lemma str_wf_ascii: "list_all (\<lambda>c. c < 0x80) s \<Longrightarrow> str_wf s"
  by (rule str_wf_low, erule list.pred_mono_strong) simp

lemma lit_low: "list_all (\<lambda>c. c < 256) (lit s)"
  by (simp add: lit_def list_all_iff of_char_def)

lemma str_wf_lit [simp]: "str_wf (lit s)"
  using lit_low [of s] by (intro str_wf_low) (auto elim: list.pred_mono_strong)

lemma str_wf_name: "name_match n s \<Longrightarrow> str_wf s"
  by (intro str_wf_ascii name_match_ascii)

section \<open>The payloads of the server\<close>

definition env_ok :: "env \<Rightarrow> bool" where
  "env_ok e \<longleftrightarrow>
     crypto_ok (e_crypto e) \<and> float_ok (e_float e) \<and> (\<forall>i n. length (e_random e i n) = n) \<and>
     (\<forall>i. list_all (\<lambda>c. c < 0x80) (e_clock e i) \<and> length (e_clock e i) \<le> 32)"

definition payload_ok :: "env \<Rightarrow> json \<Rightarrow> bool" where
  "payload_ok e v \<longleftrightarrow> json_wf (e_float e) v"

lemma error_texts_ascii: "m \<in> set error_texts \<Longrightarrow> list_all (\<lambda>c. c < 0x80) m"
proof -
  have i: "list_all (\<lambda>c. c < 0x80) (int_str i)" for i
    using digits_ascii [OF dec_nat_digits] by (auto simp: int_str_def)
  assume "m \<in> set error_texts"
  then show ?thesis
    using i by (auto simp: error_texts_def py_eval)
qed

lemma dict_ok_distinct: "distinct (map fst ps) \<Longrightarrow> dict_ok ps"
  by (simp add: dict_ok_def)

lemma error_payload_ok: "str_wf m \<Longrightarrow> payload_ok e (error_payload m)"
  by (simp add: payload_ok_def error_payload_def dict_ok_def)

lemma created_payload_ok: "name_match 48 g \<Longrightarrow> payload_ok e (created_payload g)"
  by (simp add: payload_ok_def created_payload_def dict_ok_def str_wf_name)

lemma json_wf_names: "list_all (name_match n) us \<Longrightarrow> json_wf_elems fl (map JStr us)"
  by (induction us) (auto intro: str_wf_name)

lemma invite_payload_ok:
  "name_match 48 g \<Longrightarrow> list_all (name_match 32) ms \<Longrightarrow> payload_ok e (invite_payload g ms)"
  by (simp add: payload_ok_def invite_payload_def dict_ok_def str_wf_name json_wf_names)

lemma user_list_payload_ok: "list_all (name_match 32) us \<Longrightarrow> payload_ok e (user_list_payload us)"
  by (simp add: payload_ok_def user_list_payload_def dict_ok_def json_wf_names)

lemma stamp_ok: "env_ok e \<Longrightarrow> json_wf (e_float e) (stamp e s)"
  by (auto simp: env_ok_def stamp_def py_eval intro!: str_wf_ascii)

lemma json_wf_jget: "json_wf fl (JObj p) \<Longrightarrow> json_wf fl (jget p k)"
  by (induction p) (auto simp: jget_def dict_get_Cons dict_ok_def)

lemma forwarded_payload_ok:
  assumes "env_ok e" and "payload_ok e (JObj p)"
  shows "payload_ok e (JObj (message_payload e p s))" and "payload_ok e (JObj (file_payload e p s))"
    and "name_match 48 g \<Longrightarrow> payload_ok e (JObj (group_message_payload e g p s))"
  using assms stamp_ok [OF assms(1), of s] json_wf_jget [of "e_float e" p]
  by (auto simp: payload_ok_def message_payload_def file_payload_def group_message_payload_def
      str_wf_name simp del: json_wf.simps(7) intro!: json_wf_set)

lemma emission_payload_ok:
  assumes "emission e u c k p s d" and "env_ok e" and "payload_ok e (JObj p)" and "name_match 32 u"
  shows "payload_ok e (d_payload d)"
  using assms
proof (induction rule: emission.induct)
  case (em_invite d g ms m)
  have "list_all (name_match 32) ms"
    using em_invite.hyps(4) em_invite.prems(3) by (auto simp: list_all_iff)
  with em_invite show ?case by (simp add: invite_payload_ok)
qed (simp_all add: error_payload_ok error_texts_ascii str_wf_ascii created_payload_ok
    forwarded_payload_ok)

lemma frame_payload_ok:
  assumes "frame_payload e k d = Some p" and "env_ok e" and "name_match 32 u"
  shows "payload_ok e (JObj (dict_set p (lit ''from'') (JStr u)))"
proof -
  obtain plain where t: "decrypt_message (e_crypto e) d k = Inr plain"
    "loads (e_float e) plain = Inr (JObj p)"
    using assms(1) by (auto simp: frame_payload_def rbind_def split: sum.splits json.splits)
  have "list_all scalar_value plain"
    using t(1) utf8_decode_scalar
    by (auto simp: decrypt_message_def Let_def split: if_splits option.splits)
  then have "json_wf (e_float e) (JObj p)"
    using loads_wf [OF t(2)] assms(2) by (auto simp: env_ok_def)
  then show ?thesis
    using assms(3) unfolding payload_ok_def by (intro json_wf_set) (simp_all add: str_wf_name)
qed

lemma process_frame_payload_ok:
  assumes "env_ok e" and "name_match 32 u"
  shows "emits (\<lambda>d. payload_ok e (d_payload d)) s (process_frame e u c k b s)"
  using process_frame_emission
  by (rule emits_mono) (use assms frame_payload_ok emission_payload_ok in blast)

section \<open>Sealed frames\<close>

text \<open>The bytes of a logged frame are its payload, encoded, encrypted under its key and framed.\<close>

definition well_sealed :: "env \<Rightarrow> delivery \<Rightarrow> bool" where
  "well_sealed e d \<longleftrightarrow>
     (\<exists>i enc. encrypt_message (e_crypto e) (e_random e i 12) (dumps (d_payload d)) (d_key d) = Inr enc \<and>
        frame enc = Inr (d_bytes d))"

text \<open>A transport all of whose logged deliveries are good.\<close>

locale good_transport = transport +
  fixes good :: "delivery \<Rightarrow> bool"
  assumes send_good: "emits good s (snd (send c k p s))"
begin

lemma send_each_good: "emits good s (send_each send p ts s)"
proof (induction ts arbitrary: s)
  case (Cons t ts)
  obtain c k where t: "t = (c, k)" by force
  show ?case
    unfolding t send_each.simps by (rule emits_trans [OF send_good Cons.IH])
qed simp

lemma send_members_good: "emits good s (snd (send_members send u p ms s))"
proof (induction ms arbitrary: s)
  case (Cons m ms)
  have "emits good s (snd (case send c k p s of
      (Inl x, s') \<Rightarrow> (Inl x, s') | (Inr _, s') \<Rightarrow> send_members send u p ms s'))" for c k
    using send_good [of s c k p] emits_trans [OF send_good Cons.IH, of s c k p]
    by (cases "send c k p s") (auto split: sum.splits)
  then show ?case
    using Cons.IH by (simp split: option.splits)
qed simp

end

lemma send_payload_well_sealed: "emits (well_sealed e) s (snd (send_payload e c k p s))"
  by (auto simp: send_payload_result emits_def well_sealed_def split: sum.splits)

interpretation gt: good_transport "send_payload e" "well_sealed e" for e
  by unfold_locales (rule send_payload_well_sealed)

lemma forward_well_sealed: "emits (well_sealed e) s (snd (forward_payload e v p s))"
  using send_payload_well_sealed by (auto simp: forward_payload_def split: option.splits)

lemmas sealed_sends = send_payload_well_sealed gt.send_members_good forward_well_sealed

lemmas sealed_intros = sealed_sends sealed_sends [THEN emits_tick] emits_branches

lemma handler_well_sealed:
  "emits (well_sealed e) s (snd (handle_message e u c k p s))"
  "emits (well_sealed e) s (snd (handle_group_message e u c k p s))"
  "emits (well_sealed e) s (snd (handle_file e u c k p s))"
  unfolding request_defs send_error_def Let_def by (intro sealed_intros)+

lemma handle_create_group_well_sealed:
  "emits (well_sealed e) s (snd (handle_create_group e u c k p s))"
  unfolding handle_create_group_def send_error_def Let_def
proof (intro sealed_intros)
  let ?g = "str_of (jget p (lit ''group_name''))"
  let ?ms = "sorted_set (member_names (jget_or p (lit ''members'') (JList [])) @ [u])"
  let ?s1 = "s\<lparr>groups := dict_set (groups s) ?g ?ms\<rparr>"
  obtain r s2 where r: "send_members (send_payload e) u (invite_payload ?g ?ms) ?ms ?s1 = (r, s2)"
    by force
  have "emits (well_sealed e) ?s1 s2"
    using gt.send_members_good [of e ?s1 u "invite_payload ?g ?ms" ?ms] by (simp add: r)
  then have e2: "emits (well_sealed e) s s2" by (rule emits_start) simp
  show "emits (well_sealed e) s (snd (case send_members (send_payload e) u
      (invite_payload ?g ?ms) ?ms ?s1 of (Inl x, s2) \<Rightarrow> (Inl x, s2)
      | (Inr uu, s2) \<Rightarrow> send_payload e c k (created_payload ?g) s2))"
    unfolding r using e2 emits_trans [OF e2 send_payload_well_sealed] by (simp split: sum.splits)
qed

lemma process_frame_well_sealed: "emits (well_sealed e) s (process_frame e u c k b s)"
  using handler_well_sealed handle_create_group_well_sealed
  by (simp add: process_frame_payload handle_payload_def Let_def split: option.splits)

text \<open>What the holder of the key gets from a sealed text.\<close>

lemma seal_open:
  assumes "crypto_ok cr" and "length nonce = 12" and "json_wf fl v"
    and "encrypt_message cr nonce (dumps v) k = Inr enc"
  shows "rbind (decrypt_message cr enc k) (loads fl) = Inr v"
    and "length enc = length (dumps v) + 28"
proof -
  have k: "aes_key_ok k" using assms(4) by (simp add: encrypt_message_def split: if_splits)
  have a: "list_all (\<lambda>c. c < 0x80) (dumps v)" by (rule dumps_ascii(1) [OF assms(3)])
  show "rbind (decrypt_message cr enc k) (loads fl) = Inr v"
    using decrypt_encrypt [OF assms(1) k assms(2) ascii_scalar [OF a]] assms(4)
      loads_dumps [OF assms(3)]
    by auto
  show "length enc = length (dumps v) + 28"
    using length_encrypt_ascii [OF assms(1) k a, of nonce] assms(2,4) by auto
qed

lemma seal_total:
  assumes "crypto_ok cr" and "length nonce = 12" and "json_wf fl v" and "aes_key_ok k"
  obtains enc where "encrypt_message cr nonce (dumps v) k = Inr enc"
  using length_encrypt_ascii [OF assms(1,4) dumps_ascii(1) [OF assms(3)]] by blast

lemma env_okD:
  assumes "env_ok e"
  shows "crypto_ok (e_crypto e)" and "float_ok (e_float e)" and "length (e_random e i n) = n"
    and "list_all (\<lambda>c. c < 0x80) (e_clock e i)" and "length (e_clock e i) \<le> 32"
  using assms by (simp_all add: env_ok_def)

definition readable :: "env \<Rightarrow> delivery \<Rightarrow> bool" where
  "readable e d \<longleftrightarrow>
     (\<exists>body. (\<forall>rest. read_frame (d_bytes d @ rest) = (Inr (Some body), rest)) \<and>
        rbind (decrypt_message (e_crypto e) body (d_key d)) (loads (e_float e)) = Inr (d_payload d))"

lemma sealed_readable:
  assumes "well_sealed e d" and "env_ok e" and "payload_ok e (d_payload d)"
    and "length (dumps (d_payload d)) + 28 \<le> MAX_FRAME_SIZE"
  shows "readable e d"
proof -
  obtain i enc where enc: "frame enc = Inr (d_bytes d)"
    "encrypt_message (e_crypto e) (e_random e i 12) (dumps (d_payload d)) (d_key d) = Inr enc"
    using assms(1) by (auto simp: well_sealed_def)
  note o = seal_open [OF env_okD(1,3) [OF assms(2)] assms(3) [unfolded payload_ok_def] enc(2)]
  have "frame_ok enc" using o(2) assms(4) by (simp add: frame_ok_def)
  then show ?thesis
    using read_frame_frame [OF enc(1)] o(1) unfolding readable_def by blast
qed

text \<open>A payload within the frame limit can be sent to every live connection with a usable key.\<close>

lemma sendable_small:
  assumes "env_ok e" and "payload_ok e (wrap_payload p)" and "\<not> broken s c" and "aes_key_ok k"
    and "length (dumps (wrap_payload p)) + 28 < 2 ^ 32"
  shows "sendable e s c k p"
proof -
  have "\<exists>enc f. encrypt_message (e_crypto e) (e_random e i 12) (dumps (wrap_payload p)) k = Inr enc \<and>
      frame enc = Inr f" for i
  proof -
    note wf = assms(2) [unfolded payload_ok_def]
    note r = env_okD(1,3) [OF assms(1)]
    obtain enc where enc:
      "encrypt_message (e_crypto e) (e_random e i 12) (dumps (wrap_payload p)) k = Inr enc"
      using seal_total [OF r wf assms(4)] by blast
    then have "length enc < 2 ^ 32" using seal_open(2) [OF r wf enc] assms(5) by simp
    then show ?thesis using enc frame_of_ok by blast
  qed
  then show ?thesis using assms(3,4) by (simp add: sendable_def)
qed

section \<open>Sizes\<close>

lemma length_esc_char: "length (esc_char c) \<le> 12"
  by (simp add: esc_char_def hex4_text_def)

lemma length_esc_low: "c < 0x10000 \<Longrightarrow> length (esc_char c) \<le> 6"
  by (simp add: esc_char_def hex4_text_def)

lemma length_concat_le: "(\<And>x. x \<in> set xs \<Longrightarrow> length (f x) \<le> n) \<Longrightarrow> length (concat (map f xs)) \<le> n * length xs"
proof (induction xs)
  case (Cons x xs)
  have "length (f x) \<le> n" "length (concat (map f xs)) \<le> n * length xs"
    using Cons by simp_all
  then show ?case by simp
qed simp

lemma length_dumps_ascii: "list_all (\<lambda>c. c < 0x80) s \<Longrightarrow> length (dumps_str s) \<le> 6 * length s + 2"
proof -
  assume "list_all (\<lambda>c. c < 0x80) s"
  then have "length (concat (map esc_char s)) \<le> 6 * length s"
    by (intro length_concat_le length_esc_low) (auto simp: list_all_iff)
  then show ?thesis by (simp add: dumps_str_def)
qed

text \<open>Text that needs no escape is two quotes longer.\<close>

lemma esc_plain: "32 \<le> c \<Longrightarrow> c \<le> 126 \<Longrightarrow> c \<noteq> 34 \<Longrightarrow> c \<noteq> 92 \<Longrightarrow> esc_char c = [c]"
  by (simp add: esc_char_def)

lemma dumps_plain:
  "list_all (\<lambda>c. 32 \<le> c \<and> c \<le> 126 \<and> c \<noteq> 34 \<and> c \<noteq> 92) s \<Longrightarrow> dumps_str s = 34 # s @ [34]"
proof -
  assume "list_all (\<lambda>c. 32 \<le> c \<and> c \<le> 126 \<and> c \<noteq> 34 \<and> c \<noteq> 92) s"
  then have "concat (map esc_char s) = s" by (induction s) (auto simp: esc_plain)
  then show ?thesis by (simp add: dumps_str_def)
qed

lemma length_dumps_plain:
  "list_all (\<lambda>c. 32 \<le> c \<and> c \<le> 126 \<and> c \<noteq> 34 \<and> c \<noteq> 92) s \<Longrightarrow> length (dumps_str s) = length s + 2"
  by (simp add: dumps_plain)

lemma dumps_name: "name_match n s \<Longrightarrow> dumps_str s = 34 # s @ [34]"
  by (rule dumps_plain) (auto simp: name_match_def is_name_char_def list_all_iff)

lemma length_dumps_name: "name_match n s \<Longrightarrow> length (dumps_str s) = length s + 2"
  by (simp add: dumps_name)

lemma length_dumps_b64: "length (dumps_str (b64encode bs)) = length (b64encode bs) + 2"
  using b64encode_ascii [of bs] by (intro length_dumps_plain) (auto elim!: list.pred_mono_strong)

lemma dict_set_nonempty [simp]: "dict_set ps k v \<noteq> []"
  by (cases ps) auto

lemma length_dumps_members:
  "length (dumps_members (p # ps)) =
   length (dumps_str (fst p)) + length (dumps (snd p)) + 2 +
   (if ps = [] then 0 else length (dumps_members ps) + 2)"
  by (cases p; cases ps) simp_all

lemma length_dumps_set:
  "length (dumps_members (dict_set p k v)) \<le>
   length (dumps_members p) + length (dumps_str k) + length (dumps v) + 4"
proof (induction p)
  case (Cons q ps)
  then show ?case
    by (cases ps) (auto simp: length_dumps_members simp del: dumps_members.simps)
qed simp

end
