(* ===== verification/Connection.thy ===== *)
theory Connection
  imports Wire
begin

text \<open>
  One connection from the handshake to the clean-up: what the handshake accepts and how that
  depends on the segments the bytes arrive in, what the frame loop does with a stream of
  frames, and what is left when the connection ends.
\<close>

section \<open>Effect on the tables\<close>

lemma broadcast_tables: "same_tables s (broadcast_user_list e s)"
proof -
  have "\<exists>us. delivered (wrap_payload (user_list_payload (dict_keys (clients s)))) us s
      (broadcast_user_list e s) \<and> subseq us (map snd (clients s))"
    unfolding broadcast_user_list_def by (rule tr.send_each_delivered)
  then show ?thesis by (auto dest: delivered_tables)
qed

lemma announce_tables: "same_tables s (announce e c k s)"
  unfolding announce_def using tr.send_tables broadcast_tables same_tables_trans by blast

lemma cleanup_tables:
  "groups (cleanup e u c s) = groups s"
  "clients (cleanup e u c s) =
     (case u of
        Some v \<Rightarrow>
          (if map_option fst (dict_get (clients s) v) = Some c then dict_del (clients s) v
           else clients s)
      | None \<Rightarrow> clients s)"
  "broken (cleanup e u c s) = (broken s)(c := True)"
  using broadcast_tables [of _ e]
  by (auto simp: cleanup_def Let_def same_tables_def split: option.splits prod.splits)

lemma handshake_Joined:
  assumes "handshake e c segs s = (Joined u k inp, s1)"
  shows "dict_get (clients s) u = None" and "name_match 32 u"
    and "s1 = s\<lparr>clients := dict_set (clients s) u (c, k)\<rparr>"
  using assms
  by (auto simp: handshake_def Let_def simp del: not_None_eq
      split: prod.splits sum.splits option.splits if_splits)

lemma handshake_Rejected:
  assumes "handshake e c segs s = (Rejected u, s1)"
  shows "same_tables s s1"
  using assms
  by (auto simp: handshake_def Let_def intro: error_same_tables
      split: prod.splits sum.splits option.splits if_splits)

section \<open>What is written outside the requests\<close>

lemma emits_conj: "emits P s s' \<Longrightarrow> emits Q s s' \<Longrightarrow> emits (\<lambda>d. P d \<and> Q d) s s'"
  by (auto simp: emits_def list_all_iff)

definition lists_users :: "env \<Rightarrow> server \<Rightarrow> delivery \<Rightarrow> bool" where
  "lists_users e s d \<longleftrightarrow>
     d_payload d = user_list_payload (dict_keys (clients s)) \<and> well_sealed e d"

lemma broadcast_emits:
  "emits (\<lambda>d. lists_users e s d \<and> (\<exists>v. (v, target_of d) \<in> set (clients s))) s
     (broadcast_user_list e s)"
proof -
  let ?p = "user_list_payload (dict_keys (clients s))"
  obtain us where us: "delivered ?p us s (broadcast_user_list e s)" "subseq us (map snd (clients s))"
    using tr.send_each_delivered [of ?p s e "map snd (clients s)"]
    by (auto simp: broadcast_user_list_def)
  have "set us \<subseteq> snd ` set (clients s)"
    using us(2) by (auto dest: list_emb_set)
  then have "emits (\<lambda>d. d_payload d = ?p \<and> (\<exists>v. (v, target_of d) \<in> set (clients s))) s
      (broadcast_user_list e s)"
    by (intro delivered_emits [OF us(1)]) force
  moreover have "emits (well_sealed e) s (broadcast_user_list e s)"
    unfolding broadcast_user_list_def by (rule gt.send_each_good)
  ultimately show ?thesis
    by (rule emits_mono [OF emits_conj]) (simp add: lists_users_def)
qed

lemma announce_emits:
  "emits (\<lambda>d. lists_users e s d \<and> (target_of d = (c, k) \<or> (\<exists>v. (v, target_of d) \<in> set (clients s)))) s
     (announce e c k s)"
proof -
  let ?p = "user_list_payload (dict_keys (clients s))"
  let ?s = "snd (send_payload e c k ?p s)"
  let ?P = "\<lambda>d. lists_users e s d \<and> (target_of d = (c, k) \<or> (\<exists>v. (v, target_of d) \<in> set (clients s)))"
  have "emits (\<lambda>d. d_payload d = ?p \<and> target_of d = (c, k)) s ?s"
    by (rule emits_send) simp
  then have "emits ?P s ?s"
    by (rule emits_mono [OF emits_conj [OF _ send_payload_well_sealed]]) (simp add: lists_users_def)
  moreover have "clients ?s = clients s" using tr.send_tables [of s e c k ?p] by (simp add: same_tables_def)
  then have "emits ?P ?s (announce e c k s)"
    using broadcast_emits [of e ?s] unfolding announce_def
    by (auto simp: lists_users_def elim: emits_mono)
  ultimately show ?thesis by (rule emits_trans)
qed

lemma cleanup_emits:
  "emits (\<lambda>d. \<exists>s1. clients s1 = clients (cleanup e u c s) \<and> lists_users e s1 d \<and>
      (\<exists>v. (v, target_of d) \<in> set (clients s1))) s (cleanup e u c s)"
proof -
  define s1 where "s1 = (case u of None \<Rightarrow> s | Some u \<Rightarrow>
    (case dict_get (clients s) u of
       Some (c', _) \<Rightarrow> if c' = c then s\<lparr>clients := dict_del (clients s) u\<rparr> else s
     | None \<Rightarrow> s))"
  have cu: "cleanup e u c s = (broadcast_user_list e s1)\<lparr>broken := (broken (broadcast_user_list e s1))(c := True)\<rparr>"
    by (simp add: cleanup_def s1_def Let_def)
  have cl: "clients s1 = clients (cleanup e u c s)"
    using broadcast_tables [of s1 e] by (simp add: cu same_tables_def)
  have "sent s1 = sent s" by (auto simp: s1_def split: option.splits)
  moreover have "emits (\<lambda>d. lists_users e s1 d \<and> (\<exists>v. (v, target_of d) \<in> set (clients s1))) s1
      (broadcast_user_list e s1)"
    by (rule broadcast_emits)
  ultimately have "emits (\<lambda>d. lists_users e s1 d \<and> (\<exists>v. (v, target_of d) \<in> set (clients s1))) s
      (cleanup e u c s)"
    by (simp add: emits_def cu)
  then show ?thesis by (rule emits_mono) (use cl in blast)
qed

lemma reject_emits:
  assumes "handshake e c segs s = (Rejected u, s1)"
  shows "\<exists>k. emits (\<lambda>d. target_of d = (c, k) \<and> payload_ok e (d_payload d) \<and> well_sealed e d) s s1"
proof -
  have err: "emits (\<lambda>d. target_of d = (c, k) \<and> payload_ok e (d_payload d) \<and> well_sealed e d) s
      (snd (send_error e c k (lit m) s))" for k m
  proof -
    have "emits (\<lambda>d. d_payload d = error_payload (lit m) \<and> target_of d = (c, k)) s
        (snd (send_error e c k (lit m) s))"
      by (rule emits_error) simp
    moreover have "emits (well_sealed e) s (snd (send_error e c k (lit m) s))"
      unfolding send_error_def by (rule send_payload_well_sealed)
    ultimately show ?thesis
      by (rule emits_mono [OF emits_conj]) (simp add: error_payload_ok)
  qed
  show ?thesis
    using assms err
    by (auto simp: handshake_def Let_def emits_same
        split: prod.splits sum.splits option.splits if_splits)
qed

section \<open>The handshake\<close>

lemma recv_small: "length x \<le> n \<Longrightarrow> recv n (x # segs) = (x, segs)"
  by (simp add: recv_def)

text \<open>The 256 bytes of the key may come in any number of segments; the name is one segment.\<close>

lemma handshake_key:
  assumes "live ks" and "length (concat ks) = 256"
    and "rsa_unwrap (e_crypto e) (e_private e) (concat ks) = Some k"
    and "utf8_decode (take 1024 x) = Inr name"
  shows "handshake e c (ks @ x # segs) s =
    (let u = str_strip name; rest = snd (recv 1024 (x # segs))
     in if u = [] then (Rejected (Some u), s)
        else if \<not> name_match 32 u then
          (Rejected (Some u), snd (send_error e c k (lit ''Invalid username.'') s))
        else if dict_get (clients s) u \<noteq> None then
          (Rejected (Some u), snd (send_error e c k (lit ''Username already connected.'') s))
        else (Joined u k (concat rest), s\<lparr>clients := dict_set (clients s) u (c, k)\<rparr>))"
proof -
  obtain rest where r: "recv 1024 (x # segs) = (take 1024 x, rest)"
    by (cases "length x \<le> 1024") (auto simp: recv_def)
  show ?thesis
    using assms(3,4) recv_exact_exact [OF assms(1,2), of "x # segs"]
    by (simp add: handshake_def Let_def r)
qed

lemma handshake_joins:
  assumes "live ks" and "length (concat ks) = 256"
    and "rsa_unwrap (e_crypto e) (e_private e) (concat ks) = Some k"
    and "name_match 32 u" and "dict_get (clients s) u = None"
  shows "handshake e c (ks @ map of_nat u # segs) s =
    (Joined u k (concat segs), s\<lparr>clients := dict_set (clients s) u (c, k)\<rparr>)"
proof -
  have u: "u \<noteq> []" "length u \<le> 32" using assms(4) by (auto simp: name_match_def)
  then have "utf8_decode (take 1024 (map of_nat u)) = Inr u"
    using utf8_decode_ascii [OF name_match_ascii [OF assms(4)]] by simp
  from handshake_key [OF assms(1-3) this] show ?thesis
    using u assms(4,5) by (simp add: name_match_strip recv_small)
qed

lemma handshake_taken:
  assumes "live ks" and "length (concat ks) = 256"
    and "rsa_unwrap (e_crypto e) (e_private e) (concat ks) = Some k"
    and "name_match 32 u" and "dict_get (clients s) u \<noteq> None"
  shows "handshake e c (ks @ map of_nat u # segs) s =
    (Rejected (Some u), snd (send_error e c k (lit ''Username already connected.'') s))"
proof -
  have u: "u \<noteq> []" "length u \<le> 32" using assms(4) by (auto simp: name_match_def)
  then have "utf8_decode (take 1024 (map of_nat u)) = Inr u"
    using utf8_decode_ascii [OF name_match_ascii [OF assms(4)]] by simp
  from handshake_key [OF assms(1-3) this] show ?thesis
    using u assms(4,5) by (auto simp: name_match_strip)
qed

text \<open>
  When the name and the first frame arrive in one segment, \<open>recv(1024)\<close> takes both and the
  name is refused: the length prefix of a frame starts with a zero byte.
\<close>

lemma handshake_coalesced:
  assumes "live ks" and "length (concat ks) = 256" and "name_match 32 u"
  shows "\<exists>v. fst (handshake e c (ks @ (map of_nat u @ 0 # f) # segs) s) = Rejected v"
proof -
  let ?x = "map of_nat u @ 0 # f"
  have len: "length u \<le> 32" using assms(3) by (simp add: name_match_def)
  have recv: "fst (recv 1024 (?x # segs)) = map of_nat u @ 0 # take (1024 - length u - 1) f"
    using len by (simp add: recv_def take_Cons')
  have ascii: "list_all (\<lambda>c. c < 0x80) u" by (rule name_match_ascii [OF assms(3)])
  have pre: "concat (map utf8_char (u @ [0])) = map of_nat u @ [0]"
    using ascii by (induction u) (auto simp: utf8_char_def)
  have "list_all scalar_value (u @ [0])"
    using ascii_scalar [OF ascii] by (simp add: scalar_value_def is_surrogate_def)
  from u8.decode_all_append [OF this] pre
  have dec: "decode_all utf8_decode1 (map of_nat u @ 0 # g) =
      map_option (append (u @ [0])) (decode_all utf8_decode1 g)" for g
    by (metis append.assoc append_Cons append_Nil)
  have "0 \<in> set name" if "utf8_decode (fst (recv 1024 (?x # segs))) = Inr name" for name
    using that unfolding recv utf8_decode_def dec by (auto split: option.splits)
  then have "\<not> name_match 32 (str_strip name)"
    if "utf8_decode (fst (recv 1024 (?x # segs))) = Inr name" for name
    using that strip_by_keeps [of 0 name is_space]
    by (fastforce simp: name_match_def list_all_iff str_strip_def is_space_def is_name_char_def)
  then show ?thesis
    using recv_exact_exact [OF assms(1,2), of "?x # segs"]
    by (auto simp: handshake_def Let_def split: prod.splits option.splits sum.splits)
qed

section \<open>The frame loop\<close>

text \<open>Frame after frame: the state is the fold of \<open>process_frame\<close> over the bodies.\<close>

definition process_frames ::
  "env \<Rightarrow> pystr \<Rightarrow> conn \<Rightarrow> bytes \<Rightarrow> bytes list \<Rightarrow> server \<Rightarrow> server" where
  "process_frames e u c k ds s = foldl (\<lambda>s d. process_frame e u c k d s) s ds"

lemma process_frames_simps [simp]:
  "process_frames e u c k [] s = s"
  "process_frames e u c k (d # ds) s = process_frames e u c k ds (process_frame e u c k d s)"
  by (simp_all add: process_frames_def)

lemma process_frames_clients [simp]:
  "clients (process_frames e u c k ds s) = clients s"
  "broken (process_frames e u c k ds s) = broken s"
  by (induction ds arbitrary: s) simp_all

lemma serve_step:
  "read_frame inp = (Inr (Some d), r) \<Longrightarrow>
   serve e u c k inp s = serve e u c k r (process_frame e u c k d s)"
  by (subst serve.simps) simp

lemma serve_stop:
  "read_frame inp = (Inr None, r) \<Longrightarrow> serve e u c k inp s = (EndOfStream, s)"
  "read_frame inp = (Inl x, r) \<Longrightarrow>
   serve e u c k inp s = ((if is_ValueError x then FrameError else Uncaught x), s)"
  by (subst serve.simps, simp)+

lemma serve_frames:
  "list_all frame_ok ds \<Longrightarrow>
   serve e u c k (concat (map frame_bytes ds) @ rest) s =
     serve e u c k rest (process_frames e u c k ds s)"
proof (induction ds arbitrary: s)
  case (Cons d ds)
  then have "read_frame (concat (map frame_bytes (d # ds)) @ rest) =
      (Inr (Some d), concat (map frame_bytes ds) @ rest)"
    using read_frame_frame [OF frame_bytes_frame, of d] by simp
  then show ?case using Cons by (simp add: serve_step)
qed simp

text \<open>How the loop ends, for the bytes that follow the last frame.\<close>

lemma serve_end: "serve e u c k [] s = (EndOfStream, s)"
  by (rule serve_stop) (simp add: read_frame_def)

lemma serve_truncated_header:
  "h \<noteq> [] \<Longrightarrow> length h < 4 \<Longrightarrow> serve e u c k h s = (Uncaught StructError, s)"
proof -
  assume h: "h \<noteq> []" "length h < 4"
  then have "read_frame h = (Inl StructError, [])"
    by (auto simp: read_frame_def unpack_be32_def Let_def split: list.splits)
  then show ?thesis by (simp add: serve_stop is_ValueError_def)
qed

lemma serve_oversize:
  assumes "unpack_be32 h = Inr n" and "MAX_FRAME_SIZE < n"
  shows "serve e u c k (h @ rest) s = (FrameError, s)"
proof -
  have "length h = 4" using assms(1) by (auto simp: unpack_be32_def split: list.splits)
  then have "read_frame (h @ rest) = (Inl ValueError, rest)"
    using assms by (auto simp: read_frame_def Let_def)
  then show ?thesis by (simp add: serve_stop is_ValueError_def)
qed

lemma serve_incomplete:
  assumes "unpack_be32 h = Inr n" and "length rest < n"
  shows "serve e u c k (h @ rest) s = (FrameError, s)"
proof -
  have "length h = 4" using assms(1) by (auto simp: unpack_be32_def split: list.splits)
  then have "fst (read_frame (h @ rest)) = Inl ValueError"
    using assms by (auto simp: read_frame_def Let_def)
  then show ?thesis
    by (cases "read_frame (h @ rest)") (simp add: serve_stop is_ValueError_def)
qed

text \<open>Whatever comes, the loop treats some frames in order and stops.\<close>

lemma serve_folds: "\<exists>ds. snd (serve e u c k inp s) = process_frames e u c k ds s"
proof (induction e u c k inp s rule: serve.induct)
  case (1 e u c k inp s)
  obtain o' r where rf: "read_frame inp = (o', r)" by force
  consider x where "o' = Inl x" | "o' = Inr None" | d where "o' = Inr (Some d)"
    by (metis not_None_eq sumE)
  then show ?case
  proof cases
    case 1
    then show ?thesis using rf serve_stop(2) by (intro exI [of _ "[]"]) simp
  next
    case 2
    then show ?thesis using rf serve_stop(1) by (intro exI [of _ "[]"]) simp
  next
    case 3
    then obtain ds where "snd (serve e u c k r (process_frame e u c k d s)) =
        process_frames e u c k ds (process_frame e u c k d s)"
      using "1" rf by fastforce
    then show ?thesis using rf 3 serve_step by (intro exI [of _ "d # ds"]) simp
  qed
qed

section \<open>A session\<close>

lemma dict_del_set_new: "dict_get m k = None \<Longrightarrow> dict_del (dict_set m k v) k = m"
  by (induction m) (auto simp: dict_del_def dict_get_def split: if_splits)

text \<open>A session leaves the table of clients as it found it, however it went.\<close>

lemma handle_client_clients:
  assumes "\<And>u. map_option fst (dict_get (clients s) u) \<noteq> Some c"
  shows "clients (handle_client e c segs s) = clients s"
proof (cases "handshake e c segs s")
  case (Pair r s1)
  show ?thesis
  proof (cases r)
    case (Rejected v)
    then have "clients s1 = clients s"
      using handshake_Rejected Pair by (fastforce simp: same_tables_def)
    then show ?thesis
      using Pair Rejected assms by (auto simp: handle_client_def cleanup_tables split: option.splits)
  next
    case (Joined u k inp)
    note h = handshake_Joined [OF Pair [unfolded Joined]]
    obtain ds where ds: "snd (serve e u c k inp (announce e c k s1)) =
        process_frames e u c k ds (announce e c k s1)"
      using serve_folds by blast
    have "clients (announce e c k s1) = dict_set (clients s) u (c, k)"
      using announce_tables [of s1 e c k] h(3) by (simp add: same_tables_def)
    then show ?thesis
      using Pair Joined h(1) by (simp add: handle_client_def cleanup_tables ds dict_del_set_new)
  qed
qed

text \<open>A second login under a name in use: an error to the newcomer, the incumbent stays.\<close>

lemma handle_client_taken:
  assumes "live ks" and "length (concat ks) = 256"
    and "rsa_unwrap (e_crypto e) (e_private e) (concat ks) = Some k"
    and "name_match 32 u" and "dict_get (clients s) u = Some (c0, k0)" and "c0 \<noteq> c"
  shows "handle_client e c (ks @ map of_nat u # segs) s =
    (let s1 = broadcast_user_list e (snd (send_error e c k (lit ''Username already connected.'') s))
     in s1\<lparr>broken := (broken s1)(c := True)\<rparr>)"
proof -
  have "clients (snd (send_error e c k m s)) = clients s" for m
    using error_same_tables [of s e c k m] by (simp add: same_tables_def)
  then show ?thesis
    using handshake_taken [OF assms(1-4), of s c segs] assms(5,6)
    by (simp add: handle_client_def cleanup_def Let_def)
qed

end
