(* ===== verification/System.thy ===== *)
theory System
  imports Connection
begin

text \<open>
  The server as a whole: connections that come, join, send frames and leave, in any order.
  Each handler thread takes steps of its own; a step is the handshake of one connection, the
  treatment of one frame, or the clean-up, and the steps of different connections interleave
  freely (the accesses to the tables of one step are under \<open>state_lock\<close>; the sends between
  them are taken as part of the step; Threads takes them apart). The environment may break a
  connection at any time.
\<close>

section \<open>The transition system\<close>

datatype phase = Fresh | Active pystr bytes | Closed

record system =
  srv :: server
  phase :: "conn \<Rightarrow> phase"

datatype event = Join conn segments | Frame conn bytes | Leave conn | Break conn

definition init_server :: server where
  "init_server =
     \<lparr>clients = [], groups = [], sent = [], broken = (\<lambda>_. False), draws = 0, ticks = 0\<rparr>"

definition init_system :: system where
  "init_system = \<lparr>srv = init_server, phase = (\<lambda>_. Fresh)\<rparr>"

inductive sys_step :: "env \<Rightarrow> system \<Rightarrow> event \<Rightarrow> system \<Rightarrow> bool" for e :: env where
  join: "phase y c = Fresh \<Longrightarrow> handshake e c segs (srv y) = (Joined u k inp, s1) \<Longrightarrow>
    sys_step e y (Join c segs)
      (y\<lparr>srv := announce e c k s1, phase := (phase y)(c := Active u k)\<rparr>)"
| reject: "phase y c = Fresh \<Longrightarrow> handshake e c segs (srv y) = (Rejected v, s1) \<Longrightarrow>
    sys_step e y (Join c segs)
      (y\<lparr>srv := cleanup e v c s1, phase := (phase y)(c := Closed)\<rparr>)"
| treat: "phase y c = Active u k \<Longrightarrow>
    sys_step e y (Frame c d) (y\<lparr>srv := process_frame e u c k d (srv y)\<rparr>)"
| leave: "phase y c = Active u k \<Longrightarrow>
    sys_step e y (Leave c)
      (y\<lparr>srv := cleanup e (Some u) c (srv y), phase := (phase y)(c := Closed)\<rparr>)"
| break: "sys_step e y (Break c) (y\<lparr>srv := (srv y)\<lparr>broken := (broken (srv y))(c := True)\<rparr>\<rparr>)"

inductive_cases step_JoinE: "sys_step e y (Join c segs) y'"
inductive_cases step_FrameE: "sys_step e y (Frame c d) y'"
inductive_cases step_LeaveE: "sys_step e y (Leave c) y'"
inductive_cases step_BreakE: "sys_step e y (Break c) y'"

inductive reachable :: "env \<Rightarrow> system \<Rightarrow> bool" for e :: env where
  start: "reachable e init_system"
| step: "reachable e y \<Longrightarrow> sys_step e y ev y' \<Longrightarrow> reachable e y'"

section \<open>Invariants\<close>

text \<open>The table of clients is exactly the set of active connections.\<close>

definition registry_ok :: "system \<Rightarrow> bool" where
  "registry_ok y \<longleftrightarrow>
     dict_ok (clients (srv y)) \<and>
     (\<forall>u c k. dict_get (clients (srv y)) u = Some (c, k) \<longleftrightarrow> phase y c = Active u k) \<and>
     (\<forall>u. dict_get (clients (srv y)) u \<noteq> None \<longrightarrow> name_match 32 u)"

definition group_ok :: "pystr \<Rightarrow> pystr list \<Rightarrow> bool" where
  "group_ok g ms \<longleftrightarrow>
     name_match 48 g \<and> ms \<noteq> [] \<and> sorted ms \<and> distinct ms \<and> list_all (name_match 32) ms"

definition groups_ok :: "system \<Rightarrow> bool" where
  "groups_ok y \<longleftrightarrow>
     dict_ok (groups (srv y)) \<and> (\<forall>g ms. dict_get (groups (srv y)) g = Some ms \<longrightarrow> group_ok g ms)"

definition sys_inv :: "system \<Rightarrow> bool" where
  "sys_inv y \<longleftrightarrow> registry_ok y \<and> groups_ok y"

lemma registry_okD:
  assumes "registry_ok y"
  shows "dict_ok (clients (srv y))"
    and "dict_get (clients (srv y)) u = Some (c, k) \<longleftrightarrow> phase y c = Active u k"
    and "dict_get (clients (srv y)) u \<noteq> None \<Longrightarrow> name_match 32 u"
  using assms by (auto simp: registry_ok_def)

lemma registry_okI:
  assumes "dict_ok (clients (srv y))"
    and "\<And>u c k. dict_get (clients (srv y)) u = Some (c, k) \<longleftrightarrow> phase y c = Active u k"
    and "\<And>u. dict_get (clients (srv y)) u \<noteq> None \<Longrightarrow> name_match 32 u"
  shows "registry_ok y"
  unfolding registry_ok_def using assms by blast

lemma registry_ok_cong:
  "clients (srv y') = clients (srv y) \<Longrightarrow> phase y' = phase y \<Longrightarrow> registry_ok y' \<longleftrightarrow> registry_ok y"
  by (simp add: registry_ok_def)

lemma groups_ok_cong: "groups (srv y') = groups (srv y) \<Longrightarrow> groups_ok y' \<longleftrightarrow> groups_ok y"
  by (simp add: groups_ok_def)

lemma init_inv: "sys_inv init_system"
  by (simp add: sys_inv_def registry_ok_def groups_ok_def init_system_def init_server_def dict_ok_def)

lemma fresh_unregistered:
  "registry_ok y \<Longrightarrow> phase y c = Fresh \<Longrightarrow> map_option fst (dict_get (clients (srv y)) u) \<noteq> Some c"
  by (auto dest: registry_okD(2) [THEN iffD1])

lemma step_registry:
  assumes "sys_step e y ev y'" and "registry_ok y"
  shows "registry_ok y'"
  using assms
proof (induction rule: sys_step.induct)
  case (join y c segs u k inp s1)
  note h = handshake_Joined [OF join.hyps(2)]
  have cl: "clients (announce e c k s1) = dict_set (clients (srv y)) u (c, k)"
    using announce_tables [of s1 e c k] by (simp add: h(3) same_tables_def)
  have "phase y c \<noteq> Active v j" for v j using join.hyps(1) by simp
  then have fresh: "dict_get (clients (srv y)) v \<noteq> Some (c, j)" for v j
    using registry_okD(2) [OF join.prems] by blast
  let ?ph = "(phase y)(c := Active u k)"
  have iff: "dict_get (dict_set (clients (srv y)) u (c, k)) v = Some (c', j) \<longleftrightarrow> ?ph c' = Active v j"
    for v c' j
    using registry_okD(2) [OF join.prems, of v c' j] registry_okD(2) [OF join.prems, of u c' j]
      h(1) fresh [of v j] by auto
  show ?case
  proof (rule registry_okI)
    show "dict_ok (clients (srv (y\<lparr>srv := announce e c k s1, phase := ?ph\<rparr>)))"
      using dict_ok_set [OF registry_okD(1) [OF join.prems]] by (simp add: cl)
  next
    fix v
    assume "dict_get (clients (srv (y\<lparr>srv := announce e c k s1, phase := ?ph\<rparr>))) v \<noteq> None"
    then have "v = u \<or> dict_get (clients (srv y)) v \<noteq> None" by (simp add: cl split: if_splits)
    then show "name_match 32 v" using h(2) registry_okD(3) [OF join.prems] by blast
  qed (simp add: cl iff del: dict_get_set)
next
  case (reject y c segs v s1)
  have cl: "clients s1 = clients (srv y)"
    using handshake_Rejected [OF reject.hyps(2)] by (simp add: same_tables_def)
  have "clients (cleanup e v c s1) = clients (srv y)"
    using fresh_unregistered [OF reject.prems reject.hyps(1)]
    by (auto simp: cleanup_tables cl split: option.splits)
  then show ?case
    using reject.prems reject.hyps(1) unfolding registry_ok_def by (auto split: if_splits)
next
  case (leave y c u k)
  have reg: "dict_get (clients (srv y)) u = Some (c, k)"
    using registry_okD(2) [OF leave.prems] leave.hyps by blast
  have cl: "clients (cleanup e (Some u) c (srv y)) = dict_del (clients (srv y)) u"
    by (simp add: cleanup_tables reg)
  let ?ph = "(phase y)(c := Closed)"
  have iff: "dict_get (dict_del (clients (srv y)) u) v = Some (c', j) \<longleftrightarrow> ?ph c' = Active v j" for v c' j
    using registry_okD(2) [OF leave.prems, of v c' j] registry_okD(2) [OF leave.prems, of u c' j]
      leave.hyps reg by auto
  show ?case
  proof (rule registry_okI)
    show "dict_ok (clients (srv (y\<lparr>srv := cleanup e (Some u) c (srv y), phase := ?ph\<rparr>)))"
      using pd.ok_del [OF registry_okD(1) [OF leave.prems]] by (simp add: cl)
  next
    fix v
    assume "dict_get (clients (srv (y\<lparr>srv := cleanup e (Some u) c (srv y), phase := ?ph\<rparr>))) v \<noteq> None"
    then have "dict_get (clients (srv y)) v \<noteq> None" by (simp add: cl split: if_splits)
    then show "name_match 32 v" by (rule registry_okD(3) [OF leave.prems])
  qed (simp add: cl iff del: dict_get_del)
qed (auto simp: registry_ok_def)

lemma step_groups:
  assumes "sys_step e y ev y'" and "sys_inv y"
  shows "groups_ok y'"
  using assms
proof (induction rule: sys_step.induct)
  case (join y c segs u k inp s1)
  have "groups (announce e c k s1) = groups (srv y)"
    using announce_tables [of s1 e c k] handshake_Joined(3) [OF join.hyps(2)]
    by (simp add: same_tables_def)
  then show ?case using join.prems by (simp add: sys_inv_def groups_ok_def)
next
  case (reject y c segs v s1)
  have "groups s1 = groups (srv y)"
    using handshake_Rejected [OF reject.hyps(2)] by (simp add: same_tables_def)
  then show ?case using reject.prems by (simp add: sys_inv_def groups_ok_def cleanup_tables)
next
  case (treat y c u k d)
  have g: "groups_ok y" and r: "registry_ok y" using treat.prems by (simp_all add: sys_inv_def)
  have u: "name_match 32 u"
    using registry_okD(2) [OF r, of u c k] registry_okD(3) [OF r, of u] treat.hyps by auto
  consider "same_tables (srv y) (process_frame e u c k d (srv y))"
    | "adds_group u (srv y) (process_frame e u c k d (srv y))"
    using process_frame_tables by blast
  then show ?case
  proof cases
    case 1
    then show ?thesis using g by (simp add: same_tables_def groups_ok_def)
  next
    case 2
    then obtain n ms where gr: "groups (process_frame e u c k d (srv y)) = dict_set (groups (srv y)) n ms"
      and "name_match 48 n" "u \<in> set ms" "sorted ms" "distinct ms"
      and "list_all (\<lambda>m. m = u \<or> name_match 32 m) ms"
      by (auto simp: adds_group_def)
    then have "group_ok n ms" using u by (auto simp: group_ok_def list_all_iff)
    then show ?thesis using g dict_ok_set unfolding groups_ok_def by (auto simp: gr)
  qed
qed (auto simp: sys_inv_def groups_ok_def cleanup_tables)

lemma step_inv: "sys_step e y ev y' \<Longrightarrow> sys_inv y \<Longrightarrow> sys_inv y'"
  using step_registry step_groups unfolding sys_inv_def by blast

lemma reachable_inv: "reachable e y \<Longrightarrow> sys_inv y"
  by (induction rule: reachable.induct) (auto intro: init_inv step_inv)

lemma reachable_registry: "reachable e y \<Longrightarrow> registry_ok y"
  using reachable_inv by (simp add: sys_inv_def)

text \<open>A group, once in the table, keeps its members.\<close>

lemma step_group_stable:
  assumes "sys_step e y ev y'" and "dict_get (groups (srv y)) g = Some ms"
  shows "dict_get (groups (srv y')) g = Some ms"
  using assms
proof (induction rule: sys_step.induct)
  case (join y c segs u k inp s1)
  then show ?case
    using announce_tables [of s1 e c k] handshake_Joined(3) [OF join.hyps(2)]
    by (simp add: same_tables_def)
next
  case (reject y c segs v s1)
  then show ?case
    using handshake_Rejected [OF reject.hyps(2)] by (simp add: same_tables_def cleanup_tables)
next
  case (treat y c u k d)
  then show ?case
    using process_frame_tables [of "srv y" e u c k d] by (auto simp: same_tables_def adds_group_def)
qed (auto simp: cleanup_tables)

inductive sys_run :: "env \<Rightarrow> system \<Rightarrow> event list \<Rightarrow> system \<Rightarrow> bool" for e :: env where
  stop: "sys_run e y [] y"
| more: "sys_step e y ev y1 \<Longrightarrow> sys_run e y1 evs y2 \<Longrightarrow> sys_run e y (ev # evs) y2"

lemma run_reachable: "sys_run e y evs y' \<Longrightarrow> reachable e y \<Longrightarrow> reachable e y'"
  by (induction rule: sys_run.induct) (auto intro: reachable.step)

lemma run_group_stable:
  "sys_run e y evs y' \<Longrightarrow> dict_get (groups (srv y)) g = Some ms \<Longrightarrow>
   dict_get (groups (srv y')) g = Some ms"
  by (induction rule: sys_run.induct) (auto dest: step_group_stable)

section \<open>Abstract specification\<close>

text \<open>
  What the server promises, without keys, bytes and orders: who is on line on which
  connection, and the member set of each room.
\<close>

record chat =
  online :: "pystr \<rightharpoonup> conn"
  rooms :: "pystr \<rightharpoonup> pystr set"

inductive chat_step :: "chat \<Rightarrow> chat \<Rightarrow> bool" where
  login: "online a u = None \<Longrightarrow> c \<notin> ran (online a) \<Longrightarrow> chat_step a (a\<lparr>online := (online a)(u \<mapsto> c)\<rparr>)"
| logout: "online a u = Some c \<Longrightarrow> chat_step a (a\<lparr>online := (online a)(u := None)\<rparr>)"
| create: "online a u \<noteq> None \<Longrightarrow> rooms a g = None \<Longrightarrow> u \<in> M \<Longrightarrow>
    chat_step a (a\<lparr>rooms := (rooms a)(g \<mapsto> M)\<rparr>)"
| idle: "chat_step a a"

definition abs_chat :: "system \<Rightarrow> chat" where
  "abs_chat y =
     \<lparr>online = (\<lambda>u. map_option fst (dict_get (clients (srv y)) u)),
      rooms = (\<lambda>g. map_option set (dict_get (groups (srv y)) g))\<rparr>"

lemma abs_chat_cong:
  "clients (srv y') = clients (srv y) \<Longrightarrow> groups (srv y') = groups (srv y) \<Longrightarrow> abs_chat y' = abs_chat y"
  by (simp add: abs_chat_def)

lemma step_refines:
  assumes "sys_step e y ev y'" and "registry_ok y"
  shows "chat_step (abs_chat y) (abs_chat y')"
  using assms
proof (induction rule: sys_step.induct)
  case (join y c segs u k inp s1)
  note h = handshake_Joined [OF join.hyps(2)]
  have "abs_chat (y\<lparr>srv := announce e c k s1, phase := (phase y)(c := Active u k)\<rparr>) =
      (abs_chat y)\<lparr>online := (online (abs_chat y))(u \<mapsto> c)\<rparr>"
    using announce_tables [of s1 e c k] by (auto simp: abs_chat_def h(3) same_tables_def)
  moreover have "c \<notin> ran (online (abs_chat y))"
    using fresh_unregistered [OF join.prems join.hyps(1)] by (auto simp: abs_chat_def ran_def)
  moreover have "online (abs_chat y) u = None" using h(1) by (simp add: abs_chat_def)
  ultimately show ?case using chat_step.login [of "abs_chat y" u c] by simp
next
  case (reject y c segs v s1)
  have t: "same_tables (srv y) s1" using handshake_Rejected [OF reject.hyps(2)] .
  have "clients (cleanup e v c s1) = clients (srv y)"
    using t fresh_unregistered [OF reject.prems reject.hyps(1)]
    by (auto simp: cleanup_tables same_tables_def split: option.splits)
  then have "abs_chat (y\<lparr>srv := cleanup e v c s1, phase := (phase y)(c := Closed)\<rparr>) = abs_chat y"
    using t by (intro abs_chat_cong) (auto simp: cleanup_tables same_tables_def)
  then show ?case by (simp add: chat_step.idle)
next
  case (treat y c u k d)
  have on: "online (abs_chat y) u \<noteq> None"
    using registry_okD(2) [OF treat.prems, of u c k] treat.hyps by (simp add: abs_chat_def)
  consider "same_tables (srv y) (process_frame e u c k d (srv y))"
    | "adds_group u (srv y) (process_frame e u c k d (srv y))"
    using process_frame_tables by blast
  then show ?case
  proof cases
    case 1
    then have "abs_chat (y\<lparr>srv := process_frame e u c k d (srv y)\<rparr>) = abs_chat y"
      by (intro abs_chat_cong) (auto simp: same_tables_def)
    then show ?thesis by (simp add: chat_step.idle)
  next
    case 2
    then obtain n ms where g: "dict_get (groups (srv y)) n = None" "u \<in> set ms"
      "groups (process_frame e u c k d (srv y)) = dict_set (groups (srv y)) n ms"
      by (auto simp: adds_group_def)
    then have "abs_chat (y\<lparr>srv := process_frame e u c k d (srv y)\<rparr>) =
        (abs_chat y)\<lparr>rooms := (rooms (abs_chat y))(n \<mapsto> set ms)\<rparr>"
      by (auto simp: abs_chat_def)
    then show ?thesis
      using chat_step.create [of "abs_chat y" u n "set ms"] on g by (simp add: abs_chat_def)
  qed
next
  case (leave y c u k)
  have reg: "dict_get (clients (srv y)) u = Some (c, k)"
    using registry_okD(2) [OF leave.prems] leave.hyps by blast
  have "abs_chat (y\<lparr>srv := cleanup e (Some u) c (srv y), phase := (phase y)(c := Closed)\<rparr>) =
      (abs_chat y)\<lparr>online := (online (abs_chat y))(u := None)\<rparr>"
    by (auto simp: abs_chat_def cleanup_tables reg)
  then show ?case
    using chat_step.logout [of "abs_chat y" u c] reg by (simp add: abs_chat_def)
next
  case (break y c)
  have "abs_chat (y\<lparr>srv := (srv y)\<lparr>broken := (broken (srv y))(c := True)\<rparr>\<rparr>) = abs_chat y"
    by (intro abs_chat_cong) auto
  then show ?case by (simp add: chat_step.idle)
qed

end
