(* ===== verification/Security.thy ===== *)
theory Security
  imports System
begin

text \<open>
  What holds of every frame a run of the server has ever written: it was sealed under the key
  of the connection it went to (one key per connection), and whoever holds that key reads the
  logged payload out of it. Then the sequential view: a run of \<open>handle_client\<close> on its own is
  a run of the transition system.
\<close>

section \<open>Who is written to\<close>

definition active_target :: "system \<Rightarrow> delivery \<Rightarrow> bool" where
  "active_target y d \<longleftrightarrow> (\<exists>v. phase y (d_conn d) = Active v (d_key d))"

lemma listed_active:
  "registry_ok y \<Longrightarrow> (v, target_of d) \<in> set (clients (srv y)) \<Longrightarrow> active_target y d"
  using dict_get_in [of "clients (srv y)" v "target_of d"] registry_okD(1,2)
  by (auto simp: active_target_def target_of_def)

lemma registered_active:
  "registry_ok y \<Longrightarrow> dict_get (clients (srv y)) v = Some (target_of d) \<Longrightarrow> active_target y d"
  using registry_okD(2) by (auto simp: active_target_def target_of_def)

lemma targets_active:
  "emits (active_target y') s s' \<Longrightarrow>
   \<exists>c k. emits (\<lambda>d. active_target y' d \<or> target_of d = (c, k) \<and> A c \<and> B c) s s'"
  by (intro exI) (erule emits_mono, simp)

lemma step_targets:
  assumes "sys_step e y ev y'" and "registry_ok y"
  shows "\<exists>c k. emits (\<lambda>d. active_target y' d \<or>
    target_of d = (c, k) \<and> phase y c = Fresh \<and> phase y' c = Closed) (srv y) (srv y')"
  using assms
proof (induction rule: sys_step.induct)
  case (join y c segs u k inp s1)
  let ?y = "y\<lparr>srv := announce e c k s1, phase := (phase y)(c := Active u k)\<rparr>"
  have r: "registry_ok ?y" by (rule step_registry [OF sys_step.join [OF join.hyps] join.prems])
  have cl: "clients (announce e c k s1) = clients s1"
    using announce_tables [of s1 e c k] by (simp add: same_tables_def)
  have "sent s1 = sent (srv y)" using handshake_Joined(3) [OF join.hyps(2)] by simp
  moreover have "emits (active_target ?y) s1 (announce e c k s1)"
  proof (rule emits_mono [OF announce_emits])
    have "active_target ?y d" if "(v, target_of d) \<in> set (clients s1)" for v d
      using listed_active [OF r] that by (simp add: cl)
    moreover have "active_target ?y d" if "target_of d = (c, k)" for d
      using that by (simp add: active_target_def target_of_def)
    ultimately show "active_target ?y d"
      if "lists_users e s1 d \<and> (target_of d = (c, k) \<or> (\<exists>v. (v, target_of d) \<in> set (clients s1)))" for d
      using that by blast
  qed
  ultimately have "emits (active_target ?y) (srv y) (srv ?y)"
    by (simp add: emits_def)
  then show ?case by (rule targets_active)
next
  case (reject y c segs v s1)
  let ?y = "y\<lparr>srv := cleanup e v c s1, phase := (phase y)(c := Closed)\<rparr>"
  have r: "registry_ok ?y" by (rule step_registry [OF sys_step.reject [OF reject.hyps] reject.prems])
  obtain k where k: "emits (\<lambda>d. target_of d = (c, k) \<and> payload_ok e (d_payload d) \<and> well_sealed e d)
      (srv y) s1" using reject_emits [OF reject.hyps(2)] by blast
  let ?P = "\<lambda>d. active_target ?y d \<or> target_of d = (c, k) \<and> phase y c = Fresh \<and> phase ?y c = Closed"
  have "emits ?P (srv y) s1" using k by (rule emits_mono) (simp add: reject.hyps(1))
  moreover have "emits ?P s1 (cleanup e v c s1)"
    by (rule emits_mono [OF cleanup_emits]) (use listed_active [OF r] in auto)
  ultimately show ?case using emits_trans by fastforce
next
  case (treat y c u k b)
  let ?y = "y\<lparr>srv := process_frame e u c k b (srv y)\<rparr>"
  have "emits (active_target ?y) (srv y) (process_frame e u c k b (srv y))"
  proof (rule emits_mono [OF process_frame_emission])
    fix d
    assume "\<exists>p. frame_payload e k b = Some p \<and>
      emission e u c k (dict_set p (lit ''from'') (JStr u)) (srv y) d"
    then consider "target_of d = (c, k)" | v where "dict_get (clients (srv y)) v = Some (target_of d)"
      using emission_target by blast
    then show "active_target ?y d"
      using treat.hyps registered_active [OF treat.prems]
      by cases (auto simp: active_target_def target_of_def)
  qed
  then have "emits (active_target ?y) (srv y) (srv ?y)" by simp
  then show ?case by (rule targets_active)
next
  case (leave y c u k)
  let ?y = "y\<lparr>srv := cleanup e (Some u) c (srv y), phase := (phase y)(c := Closed)\<rparr>"
  have r: "registry_ok ?y" by (rule step_registry [OF sys_step.leave [OF leave.hyps] leave.prems])
  have "emits (active_target ?y) (srv y) (srv ?y)"
    by (simp, rule emits_mono [OF cleanup_emits]) (use listed_active [OF r] in auto)
  then show ?case by (rule targets_active)
qed (auto simp: emits_def)

section \<open>One key per connection\<close>

definition key_inv :: "system \<Rightarrow> bool" where
  "key_inv y \<longleftrightarrow>
     (\<forall>d\<in>set (sent (srv y)). phase y (d_conn d) \<noteq> Fresh \<and>
        (\<forall>v k. phase y (d_conn d) = Active v k \<longrightarrow> d_key d = k) \<and>
        (\<forall>d'\<in>set (sent (srv y)). d_conn d' = d_conn d \<longrightarrow> d_key d' = d_key d))"

text \<open>A connection only moves forward, and keeps its name and key while it is active.\<close>

lemma step_phase:
  "sys_step e y ev y' \<Longrightarrow>
   phase y c \<noteq> Fresh \<Longrightarrow> phase y' c = phase y c \<or> phase y' c = Closed"
  by (induction rule: sys_step.induct) auto

lemma step_key_inv:
  assumes st: "sys_step e y ev y'" and reg: "registry_ok y" and inv: "key_inv y"
  shows "key_inv y'"
proof -
  obtain c k ds where ds: "sent (srv y') = sent (srv y) @ ds"
    "list_all (\<lambda>d. active_target y' d \<or> target_of d = (c, k) \<and> phase y c = Fresh \<and> phase y' c = Closed) ds"
    using step_targets [OF st reg] by (auto simp: emits_def)
  let ?old = "set (sent (srv y))"
  have new: "active_target y' d \<or> target_of d = (c, k) \<and> phase y c = Fresh \<and> phase y' c = Closed"
    if "d \<in> set ds" for d using ds(2) that by (auto simp: list_all_iff)
  have old1: "phase y (d_conn d) \<noteq> Fresh" if "d \<in> ?old" for d
    using inv that by (simp add: key_inv_def)
  have old2: "phase y (d_conn d) = Active v j" if "d \<in> ?old" "phase y' (d_conn d) = Active v j" for d v j
    using step_phase [OF st old1 [OF that(1)]] that(2) by auto
  have old3: "d_key d = j" if "d \<in> ?old" "phase y (d_conn d) = Active v j" for d v j
    using inv that by (auto simp: key_inv_def)
  have on: "d_key d' = d_key d" if d: "d \<in> ?old" and d': "d' \<in> set ds" "d_conn d' = d_conn d" for d d'
  proof -
    have "active_target y' d'"
      using new [OF d'(1)] old1 [OF d] d'(2) by (auto simp: target_of_def)
    then obtain v where "phase y' (d_conn d) = Active v (d_key d')"
      using d'(2) by (auto simp: active_target_def)
    then show ?thesis using old2 [OF d] old3 [OF d] by metis
  qed
  have nn: "d_key d' = d_key d" if "d \<in> set ds" "d' \<in> set ds" "d_conn d' = d_conn d" for d d'
  proof (cases "\<exists>v j. phase y' (d_conn d) = Active v j")
    case True
    then have "active_target y' d" "active_target y' d'"
      using new [OF that(1)] new [OF that(2)] that(3) by (auto simp: target_of_def)
    then show ?thesis using that(3) by (metis active_target_def phase.inject)
  next
    case False
    then have "target_of d = (c, k)" "target_of d' = (c, k)"
      using new [OF that(1)] new [OF that(2)] unfolding active_target_def that(3) by blast+
    then show ?thesis by (simp add: target_of_def)
  qed
  have oo: "d_key d' = d_key d" if "d \<in> ?old" "d' \<in> ?old" "d_conn d' = d_conn d" for d d'
    using inv that unfolding key_inv_def by blast
  have same: "d_key d' = d_key d" if "d \<in> ?old \<union> set ds" "d' \<in> ?old \<union> set ds" "d_conn d' = d_conn d" for d d'
    using that oo on nn by (metis UnE)
  have "phase y' (d_conn d) \<noteq> Fresh \<and> (\<forall>v j. phase y' (d_conn d) = Active v j \<longrightarrow> d_key d = j)"
    if "d \<in> ?old \<union> set ds" for d
  proof (cases "d \<in> ?old")
    case True
    have "phase y' (d_conn d) \<noteq> Fresh"
      using step_phase [OF st old1 [OF True]] old1 [OF True] by auto
    moreover have "d_key d = j" if "phase y' (d_conn d) = Active v j" for v j
      using old3 [OF True old2 [OF True that]] .
    ultimately show ?thesis by blast
  next
    case False
    with that new [of d] show ?thesis by (auto simp: active_target_def target_of_def)
  qed
  with same show ?thesis unfolding key_inv_def ds(1) set_append by blast
qed

lemma reachable_key_inv: "reachable e y \<Longrightarrow> key_inv y"
proof (induction rule: reachable.induct)
  case start
  show ?case by (simp add: key_inv_def init_system_def init_server_def)
next
  case (step y ev y')
  then show ?case using step_key_inv reachable_registry by blast
qed

section \<open>What the holder of the key reads\<close>

definition good_frame :: "env \<Rightarrow> delivery \<Rightarrow> bool" where
  "good_frame e d \<longleftrightarrow> well_sealed e d \<and> payload_ok e (d_payload d)"

lemma lists_users_good:
  assumes "lists_users e s d" and "clients s = clients (srv y)" and "registry_ok y"
  shows "good_frame e d"
proof -
  have "list_all (name_match 32) (dict_keys (clients s))"
    using registry_okD(3) [OF assms(3)] by (auto simp: list_all_iff in_dict_keys assms(2))
  then show ?thesis
    using assms(1) by (simp add: lists_users_def good_frame_def user_list_payload_ok)
qed

lemma step_good:
  assumes "sys_step e y ev y'" and "registry_ok y" and "env_ok e"
  shows "emits (good_frame e) (srv y) (srv y')"
  using assms
proof (induction rule: sys_step.induct)
  case (join y c segs u k inp s1)
  let ?y = "y\<lparr>srv := announce e c k s1, phase := (phase y)(c := Active u k)\<rparr>"
  have r: "registry_ok ?y" by (rule step_registry [OF sys_step.join [OF join.hyps] join.prems(1)])
  have cl: "clients s1 = clients (srv ?y)"
    using announce_tables [of s1 e c k] by (simp add: same_tables_def)
  have "emits (good_frame e) s1 (announce e c k s1)"
    by (rule emits_mono [OF announce_emits]) (use lists_users_good [OF _ cl r] in blast)
  then show ?case using handshake_Joined(3) [OF join.hyps(2)] by (simp add: emits_def)
next
  case (reject y c segs v s1)
  let ?y = "y\<lparr>srv := cleanup e v c s1, phase := (phase y)(c := Closed)\<rparr>"
  have r: "registry_ok ?y" by (rule step_registry [OF sys_step.reject [OF reject.hyps] reject.prems(1)])
  obtain k where "emits (\<lambda>d. target_of d = (c, k) \<and> payload_ok e (d_payload d) \<and> well_sealed e d)
      (srv y) s1" using reject_emits [OF reject.hyps(2)] by blast
  then have "emits (good_frame e) (srv y) s1"
    by (rule emits_mono) (simp add: good_frame_def)
  moreover have "emits (good_frame e) s1 (srv ?y)"
    using emits_mono [OF cleanup_emits [of e v c s1], of "good_frame e"]
      lists_users_good [OF _ _ r] by auto
  ultimately show ?case using emits_trans by fastforce
next
  case (treat y c u k b)
  have "name_match 32 u"
    using registry_okD(2) [OF treat.prems(1), of u c k] registry_okD(3) [OF treat.prems(1), of u]
      treat.hyps by auto
  then have "emits (good_frame e) (srv y) (process_frame e u c k b (srv y))"
    using emits_conj [OF process_frame_well_sealed process_frame_payload_ok [OF treat.prems(2)]]
    by (auto simp: good_frame_def [abs_def])
  then show ?case by simp
next
  case (leave y c u k)
  let ?y = "y\<lparr>srv := cleanup e (Some u) c (srv y), phase := (phase y)(c := Closed)\<rparr>"
  have r: "registry_ok ?y" by (rule step_registry [OF sys_step.leave [OF leave.hyps] leave.prems(1)])
  have "emits (good_frame e) (srv y) (srv ?y)"
    using emits_mono [OF cleanup_emits [of e "Some u" c "srv y"], of "good_frame e"]
      lists_users_good [OF _ _ r] by auto
  then show ?case by simp
qed (auto simp: emits_def)

lemma reachable_good:
  "reachable e y \<Longrightarrow> env_ok e \<Longrightarrow> list_all (good_frame e) (sent (srv y))"
proof (induction rule: reachable.induct)
  case start
  show ?case by (simp add: init_system_def init_server_def)
next
  case (step y ev y')
  have "emits (good_frame e) (srv y) (srv y')"
    using step_good [OF step.hyps(2) reachable_registry [OF step.hyps(1)] step.prems] .
  then show ?case using step by (auto simp: emits_def)
qed

section \<open>One handler on its own\<close>

text \<open>
  A thread that runs \<open>handle_client\<close> without interference takes these steps: the handshake,
  one step per frame, the clean-up.
\<close>

lemma frames_run:
  assumes "phase y c = Active u k"
  shows "sys_run e y (map (Frame c) ds) (y\<lparr>srv := process_frames e u c k ds (srv y)\<rparr>)"
  using assms
proof (induction ds arbitrary: y)
  case Nil
  show ?case by (simp add: sys_run.stop)
next
  case (Cons d ds)
  let ?y = "y\<lparr>srv := process_frame e u c k d (srv y)\<rparr>"
  have "sys_run e ?y (map (Frame c) ds) (?y\<lparr>srv := process_frames e u c k ds (srv ?y)\<rparr>)"
    using Cons.prems by (intro Cons.IH) simp
  then show ?case
    using sys_run.more [OF sys_step.treat [OF Cons.prems]] by simp
qed

lemma run_append: "sys_run e y evs y1 \<Longrightarrow> sys_run e y1 evs' y2 \<Longrightarrow> sys_run e y (evs @ evs') y2"
  by (induction rule: sys_run.induct) (auto intro: sys_run.more)

lemma session_run:
  assumes "phase y c = Fresh"
  shows "\<exists>evs y'. sys_run e y evs y' \<and> srv y' = handle_client e c segs (srv y) \<and> phase y' c = Closed"
proof (cases "handshake e c segs (srv y)")
  case (Pair r s1)
  show ?thesis
  proof (cases r)
    case (Rejected v)
    let ?y = "y\<lparr>srv := cleanup e v c s1, phase := (phase y)(c := Closed)\<rparr>"
    have "sys_run e y [Join c segs] ?y"
      using sys_step.reject [OF assms Pair [unfolded Rejected]] sys_run.stop by (rule sys_run.more)
    moreover have "srv ?y = handle_client e c segs (srv y)"
      using Pair Rejected by (simp add: handle_client_def)
    ultimately show ?thesis by (intro exI [of _ ?y] exI [of _ "[Join c segs]"] conjI) simp_all
  next
    case (Joined u k inp)
    let ?y = "y\<lparr>srv := announce e c k s1, phase := (phase y)(c := Active u k)\<rparr>"
    obtain ds where ds: "snd (serve e u c k inp (announce e c k s1)) =
        process_frames e u c k ds (announce e c k s1)"
      using serve_folds by blast
    let ?y1 = "?y\<lparr>srv := process_frames e u c k ds (srv ?y)\<rparr>"
    let ?y2 = "?y1\<lparr>srv := cleanup e (Some u) c (srv ?y1), phase := (phase ?y1)(c := Closed)\<rparr>"
    have "sys_run e y [Join c segs] ?y"
      using sys_step.join [OF assms Pair [unfolded Joined]] sys_run.stop by (rule sys_run.more)
    moreover have "sys_run e ?y (map (Frame c) ds) ?y1" by (rule frames_run) simp
    moreover have "sys_run e ?y1 [Leave c] ?y2"
      by (rule sys_run.more [OF sys_step.leave [where u = u and k = k] sys_run.stop]) simp
    ultimately have "sys_run e y ([Join c segs] @ map (Frame c) ds @ [Leave c]) ?y2"
      by (intro run_append)
    moreover have "srv ?y2 = handle_client e c segs (srv y)"
      using Pair Joined ds by (simp add: handle_client_def)
    moreover have "phase ?y2 c = Closed" by simp
    ultimately show ?thesis by blast
  qed
qed

end
