(* ===== verification/Threads.thy ===== *)
theory Threads
  imports Security
begin

text \<open>
  The handler threads of the server, step by step. System takes the treatment of a frame, a
  handshake and a clean-up as one step each; here a handler is a program that gives up the
  processor between any two accesses to what the threads share: one section under
  \<open>state_lock\<close>, one \<open>sendall\<close>, one reading of the clock, one unlocked look at the table of
  clients. What was looked up may be stale when it is used.

  A program is a resumption: what it does next on whatever state it then finds, and the
  program that remains. The constructor is well-founded, so every program ends after finitely
  many steps of its own.
\<close>

section \<open>Programs\<close>

datatype prog = Done | Step "server \<Rightarrow> prog \<times> server"

text \<open>A program without interference.\<close>

primrec run_prog :: "prog \<Rightarrow> server \<Rightarrow> server" where
  "run_prog Done = (\<lambda>s. s)"
| "run_prog (Step f) = (\<lambda>s. (\<lambda>(r, s'). r s') (map_prod run_prog id (f s)))"

text \<open>\<open>send_payload\<close> with \<open>k\<close> after it; an exception ends the request.\<close>

definition send_prog :: "env \<Rightarrow> conn \<Rightarrow> bytes \<Rightarrow> json \<Rightarrow> prog \<Rightarrow> prog" where
  "send_prog e c key payload k =
     Step (\<lambda>s. case send_payload e c key payload s of
        (Inl x, s') \<Rightarrow> (Done, s')
      | (Inr _, s') \<Rightarrow> (k, s'))"

definition error_prog :: "env \<Rightarrow> conn \<Rightarrow> bytes \<Rightarrow> pystr \<Rightarrow> prog" where
  "error_prog e c key m = send_prog e c key (error_payload m) Done"

text \<open>The same inside \<open>try ... except Exception\<close> of \<open>broadcast_user_list\<close>: \<open>k\<close> in any case.\<close>

definition try_send_prog :: "env \<Rightarrow> conn \<Rightarrow> bytes \<Rightarrow> json \<Rightarrow> prog \<Rightarrow> prog" where
  "try_send_prog e c key payload k = Step (\<lambda>s. (k, snd (send_payload e c key payload s)))"

fun each_prog :: "env \<Rightarrow> json \<Rightarrow> (conn \<times> bytes) list \<Rightarrow> prog \<Rightarrow> prog" where
  "each_prog e payload [] k = k"
| "each_prog e payload ((c, key) # ts) k = try_send_prog e c key payload (each_prog e payload ts k)"

text \<open>Names and targets are read in one locked section, the sends come after it.\<close>

definition broadcast_prog :: "env \<Rightarrow> prog \<Rightarrow> prog" where
  "broadcast_prog e k =
     Step (\<lambda>s. (each_prog e (user_list_payload (dict_keys (clients s))) (map snd (clients s)) k, s))"

definition announce_prog :: "env \<Rightarrow> conn \<Rightarrow> bytes \<Rightarrow> prog \<Rightarrow> prog" where
  "announce_prog e c key k =
     Step (\<lambda>s. (try_send_prog e c key (user_list_payload (dict_keys (clients s)))
       (broadcast_prog e k), s))"

text \<open>The member loop: a lookup under the lock per member, then the send.\<close>

fun members_prog :: "env \<Rightarrow> pystr \<Rightarrow> json \<Rightarrow> pystr list \<Rightarrow> prog \<Rightarrow> prog" where
  "members_prog e username payload [] k = k"
| "members_prog e username payload (m # ms) k =
     Step (\<lambda>s. (case dict_get (clients s) m of
        Some (c, key) \<Rightarrow>
          if m \<noteq> username then send_prog e c key payload (members_prog e username payload ms k)
          else members_prog e username payload ms k
      | None \<Rightarrow> members_prog e username payload ms k, s))"

definition forward_prog :: "env \<Rightarrow> pystr \<Rightarrow> json \<Rightarrow> prog" where
  "forward_prog e to_user payload =
     Step (\<lambda>s. (case dict_get (clients s) to_user of
        None \<Rightarrow> Done
      | Some (c, key) \<Rightarrow> send_prog e c key payload Done, s))"

section \<open>Requests\<close>

definition create_group_prog :: "env \<Rightarrow> pystr \<Rightarrow> conn \<Rightarrow> bytes \<Rightarrow> jobject \<Rightarrow> prog" where
  "create_group_prog e username c key p =
     (let group_name = jget p (lit ''group_name'');
          members0 = jget_or p (lit ''members'') (JList [])
      in case is_safe_group_name group_name of
           Inl x \<Rightarrow> Done
         | Inr False \<Rightarrow> error_prog e c key (lit ''Invalid group name.'')
         | Inr True \<Rightarrow>
             (case members_ok members0 of
                Inl x \<Rightarrow> Done
              | Inr False \<Rightarrow> error_prog e c key (lit ''Invalid group members.'')
              | Inr True \<Rightarrow>
                  (let g = str_of group_name;
                       members = sorted_set (member_names members0 @ [username])
                   in Step (\<lambda>s.
                     if dict_get (groups s) g \<noteq> None
                     then (error_prog e c key (lit ''Group already exists.''), s)
                     else (members_prog e username (invite_payload g members) members
                             (send_prog e c key (created_payload g) Done),
                           s\<lparr>groups := dict_set (groups s) g members\<rparr>)))))"

definition group_message_prog :: "env \<Rightarrow> pystr \<Rightarrow> conn \<Rightarrow> bytes \<Rightarrow> jobject \<Rightarrow> prog" where
  "group_message_prog e username c key p =
     (let group_name = jget p (lit ''to'')
      in case is_safe_group_name group_name of
           Inl x \<Rightarrow> Done
         | Inr False \<Rightarrow> error_prog e c key (lit ''Invalid group name.'')
         | Inr True \<Rightarrow>
             (let g = str_of group_name
              in Step (\<lambda>s.
                (let members = group_members s g
                 in if members = [] \<or> username \<notin> set members
                    then error_prog e c key (lit ''Not a member of that group.'')
                    else Step (\<lambda>s1.
                      (members_prog e username (JObj (group_message_payload e g p s1)) members Done,
                       tick s1)), s))))"

definition message_prog :: "env \<Rightarrow> pystr \<Rightarrow> conn \<Rightarrow> bytes \<Rightarrow> jobject \<Rightarrow> prog" where
  "message_prog e username c key p =
     (let to_user = jget p (lit ''to'')
      in case is_safe_username to_user of
           Inl x \<Rightarrow> Done
         | Inr False \<Rightarrow> error_prog e c key (lit ''Invalid recipient username.'')
         | Inr True \<Rightarrow>
             (case check_message_size
                 (py_str (e_printable e) (jget_or p (lit ''payload'') (JStr []))) of
                Inl x \<Rightarrow> Done
              | Inr False \<Rightarrow>
                  error_prog e c key
                    (lit ''Message dropped. Exceeds limit of '' @ int_str (int MAX_MESSAGE_SIZE) @
                     lit ''.'')
              | Inr True \<Rightarrow>
                  Step (\<lambda>s. (forward_prog e (str_of to_user) (JObj (message_payload e p s)), tick s))))"

definition file_prog :: "env \<Rightarrow> pystr \<Rightarrow> conn \<Rightarrow> bytes \<Rightarrow> jobject \<Rightarrow> prog" where
  "file_prog e username c key p =
     (let file_data = jget p (lit ''payload'');
          file_to = file_target e p;
          filename = jget p (lit ''filename'');
          is_group = (jget p (lit ''to_type'') = JStr (lit ''group''))
      in if \<not> truthy file_data \<or> \<not> truthy filename then Done
         else if \<not> is_safe_transfer_filename (e_printable e) filename
         then error_prog e c key (lit ''Blocked dangerous filename.'')
         else if \<not> check_file_size file_data
         then error_prog e c key
                (lit ''Message dropped. Exceeds limit of '' @ int_str (int MAX_FILE_SIZE) @
                 lit '' bytes.'')
         else Step (\<lambda>s.
           (let payload = JObj (file_payload e p s)
            in if is_group then
                 (case is_safe_group_name (JStr file_to) of
                    Inl x \<Rightarrow> Done
                  | Inr False \<Rightarrow> error_prog e c key (lit ''Invalid group name.'')
                  | Inr True \<Rightarrow>
                      Step (\<lambda>s1.
                        (let members = group_members s1 file_to
                         in if members = [] \<or> username \<notin> set members
                            then error_prog e c key (lit ''Not a member of that group.'')
                            else members_prog e username payload members Done, s1)))
               else
                 (case is_safe_username (JStr file_to) of
                    Inl x \<Rightarrow> Done
                  | Inr False \<Rightarrow> error_prog e c key (lit ''Invalid recipient username.'')
                  | Inr True \<Rightarrow> forward_prog e file_to payload), tick s)))"

definition payload_prog :: "env \<Rightarrow> pystr \<Rightarrow> conn \<Rightarrow> bytes \<Rightarrow> jobject \<Rightarrow> prog" where
  "payload_prog e username c key p0 =
     (let p = dict_set p0 (lit ''from'') (JStr username); t = jget p (lit ''type'')
      in if t = JStr (lit ''create_group'') then create_group_prog e username c key p
         else if t = JStr (lit ''group_message'') then group_message_prog e username c key p
         else if t = JStr (lit ''message'') then message_prog e username c key p
         else if t = JStr (lit ''message_file'') \<or> t = JStr (lit ''group_file'')
         then file_prog e username c key p
         else Done)"

definition frame_prog :: "env \<Rightarrow> pystr \<Rightarrow> conn \<Rightarrow> bytes \<Rightarrow> bytes \<Rightarrow> prog" where
  "frame_prog e username c key data =
     (case rbind (decrypt_message (e_crypto e) data key) (loads (e_float e)) of
        Inl x \<Rightarrow> Done
      | Inr v \<Rightarrow>
          (case v of
             JObj p \<Rightarrow> payload_prog e username c key p
           | _ \<Rightarrow> Done))"

section \<open>Threads\<close>

text \<open>
  A handler before its handshake, with the segments its connection will ever deliver; in the
  frame loop, with its name and key, the program of the frame it treats and the bytes still
  to come; and after the loop.
\<close>

datatype thread = Connecting segments | Serving pystr bytes prog bytes | Leaving prog

definition close_prog :: "conn \<Rightarrow> prog" where
  "close_prog c = Step (\<lambda>s. (Done, s\<lparr>broken := (broken s)(c := True)\<rparr>))"

text \<open>The locked section of the \<open>finally\<close> block.\<close>

definition unregister :: "pystr option \<Rightarrow> conn \<Rightarrow> server \<Rightarrow> server" where
  "unregister username c s =
     (case username of
        None \<Rightarrow> s
      | Some u \<Rightarrow>
          (case dict_get (clients s) u of
             Some (c', _) \<Rightarrow> if c' = c then s\<lparr>clients := dict_del (clients s) u\<rparr> else s
           | None \<Rightarrow> s))"

definition leave_prog :: "env \<Rightarrow> conn \<Rightarrow> prog" where
  "leave_prog e c = broadcast_prog e (close_prog c)"

text \<open>
  One step of the thread of connection \<open>c\<close>. The lock is held from the test of the name to the
  registration (or to the refusal that is sent under it), so the handshake is one step.
\<close>

definition thread_step :: "env \<Rightarrow> conn \<Rightarrow> thread \<Rightarrow> server \<Rightarrow> thread \<times> server" where
  "thread_step e c t s =
     (case t of
        Connecting segs \<Rightarrow>
          (case handshake e c segs s of
             (Rejected u, s1) \<Rightarrow> (Leaving (Step (\<lambda>s. (leave_prog e c, unregister u c s))), s1)
           | (Joined u key inp, s1) \<Rightarrow> (Serving u key (announce_prog e c key Done) inp, s1))
      | Serving u key (Step f) inp \<Rightarrow> (Serving u key (fst (f s)) inp, snd (f s))
      | Serving u key Done inp \<Rightarrow>
          (case read_frame inp of
             (Inr (Some data), r) \<Rightarrow> (Serving u key (frame_prog e u c key data) r, s)
           | _ \<Rightarrow> (Leaving (leave_prog e c), unregister (Some u) c s))
      | Leaving (Step f) \<Rightarrow> (Leaving (fst (f s)), snd (f s))
      | Leaving Done \<Rightarrow> (Leaving Done, s))"

text \<open>The whole server: the shared state, a thread per connection, and any schedule.\<close>

record tsystem =
  mem :: server
  threads :: "conn \<Rightarrow> thread"

datatype choice = Run conn | Cut conn

definition set_thread :: "tsystem \<Rightarrow> conn \<Rightarrow> thread \<times> server \<Rightarrow> tsystem" where
  "set_thread y c ts = \<lparr>mem = snd ts, threads = (threads y)(c := fst ts)\<rparr>"

definition t_next :: "env \<Rightarrow> choice \<Rightarrow> tsystem \<Rightarrow> tsystem" where
  "t_next e ch y =
     (case ch of
        Run c \<Rightarrow> set_thread y c (thread_step e c (threads y c) (mem y))
      | Cut c \<Rightarrow> y\<lparr>mem := (mem y)\<lparr>broken := (broken (mem y))(c := True)\<rparr>\<rparr>)"

definition t_init :: "(conn \<Rightarrow> segments) \<Rightarrow> tsystem" where
  "t_init inputs = \<lparr>mem = init_server, threads = (\<lambda>c. Connecting (inputs c))\<rparr>"

definition t_exec :: "env \<Rightarrow> choice list \<Rightarrow> tsystem \<Rightarrow> tsystem" where
  "t_exec e sched y = foldl (\<lambda>y ch. t_next e ch y) y sched"

section \<open>A thread without interference\<close>

lemma prog_step_induct [case_names Done Step]:
  "P Done \<Longrightarrow> (\<And>f. (\<And>s. P (fst (f s))) \<Longrightarrow> P (Step f)) \<Longrightarrow> P p"
proof (induction p rule: prog.induct)
  case (Step f)
  have "P (fst (f s))" for s
    by (rule Step.IH [of "f s"]) (use Step.prems in \<open>auto simp: fsts.simps\<close>)
  then show ?case by (rule Step.prems(2))
qed

lemma run_Step [simp]: "run_prog (Step f) s = run_prog (fst (f s)) (snd (f s))"
  by (simp add: case_prod_unfold)

declare run_prog.simps(2) [simp del]

lemma run_send:
  "run_prog (send_prog e c k p q) s =
     (case send_payload e c k p s of (Inl x, s') \<Rightarrow> s' | (Inr _, s') \<Rightarrow> run_prog q s')"
  by (simp add: send_prog_def split: prod.splits sum.splits)

lemma run_send_Done [simp]: "run_prog (send_prog e c k p Done) s = snd (send_payload e c k p s)"
  by (simp add: run_send split: prod.splits sum.splits)

lemma run_error [simp]: "run_prog (error_prog e c k m) s = snd (send_error e c k m s)"
  by (simp add: error_prog_def send_error_def)

lemma run_each [simp]:
  "run_prog (each_prog e p ts q) s = run_prog q (send_each (send_payload e) p ts s)"
  by (induction ts arbitrary: s) (auto simp: try_send_prog_def)

lemma run_broadcast [simp]: "run_prog (broadcast_prog e q) s = run_prog q (broadcast_user_list e s)"
  by (simp add: broadcast_prog_def broadcast_user_list_def)

lemma run_announce [simp]: "run_prog (announce_prog e c k q) s = run_prog q (announce e c k s)"
  by (simp add: announce_prog_def announce_def try_send_prog_def)

lemma run_members:
  "run_prog (members_prog e u p ms q) s =
     (case send_members (send_payload e) u p ms s of
        (Inl x, s') \<Rightarrow> s' | (Inr _, s') \<Rightarrow> run_prog q s')"
  by (induction ms arbitrary: s) (auto simp: run_send split: prod.splits sum.splits option.splits)

lemma run_members_Done [simp]:
  "run_prog (members_prog e u p ms Done) s = snd (send_members (send_payload e) u p ms s)"
  by (simp add: run_members split: prod.splits sum.splits)

lemma run_forward [simp]:
  "run_prog (forward_prog e v p) s = snd (forward_payload e v p s)"
  by (simp add: forward_prog_def forward_payload_def split: option.splits)

text \<open>Each request program, run alone, is the handler of Server.\<close>

lemma run_create_group:
  "run_prog (create_group_prog e u c k p) s = snd (handle_create_group e u c k p s)"
  by (auto simp: create_group_prog_def handle_create_group_def Let_def run_members
      split: sum.splits bool.splits prod.splits)

lemma run_group_message:
  "run_prog (group_message_prog e u c k p) s = snd (handle_group_message e u c k p s)"
  by (auto simp: group_message_prog_def handle_group_message_def Let_def
      split: sum.splits bool.splits)

lemma run_message: "run_prog (message_prog e u c k p) s = snd (handle_message e u c k p s)"
  by (auto simp: message_prog_def handle_message_def Let_def split: sum.splits bool.splits)

lemma run_file: "run_prog (file_prog e u c k p) s = snd (handle_file e u c k p s)"
  by (auto simp: file_prog_def handle_file_def Let_def split: sum.splits bool.splits)

lemma run_frame: "run_prog (frame_prog e u c k d) s = process_frame e u c k d s"
  by (auto simp: frame_prog_def payload_prog_def process_frame_def handle_frame_def
      handle_payload_def Let_def run_create_group run_group_message run_message run_file
      split: sum.splits json.splits)

lemma run_leave: "run_prog (leave_prog e c) (unregister u c s) = cleanup e u c s"
  by (simp add: leave_prog_def close_prog_def unregister_def cleanup_def Let_def)

text \<open>The scheduler that runs one thread only.\<close>

lemma t_exec_simps [simp]:
  "t_exec e [] y = y" "t_exec e (ch # sched) y = t_exec e sched (t_next e ch y)"
  "t_exec e (sched @ sched') y = t_exec e sched' (t_exec e sched y)"
  by (simp_all add: t_exec_def)

definition runs_to :: "env \<Rightarrow> conn \<Rightarrow> tsystem \<Rightarrow> tsystem \<Rightarrow> bool" where
  "runs_to e c y y' \<longleftrightarrow> (\<exists>n. t_exec e (replicate n (Run c)) y = y')"

lemma runs_to_refl: "runs_to e c y y"
  unfolding runs_to_def by (intro exI [of _ 0]) simp

lemma runs_to_step: "runs_to e c (t_next e (Run c) y) y' \<Longrightarrow> runs_to e c y y'"
  unfolding runs_to_def by (elim exE, rule_tac x = "Suc n" in exI) simp

lemma runs_to_trans: "runs_to e c y y1 \<Longrightarrow> runs_to e c y1 y2 \<Longrightarrow> runs_to e c y y2"
  unfolding runs_to_def
  by (elim exE, rule_tac x = "n + na" in exI) (simp add: replicate_add)

lemma set_thread_simps [simp]:
  "mem (set_thread y c ts) = snd ts" "threads (set_thread y c ts) c = fst ts"
  "c' \<noteq> c \<Longrightarrow> threads (set_thread y c ts) c' = threads y c'"
  "set_thread (set_thread y c ts) c ts' = set_thread y c ts'"
  by (simp_all add: set_thread_def)

lemma set_thread_same: "threads y c = t \<Longrightarrow> mem y = s \<Longrightarrow> set_thread y c (t, s) = y"
  by (auto simp: set_thread_def fun_upd_idem)

lemma t_next_Run:
  "t_next e (Run c) y = set_thread y c (thread_step e c (threads y c) (mem y))"
  by (simp add: t_next_def)

lemma serving_runs:
  "threads y c = Serving u k p inp \<Longrightarrow>
   runs_to e c y (set_thread y c (Serving u k Done inp, run_prog p (mem y)))"
proof (induction p arbitrary: y rule: prog_step_induct)
  case Done
  then have "set_thread y c (Serving u k Done inp, mem y) = y" by (simp add: set_thread_same)
  then show ?case by (simp only: run_prog.simps runs_to_refl)
next
  case (Step f)
  let ?y = "t_next e (Run c) y"
  have y: "?y = set_thread y c (Serving u k (fst (f (mem y))) inp, snd (f (mem y)))"
    using Step.prems by (simp add: t_next_Run thread_step_def)
  show ?case
    by (rule runs_to_step) (use Step.IH [of ?y "mem y"] in \<open>simp add: y\<close>)
qed

lemma leaving_runs:
  "threads y c = Leaving p \<Longrightarrow>
   runs_to e c y (set_thread y c (Leaving Done, run_prog p (mem y)))"
proof (induction p arbitrary: y rule: prog_step_induct)
  case Done
  then have "set_thread y c (Leaving Done, mem y) = y" by (simp add: set_thread_same)
  then show ?case by (simp only: run_prog.simps runs_to_refl)
next
  case (Step f)
  let ?y = "t_next e (Run c) y"
  have y: "?y = set_thread y c (Leaving (fst (f (mem y))), snd (f (mem y)))"
    using Step.prems by (simp add: t_next_Run thread_step_def)
  show ?case
    by (rule runs_to_step) (use Step.IH [of ?y "mem y"] in \<open>simp add: y\<close>)
qed

lemma serve_runs:
  "threads y c = Serving u k Done inp \<Longrightarrow>
   runs_to e c y (set_thread y c (Leaving Done, cleanup e (Some u) c (snd (serve e u c k inp (mem y)))))"
proof (induction inp arbitrary: y rule: measure_induct_rule [of length])
  case (less inp)
  let ?y = "t_next e (Run c) y"
  obtain o' r where rf: "read_frame inp = (o', r)" by force
  have stop: ?case if no: "\<And>d. o' \<noteq> Inr (Some d)"
  proof -
    have no': "o' = Inr None \<or> (\<exists>x. o' = Inl x)" using no by (metis not_None_eq sumE)
    then have s: "snd (serve e u c k inp (mem y)) = mem y"
      by (subst serve.simps) (auto simp: rf)
    have y: "?y = set_thread y c (Leaving (leave_prog e c), unregister (Some u) c (mem y))"
      using no' less.prems by (auto simp: t_next_Run thread_step_def rf)
    show ?thesis
      by (rule runs_to_step, use leaving_runs [of ?y c "leave_prog e c" e] in \<open>simp add: y s run_leave\<close>)
  qed
  show ?case
  proof (cases "\<exists>d. o' = Inr (Some d)")
    case True
    then obtain d where d: "read_frame inp = (Inr (Some d), r)" using rf by blast
    have len: "length r < length inp" by (rule read_frame_shorter [OF d])
    have y: "?y = set_thread y c (Serving u k (frame_prog e u c k d) r, mem y)"
      using less.prems by (simp add: t_next_Run thread_step_def d)
    let ?z = "set_thread y c (Serving u k Done r, process_frame e u c k d (mem y))"
    have z: "runs_to e c ?y ?z"
      using serving_runs [of ?y c u k "frame_prog e u c k d" r e] by (simp add: y run_frame)
    have "runs_to e c ?z (set_thread ?z c (Leaving Done, cleanup e (Some u) c (snd (serve e u c k r (mem ?z)))))"
      using less.IH [OF len, of ?z] by simp
    then show ?thesis
      using runs_to_step [OF runs_to_trans [OF z]] by (simp add: serve_step [OF d])
  qed (use stop in blast)
qed

lemma connecting_runs:
  assumes "threads y c = Connecting segs"
  shows "runs_to e c y (set_thread y c (Leaving Done, handle_client e c segs (mem y)))"
proof -
  obtain r s1 where h: "handshake e c segs (mem y) = (r, s1)" by force
  let ?y = "t_next e (Run c) y"
  show ?thesis
  proof (cases r)
    case (Rejected v)
    have y: "?y = set_thread y c (Leaving (Step (\<lambda>s. (leave_prog e c, unregister v c s))), s1)"
      using assms by (simp add: t_next_Run thread_step_def h Rejected)
    show ?thesis
      by (rule runs_to_step, use leaving_runs [of ?y c _ e] in \<open>simp add: y run_leave handle_client_def h Rejected\<close>)
  next
    case (Joined u k inp)
    have y: "?y = set_thread y c (Serving u k (announce_prog e c k Done) inp, s1)"
      using assms by (simp add: t_next_Run thread_step_def h Joined)
    let ?z = "set_thread y c (Serving u k Done inp, announce e c k s1)"
    have "runs_to e c ?y ?z"
      using serving_runs [of ?y c u k _ inp e] by (simp add: y)
    moreover have "runs_to e c ?z (set_thread y c (Leaving Done, handle_client e c segs (mem y)))"
      using serve_runs [of ?z c u k inp e] by (simp add: handle_client_def h Joined)
    ultimately show ?thesis by (rule runs_to_step [OF runs_to_trans])
  qed
qed

end
