(* ===== verification/Guarantee.thy ===== *)
theory Guarantee
  imports Threads
begin

text \<open>
  What a handler thread guarantees, whatever the others do between its steps. A program is
  judged with the groups it has looked up so far, a map that the other threads may extend but
  not change; the judgement asks of every step that it keeps a relation between the state
  before and after it, in every state with a sound table of clients that agrees with the map.

  The rules for sends and loops are proved once, in the locale \<open>send_rules\<close>, and used for the
  threads in the frame loop and for those on their way out.
\<close>

section \<open>Programs that keep a relation\<close>

inductive prog_ok ::
  "(server \<Rightarrow> bool) \<Rightarrow> (server \<Rightarrow> server \<Rightarrow> bool) \<Rightarrow> (pystr \<rightharpoonup> pystr list) \<Rightarrow> prog \<Rightarrow> bool"
  for I R where
  halt_ok: "prog_ok I R G Done"
| step_ok: "(\<And>s. I s \<Longrightarrow> G \<subseteq>\<^sub>m dict_get (groups s) \<Longrightarrow> R s (snd (f s)) \<and>
      (\<exists>G'. G' \<subseteq>\<^sub>m dict_get (groups (snd (f s))) \<and> prog_ok I R G' (fst (f s)))) \<Longrightarrow>
    prog_ok I R G (Step f)"

inductive_cases prog_ok_StepE: "prog_ok I R G (Step f)"

declare halt_ok [simp]

text \<open>A look at the state: nothing changes, and a group that was seen may be remembered.\<close>

lemma look_ok:
  assumes "\<And>s. R s s"
    and "\<And>s. I s \<Longrightarrow> G \<subseteq>\<^sub>m dict_get (groups s) \<Longrightarrow>
      \<exists>G'. G' \<subseteq>\<^sub>m dict_get (groups s) \<and> prog_ok I R G' (f s)"
  shows "prog_ok I R G (Step (\<lambda>s. (f s, s)))"
  by (rule step_ok) (use assms in simp)

text \<open>
  The table of clients as the threads find it: names that pass the check, each with a
  connection and a key that are its own (\<open>K\<close>).
\<close>

definition known :: "(pystr \<Rightarrow> conn \<times> bytes \<Rightarrow> bool) \<Rightarrow> server \<Rightarrow> bool" where
  "known K s \<longleftrightarrow> dict_ok (clients s) \<and>
     (\<forall>u t. dict_get (clients s) u = Some t \<longrightarrow> K u t \<and> name_match 32 u)"

definition keeps ::
  "env \<Rightarrow> (pystr \<Rightarrow> conn \<times> bytes \<Rightarrow> bool) \<Rightarrow> (server \<Rightarrow> server \<Rightarrow> bool) \<Rightarrow>
   (server \<Rightarrow> delivery \<Rightarrow> bool) \<Rightarrow> server \<Rightarrow> server \<Rightarrow> bool" where
  "keeps e K T A s s' \<longleftrightarrow>
     T s s' \<and> emits (\<lambda>d. (\<exists>v. K v (target_of d)) \<and> well_sealed e d \<and> A s d) s s'"

lemma knownD:
  "known K s \<Longrightarrow> dict_get (clients s) u = Some t \<Longrightarrow> K u t"
  "known K s \<Longrightarrow> dict_get (clients s) u = Some t \<Longrightarrow> name_match 32 u"
  unfolding known_def by blast+

lemma known_in: "known K s \<Longrightarrow> (u, t) \<in> set (clients s) \<Longrightarrow> K u t"
  using knownD(1) dict_get_in unfolding known_def by metis

lemma known_names: "known K s \<Longrightarrow> list_all (name_match 32) (dict_keys (clients s))"
  by (auto simp: known_def list_all_iff in_dict_keys)

section \<open>Rules for sending\<close>

locale send_rules =
  fixes e :: env and K :: "pystr \<Rightarrow> conn \<times> bytes \<Rightarrow> bool"
    and I :: "server \<Rightarrow> bool" and T :: "server \<Rightarrow> server \<Rightarrow> bool" and A :: "server \<Rightarrow> delivery \<Rightarrow> bool"
  assumes I_known: "I s \<Longrightarrow> known K s"
    and T_same: "same_tables s s' \<Longrightarrow> T s s'"
    and A_list: "list_all (name_match 32) us \<Longrightarrow> d_payload d = user_list_payload us \<Longrightarrow> A s d"
begin

lemma keeps_refl: "keeps e K T A s s"
  by (simp add: keeps_def T_same emits_refl)

lemma keeps_send:
  assumes "K v (c, key)"
    and "\<And>d. d_payload d = wrap_payload p \<Longrightarrow> target_of d = (c, key) \<Longrightarrow> A s d"
  shows "keeps e K T A s (snd (send_payload e c key p s))"
proof -
  have "emits (\<lambda>d. (\<exists>v. K v (target_of d)) \<and> A s d) s (snd (send_payload e c key p s))"
    by (rule emits_send) (use assms in auto)
  from emits_conj [OF this send_payload_well_sealed]
  have "emits (\<lambda>d. (\<exists>v. K v (target_of d)) \<and> well_sealed e d \<and> A s d) s
      (snd (send_payload e c key p s))"
    by (rule emits_mono) simp
  then show ?thesis by (simp add: keeps_def T_same tr.send_tables)
qed

lemma send_groups [simp]: "groups (snd (send_payload e c key p s)) = groups s"
  using tr.send_tables [of s e c key p] by (simp add: same_tables_def)

lemma send_ok:
  assumes "K v (c, key)"
    and "\<And>s d. I s \<Longrightarrow> G \<subseteq>\<^sub>m dict_get (groups s) \<Longrightarrow> d_payload d = wrap_payload p \<Longrightarrow>
      target_of d = (c, key) \<Longrightarrow> A s d"
    and "prog_ok I (keeps e K T A) G q"
  shows "prog_ok I (keeps e K T A) G (send_prog e c key p q)"
  unfolding send_prog_def
proof (rule step_ok)
  fix s
  assume s: "I s" "G \<subseteq>\<^sub>m dict_get (groups s)"
  obtain r s' where r: "send_payload e c key p s = (r, s')" by force
  have "keeps e K T A s s'"
    using keeps_send [OF assms(1), of p s] assms(2) [OF s] by (simp add: r)
  moreover have "groups s' = groups s" using send_groups [of c key p s] by (simp add: r)
  ultimately show "keeps e K T A s (snd (case send_payload e c key p s of
        (Inl x, s') \<Rightarrow> (Done, s') | (Inr uu, s') \<Rightarrow> (q, s'))) \<and>
      (\<exists>G'. G' \<subseteq>\<^sub>m dict_get (groups (snd (case send_payload e c key p s of
          (Inl x, s') \<Rightarrow> (Done, s') | (Inr uu, s') \<Rightarrow> (q, s')))) \<and>
        prog_ok I (keeps e K T A) G' (fst (case send_payload e c key p s of
          (Inl x, s') \<Rightarrow> (Done, s') | (Inr uu, s') \<Rightarrow> (q, s'))))"
    using assms(3) s(2) by (cases r) (auto simp: r)
qed

lemma try_send_ok:
  assumes "K v (c, key)" and "list_all (name_match 32) us"
    and "prog_ok I (keeps e K T A) G q"
  shows "prog_ok I (keeps e K T A) G (try_send_prog e c key (user_list_payload us) q)"
  unfolding try_send_prog_def
proof (rule step_ok)
  fix s
  assume s: "I s" "G \<subseteq>\<^sub>m dict_get (groups s)"
  show "keeps e K T A s (snd (q, snd (send_payload e c key (user_list_payload us) s))) \<and>
      (\<exists>G'. G' \<subseteq>\<^sub>m dict_get (groups (snd (q, snd (send_payload e c key (user_list_payload us) s)))) \<and>
        prog_ok I (keeps e K T A) G' (fst (q, snd (send_payload e c key (user_list_payload us) s))))"
    using keeps_send [OF assms(1), of "user_list_payload us" s] A_list [OF assms(2)] assms(3) s(2)
    by auto
qed

lemma each_ok:
  assumes "list_all (name_match 32) us" and "prog_ok I (keeps e K T A) G q"
  shows "(\<And>t. t \<in> set ts \<Longrightarrow> \<exists>v. K v t) \<Longrightarrow>
    prog_ok I (keeps e K T A) G (each_prog e (user_list_payload us) ts q)"
proof (induction ts)
  case (Cons t ts)
  obtain c key where t: "t = (c, key)" by force
  obtain v where "K v (c, key)" using Cons.prems t by auto
  then show ?case
    unfolding t each_prog.simps using Cons by (intro try_send_ok assms(1)) auto
qed (simp add: assms(2))

lemma broadcast_ok:
  assumes "prog_ok I (keeps e K T A) G q"
  shows "prog_ok I (keeps e K T A) G (broadcast_prog e q)"
  unfolding broadcast_prog_def
proof (rule look_ok)
  fix s
  assume s: "I s" "G \<subseteq>\<^sub>m dict_get (groups s)"
  have "prog_ok I (keeps e K T A) G
      (each_prog e (user_list_payload (dict_keys (clients s))) (map snd (clients s)) q)"
    by (rule each_ok [OF known_names [OF I_known [OF s(1)]] assms]) (use known_in [OF I_known [OF s(1)]] in force)
  then show "\<exists>G'. G' \<subseteq>\<^sub>m dict_get (groups s) \<and> prog_ok I (keeps e K T A) G'
      (each_prog e (user_list_payload (dict_keys (clients s))) (map snd (clients s)) q)"
    using s(2) by blast
qed (rule keeps_refl)

lemma announce_ok:
  assumes "K v (c, key)" and "prog_ok I (keeps e K T A) G q"
  shows "prog_ok I (keeps e K T A) G (announce_prog e c key q)"
  unfolding announce_prog_def
proof (rule look_ok)
  fix s
  assume s: "I s" "G \<subseteq>\<^sub>m dict_get (groups s)"
  show "\<exists>G'. G' \<subseteq>\<^sub>m dict_get (groups s) \<and> prog_ok I (keeps e K T A) G'
      (try_send_prog e c key (user_list_payload (dict_keys (clients s))) (broadcast_prog e q))"
    using try_send_ok [OF assms(1) known_names [OF I_known [OF s(1)]] broadcast_ok [OF assms(2)]] s(2) by blast
qed (rule keeps_refl)

lemma member_loop_ok:
  assumes "\<And>s d m. I s \<Longrightarrow> G \<subseteq>\<^sub>m dict_get (groups s) \<Longrightarrow> m \<in> set ms0 \<Longrightarrow> m \<noteq> u \<Longrightarrow>
      K m (target_of d) \<Longrightarrow> d_payload d = wrap_payload p \<Longrightarrow> A s d"
    and "prog_ok I (keeps e K T A) G q"
  shows "set ms \<subseteq> set ms0 \<Longrightarrow> prog_ok I (keeps e K T A) G (members_prog e u p ms q)"
proof (induction ms)
  case (Cons m ms)
  then have ih: "prog_ok I (keeps e K T A) G (members_prog e u p ms q)" by simp
  have "prog_ok I (keeps e K T A) G (case dict_get (clients s) m of
      None \<Rightarrow> members_prog e u p ms q
    | Some (c, key) \<Rightarrow> if m \<noteq> u then send_prog e c key p (members_prog e u p ms q)
        else members_prog e u p ms q)" if "I s" for s
  proof (cases "dict_get (clients s) m")
    case (Some t)
    obtain c key where t: "t = (c, key)" by force
    have K: "K m (c, key)" using knownD(1) [OF I_known [OF that] Some] t by simp
    have "prog_ok I (keeps e K T A) G (send_prog e c key p (members_prog e u p ms q))" if "m \<noteq> u"
      using assms(1) Cons.prems that K by (intro send_ok [OF K _ ih]) auto
    then show ?thesis using ih by (simp add: Some t)
  qed (simp add: ih)
  then show ?case
    unfolding members_prog.simps by (intro look_ok keeps_refl) blast
qed (simp add: assms(2))

lemma forward_ok:
  assumes "\<And>s d. I s \<Longrightarrow> G \<subseteq>\<^sub>m dict_get (groups s) \<Longrightarrow> K v (target_of d) \<Longrightarrow>
      d_payload d = wrap_payload p \<Longrightarrow> A s d"
  shows "prog_ok I (keeps e K T A) G (forward_prog e v p)"
  unfolding forward_prog_def
proof (rule look_ok)
  fix s
  assume s: "I s" "G \<subseteq>\<^sub>m dict_get (groups s)"
  have "prog_ok I (keeps e K T A) G (case dict_get (clients s) v of
      None \<Rightarrow> Done | Some (c, key) \<Rightarrow> send_prog e c key p Done)"
  proof (cases "dict_get (clients s) v")
    case (Some t)
    obtain c key where t: "t = (c, key)" by force
    have K: "K v (c, key)" using knownD(1) [OF I_known [OF s(1)] Some] t by simp
    show ?thesis
      unfolding Some t using assms K by (auto intro!: send_ok [OF K])
  qed simp
  then show "\<exists>G'. G' \<subseteq>\<^sub>m dict_get (groups s) \<and> prog_ok I (keeps e K T A) G'
      (case dict_get (clients s) v of None \<Rightarrow> Done | Some (c, key) \<Rightarrow> send_prog e c key p Done)"
    using s(2) by blast
qed (rule keeps_refl)

lemma tick_ok:
  assumes "\<And>s. prog_ok I (keeps e K T A) G (q s)"
  shows "prog_ok I (keeps e K T A) G (Step (\<lambda>s. (q s, tick s)))"
proof (rule step_ok)
  fix s
  have "T s (tick s)" by (rule T_same) (simp add: same_tables_def)
  moreover assume "G \<subseteq>\<^sub>m dict_get (groups s)"
  ultimately show "keeps e K T A s (snd (q s, tick s)) \<and>
      (\<exists>G'. G' \<subseteq>\<^sub>m dict_get (groups (snd (q s, tick s))) \<and>
        prog_ok I (keeps e K T A) G' (fst (q s, tick s)))"
    using assms by (auto simp: keeps_def emits_refl)
qed

end

section \<open>The requests of a thread\<close>

text \<open>
  What the thread of user \<open>u\<close> on connection \<open>c\<close> may write, in terms of the state at the moment
  of the write: \<open>p\<close> is the request with the name of its sender in it, and \<open>K v t\<close> says that the
  connection and key \<open>t\<close> were set up by a handshake under the name \<open>v\<close>.
\<close>

inductive request_write ::
  "env \<Rightarrow> (pystr \<Rightarrow> conn \<times> bytes \<Rightarrow> bool) \<Rightarrow> pystr \<Rightarrow> conn \<Rightarrow> jobject \<Rightarrow> server \<Rightarrow> delivery \<Rightarrow> bool"
  for e K u c p s where
  rw_error: "d_payload d = error_payload m \<Longrightarrow> m \<in> set error_texts \<Longrightarrow> d_conn d = c \<Longrightarrow>
    request_write e K u c p s d"
| rw_created: "d_payload d = created_payload g \<Longrightarrow> in_group s g u \<Longrightarrow> d_conn d = c \<Longrightarrow>
    request_write e K u c p s d"
| rw_invite: "d_payload d = invite_payload g ms \<Longrightarrow> dict_get (groups s) g = Some ms \<Longrightarrow>
    name_match 48 g \<Longrightarrow> u \<in> set ms \<Longrightarrow> m \<in> set ms \<Longrightarrow> m \<noteq> u \<Longrightarrow> K m (target_of d) \<Longrightarrow>
    request_write e K u c p s d"
| rw_message: "jget p (lit ''type'') = JStr (lit ''message'') \<Longrightarrow>
    jget p (lit ''to'') = JStr v \<Longrightarrow> name_match 32 v \<Longrightarrow>
    check_message_size (py_str (e_printable e) (jget_or p (lit ''payload'') (JStr []))) = Inr True \<Longrightarrow>
    d_payload d = JObj (message_payload e p s0) \<Longrightarrow> K v (target_of d) \<Longrightarrow>
    request_write e K u c p s d"
| rw_group_message: "jget p (lit ''type'') = JStr (lit ''group_message'') \<Longrightarrow>
    jget p (lit ''to'') = JStr g \<Longrightarrow> in_group s g u \<Longrightarrow>
    d_payload d = JObj (group_message_payload e g p s0) \<Longrightarrow> in_group s g m \<Longrightarrow> m \<noteq> u \<Longrightarrow>
    K m (target_of d) \<Longrightarrow> request_write e K u c p s d"
| rw_file: "jget p (lit ''type'') \<in> {JStr (lit ''message_file''), JStr (lit ''group_file'')} \<Longrightarrow>
    file_accepted e p \<Longrightarrow> jget p (lit ''to_type'') \<noteq> JStr (lit ''group'') \<Longrightarrow>
    d_payload d = JObj (file_payload e p s0) \<Longrightarrow> K (file_target e p) (target_of d) \<Longrightarrow>
    request_write e K u c p s d"
| rw_group_file: "jget p (lit ''type'') \<in> {JStr (lit ''message_file''), JStr (lit ''group_file'')} \<Longrightarrow>
    file_accepted e p \<Longrightarrow> jget p (lit ''to_type'') = JStr (lit ''group'') \<Longrightarrow>
    in_group s (file_target e p) u \<Longrightarrow> d_payload d = JObj (file_payload e p s0) \<Longrightarrow>
    in_group s (file_target e p) m \<Longrightarrow> m \<noteq> u \<Longrightarrow> K m (target_of d) \<Longrightarrow>
    request_write e K u c p s d"

definition is_list :: "delivery \<Rightarrow> bool" where
  "is_list d \<longleftrightarrow> (\<exists>us. d_payload d = user_list_payload us \<and> list_all (name_match 32) us)"

definition thread_write ::
  "env \<Rightarrow> (pystr \<Rightarrow> conn \<times> bytes \<Rightarrow> bool) \<Rightarrow> pystr \<Rightarrow> conn \<Rightarrow> server \<Rightarrow> delivery \<Rightarrow> bool" where
  "thread_write e K u c s d \<longleftrightarrow>
     is_list d \<or> (\<exists>p. jget p (lit ''from'') = JStr u \<and> request_write e K u c p s d)"

definition thread_tables :: "pystr \<Rightarrow> server \<Rightarrow> server \<Rightarrow> bool" where
  "thread_tables u s s' \<longleftrightarrow> same_tables s s' \<or> adds_group u s s'"

definition thread_allows ::
  "env \<Rightarrow> (pystr \<Rightarrow> conn \<times> bytes \<Rightarrow> bool) \<Rightarrow> pystr \<Rightarrow> conn \<Rightarrow> server \<Rightarrow> delivery \<Rightarrow> bool" where
  "thread_allows e K u c s d \<longleftrightarrow>
     thread_write e K u c s d \<and> (env_ok e \<longrightarrow> payload_ok e (d_payload d))"

interpretation sr: send_rules e K "known K" "thread_tables u" "thread_allows e K u c" for e K u c
  by unfold_locales
    (auto simp: thread_tables_def thread_allows_def thread_write_def is_list_def user_list_payload_ok)

abbreviation thread_ok where
  "thread_ok e K u c \<equiv> prog_ok (known K) (keeps e K (thread_tables u) (thread_allows e K u c))"

lemma allows_request:
  assumes "jget p (lit ''from'') = JStr u" and "request_write e K u c p s d"
    and "env_ok e \<Longrightarrow> payload_ok e (d_payload d)"
  shows "thread_allows e K u c s d"
  using assms unfolding thread_allows_def thread_write_def by blast

lemma error_ok:
  assumes "K u (c, k)" and "m \<in> set error_texts"
  shows "thread_ok e K u c G (error_prog e c k m)"
proof -
  have "jget [(lit ''from'', JStr u)] (lit ''from'') = JStr u" by (simp add: jget_def dict_get_Cons)
  moreover have "request_write e K u c p s d"
    if "d_payload d = error_payload m" "target_of d = (c, k)" for p s d
    using that assms(2) by (intro rw_error) (auto simp: target_of_def)
  moreover have "payload_ok e (error_payload m)"
    using assms(2) by (intro error_payload_ok str_wf_ascii error_texts_ascii)
  ultimately show ?thesis
    unfolding error_prog_def
    by (intro sr.send_ok [where v = u] assms(1) halt_ok) (auto intro: allows_request)
qed

text \<open>A group that was seen is still there, with the same members, when it is used.\<close>

lemma seen_group: "[g \<mapsto> ms] \<subseteq>\<^sub>m dict_get (groups s) \<Longrightarrow> dict_get (groups s) g = Some ms"
  by (auto simp: map_le_def dom_def)

lemma seen_members: "[g \<mapsto> ms] \<subseteq>\<^sub>m dict_get (groups s) \<Longrightarrow> in_group s g m \<longleftrightarrow> m \<in> set ms"
  by (simp add: in_group_def group_members_def seen_group)

lemma sees_members:
  "group_members s g = ms \<Longrightarrow> ms \<noteq> [] \<Longrightarrow> [g \<mapsto> ms] \<subseteq>\<^sub>m dict_get (groups s)"
  by (auto simp: map_le_def group_members_def split: option.splits)

lemma message_prog_ok:
  assumes "K u (c, k)" and "jget p (lit ''from'') = JStr u"
    and "jget p (lit ''type'') = JStr (lit ''message'')" and "env_ok e \<Longrightarrow> payload_ok e (JObj p)"
  shows "thread_ok e K u c G (message_prog e u c k p)"
proof -
  have "thread_ok e K u c G (Step (\<lambda>s. (forward_prog e (str_of (jget p (lit ''to'')))
      (JObj (message_payload e p s)), tick s)))"
    if to: "is_safe_username (jget p (lit ''to'')) = Inr True"
      and size: "check_message_size (py_str (e_printable e) (jget_or p (lit ''payload'') (JStr []))) = Inr True"
  proof (rule sr.tick_ok, rule sr.forward_ok)
    fix s0 and s :: server and d
    assume d: "K (str_of (jget p (lit ''to''))) (target_of d)"
      "d_payload d = wrap_payload (JObj (message_payload e p s0))"
    obtain v where v: "jget p (lit ''to'') = JStr v" "name_match 32 v"
      using is_safe_username_True [OF to] by blast
    show "thread_allows e K u c s d"
      using d v assms by (intro allows_request [OF assms(2) rw_message [OF assms(3) v size]])
        (auto simp: str_of_def forwarded_payload_ok)
  qed
  then show ?thesis
    using error_ok [of K u c k] assms(1)
    by (auto simp: message_prog_def Let_def split: sum.splits bool.splits)
qed

lemma group_message_prog_ok:
  assumes "K u (c, k)" and "jget p (lit ''from'') = JStr u"
    and "jget p (lit ''type'') = JStr (lit ''group_message'')"
    and "env_ok e \<Longrightarrow> payload_ok e (JObj p)"
  shows "thread_ok e K u c Map.empty (group_message_prog e u c k p)"
proof -
  let ?g = "str_of (jget p (lit ''to''))"
  let ?loop = "\<lambda>ms s1. members_prog e u (JObj (group_message_payload e ?g p s1)) ms Done"
  have loop: "thread_ok e K u c [?g \<mapsto> ms] (?loop ms s1)"
    if to: "is_safe_group_name (jget p (lit ''to'')) = Inr True" and "u \<in> set ms" for ms s1
  proof (rule sr.member_loop_ok [where ?ms0.0 = ms])
    fix s :: server and d m
    assume d: "[?g \<mapsto> ms] \<subseteq>\<^sub>m dict_get (groups s)" "m \<in> set ms" "m \<noteq> u" "K m (target_of d)"
      "d_payload d = wrap_payload (JObj (group_message_payload e ?g p s1))"
    obtain g where g: "jget p (lit ''to'') = JStr g" "name_match 48 g"
      using is_safe_group_name_True [OF to] by blast
    show "thread_allows e K u c s d"
      using d g assms that seen_members [OF d(1)]
      by (intro allows_request [OF assms(2) rw_group_message [OF assms(3) g(1)]])
        (auto simp: str_of_def forwarded_payload_ok)
  qed simp_all
  have "thread_ok e K u c Map.empty (Step (\<lambda>s. (let members = group_members s ?g in
      if members = [] \<or> u \<notin> set members
      then error_prog e c k (lit ''Not a member of that group.'')
      else Step (\<lambda>s1. (?loop members s1, tick s1)), s)))"
    if "is_safe_group_name (jget p (lit ''to'')) = Inr True"
  proof (rule look_ok)
    fix s
    let ?ms = "group_members s ?g"
    show "\<exists>G'. G' \<subseteq>\<^sub>m dict_get (groups s) \<and> thread_ok e K u c G' (let members = ?ms in
      if members = [] \<or> u \<notin> set members
      then error_prog e c k (lit ''Not a member of that group.'')
      else Step (\<lambda>s1. (?loop members s1, tick s1)))"
    proof (cases "?ms = [] \<or> u \<notin> set ?ms")
      case True
      then show ?thesis using error_ok [of K u c k] assms(1) by (auto intro!: exI [of _ Map.empty])
    next
      case False
      then show ?thesis
        using sees_members [of s ?g] loop [OF that]
        by (intro exI [of _ "[?g \<mapsto> ?ms]"]) (auto intro!: sr.tick_ok)
    qed
  qed (rule sr.keeps_refl)
  then show ?thesis
    using error_ok [of K u c k] assms(1)
    by (auto simp: group_message_prog_def Let_def split: sum.splits bool.splits)
qed

lemma file_prog_ok:
  assumes "K u (c, k)" and "jget p (lit ''from'') = JStr u"
    and "jget p (lit ''type'') \<in> {JStr (lit ''message_file''), JStr (lit ''group_file'')}"
    and "env_ok e \<Longrightarrow> payload_ok e (JObj p)"
  shows "thread_ok e K u c Map.empty (file_prog e u c k p)"
proof -
  let ?v = "file_target e p"
  have direct: "thread_ok e K u c G (forward_prog e ?v (JObj (file_payload e p s0)))"
    if "file_accepted e p" "jget p (lit ''to_type'') \<noteq> JStr (lit ''group'')" for G s0
  proof (rule sr.forward_ok)
    fix s :: server and d
    assume "K ?v (target_of d)" "d_payload d = wrap_payload (JObj (file_payload e p s0))"
    then show "thread_allows e K u c s d"
      using assms by (intro allows_request [OF assms(2) rw_file [OF assms(3) that]])
        (auto simp: forwarded_payload_ok)
  qed
  have loop: "thread_ok e K u c [?v \<mapsto> ms] (members_prog e u (JObj (file_payload e p s0)) ms Done)"
    if acc: "file_accepted e p" "jget p (lit ''to_type'') = JStr (lit ''group'')" and "u \<in> set ms" for ms s0
  proof (rule sr.member_loop_ok [where ?ms0.0 = ms])
    fix s :: server and d m
    assume d: "[?v \<mapsto> ms] \<subseteq>\<^sub>m dict_get (groups s)" "m \<in> set ms" "m \<noteq> u" "K m (target_of d)"
      "d_payload d = wrap_payload (JObj (file_payload e p s0))"
    then show "thread_allows e K u c s d"
      using assms that seen_members [OF d(1)]
      by (intro allows_request [OF assms(2) rw_group_file [OF assms(3) acc]])
        (auto simp: forwarded_payload_ok)
  qed simp_all
  have group: "thread_ok e K u c Map.empty (Step (\<lambda>s1. (let members = group_members s1 ?v in
      if members = [] \<or> u \<notin> set members
      then error_prog e c k (lit ''Not a member of that group.'')
      else members_prog e u (JObj (file_payload e p s0)) members Done, s1)))"
    if acc: "file_accepted e p" "jget p (lit ''to_type'') = JStr (lit ''group'')" for s0
  proof (rule look_ok)
    fix s
    let ?ms = "group_members s ?v"
    show "\<exists>G'. G' \<subseteq>\<^sub>m dict_get (groups s) \<and> thread_ok e K u c G' (let members = ?ms in
      if members = [] \<or> u \<notin> set members
      then error_prog e c k (lit ''Not a member of that group.'')
      else members_prog e u (JObj (file_payload e p s0)) members Done)"
    proof (cases "?ms = [] \<or> u \<notin> set ?ms")
      case True
      then show ?thesis using error_ok [of K u c k] assms(1) by (auto intro!: exI [of _ Map.empty])
    next
      case False
      then show ?thesis
        using sees_members [of s ?v] loop [OF acc] by (intro exI [of _ "[?v \<mapsto> ?ms]"]) auto
    qed
  qed (rule sr.keeps_refl)
  show ?thesis
    unfolding file_prog_def Let_def [of "jget p _"] Let_def [of "file_target e p"] Let_def [of "_ = _"]
    using error_ok [of K u c k] assms(1) direct group
    by (auto simp: file_accepted_def Let_def [of "JObj _"] intro!: sr.tick_ok
        split: sum.splits bool.splits)
qed

lemma create_group_prog_ok:
  assumes "K u (c, k)" and "jget p (lit ''from'') = JStr u" and "name_match 32 u"
  shows "thread_ok e K u c Map.empty (create_group_prog e u c k p)"
proof -
  let ?g = "str_of (jget p (lit ''group_name''))"
  let ?ms = "sorted_set (member_names (jget_or p (lit ''members'') (JList [])) @ [u])"
  let ?f = "\<lambda>s. if dict_get (groups s) ?g \<noteq> None
     then (error_prog e c k (lit ''Group already exists.''), s)
     else (members_prog e u (invite_payload ?g ?ms) ?ms (send_prog e c k (created_payload ?g) Done),
       s\<lparr>groups := dict_set (groups s) ?g ?ms\<rparr>)"
  have "thread_ok e K u c Map.empty (Step ?f)"
    if a: "is_safe_group_name (jget p (lit ''group_name'')) = Inr True"
      "members_ok (jget_or p (lit ''members'') (JList [])) = Inr True"
  proof (rule step_ok)
    fix s
    have g: "name_match 48 ?g" using is_safe_group_name_True [OF a(1)] by (auto simp: str_of_def)
    have ms: "u \<in> set ?ms" "list_all (\<lambda>m. m = u \<or> name_match 32 m) ?ms"
      using members_ok_True [OF a(2)] by (auto simp: list_all_iff)
    then have ms32: "list_all (name_match 32) ?ms" using assms(3) by (auto simp: list_all_iff)
    have ack: "thread_ok e K u c [?g \<mapsto> ?ms] (send_prog e c k (created_payload ?g) Done)"
    proof (rule sr.send_ok [where K = K and v = u, OF assms(1)])
      fix s :: server and d
      assume d: "[?g \<mapsto> ?ms] \<subseteq>\<^sub>m dict_get (groups s)" "d_payload d = wrap_payload (created_payload ?g)"
        "target_of d = (c, k)"
      have "in_group s ?g u" using seen_members [OF d(1)] ms(1) by simp
      then show "thread_allows e K u c s d"
        using d g by (intro allows_request [OF assms(2) rw_created])
          (auto simp: target_of_def created_payload_ok)
    qed simp
    have loop: "thread_ok e K u c [?g \<mapsto> ?ms] (members_prog e u (invite_payload ?g ?ms) ?ms
        (send_prog e c k (created_payload ?g) Done))"
    proof (rule sr.member_loop_ok [where ?ms0.0 = ?ms, OF _ ack])
      fix s :: server and d m
      assume d: "[?g \<mapsto> ?ms] \<subseteq>\<^sub>m dict_get (groups s)" "m \<in> set ?ms" "m \<noteq> u" "K m (target_of d)"
        "d_payload d = wrap_payload (invite_payload ?g ?ms)"
      show "thread_allows e K u c s d"
        using d g ms ms32 by (intro allows_request [OF assms(2) rw_invite [OF _ seen_group [OF d(1)]]])
          (auto simp: invite_payload_ok)
    qed simp
    show "keeps e K (thread_tables u) (thread_allows e K u c) s (snd (?f s)) \<and>
        (\<exists>G'. G' \<subseteq>\<^sub>m dict_get (groups (snd (?f s))) \<and> thread_ok e K u c G' (fst (?f s)))"
    proof (cases "dict_get (groups s) ?g = None")
      case False
      have "thread_ok e K u c Map.empty (error_prog e c k (lit ''Group already exists.''))"
        by (rule error_ok [where K = K and u = u, OF assms(1)]) simp
      then show ?thesis using False sr.keeps_refl by (auto intro!: exI [of _ Map.empty])
    next
      case True
      let ?s = "s\<lparr>groups := dict_set (groups s) ?g ?ms\<rparr>"
      have "adds_group u s ?s"
        unfolding adds_group_def using True g ms
        by (intro conjI exI [of _ ?g] exI [of _ ?ms]) simp_all
      then have "keeps e K (thread_tables u) (thread_allows e K u c) s ?s"
        by (simp add: keeps_def thread_tables_def emits_refl)
      moreover have "[?g \<mapsto> ?ms] \<subseteq>\<^sub>m dict_get (groups ?s)" by (simp add: map_le_def)
      ultimately show ?thesis using True loop by auto
    qed
  qed
  moreover have "thread_ok e K u c Map.empty (error_prog e c k m)" if "m \<in> set error_texts" for m
    by (rule error_ok [where K = K and u = u, OF assms(1) that])
  ultimately show ?thesis
    unfolding create_group_prog_def Let_def by (auto split: sum.splits bool.splits)
qed

lemma frame_prog_ok:
  assumes "K u (c, k)" and "name_match 32 u"
  shows "thread_ok e K u c Map.empty (frame_prog e u c k d)"
proof (cases "frame_payload e k d")
  case None
  then have "frame_prog e u c k d = Done"
    by (auto simp: frame_prog_def frame_payload_def split: sum.splits json.splits)
  then show ?thesis by simp
next
  case (Some p0)
  let ?p = "dict_set p0 (lit ''from'') (JStr u)"
  have fp: "frame_prog e u c k d = payload_prog e u c k p0"
    using Some by (auto simp: frame_prog_def frame_payload_def split: sum.splits json.splits)
  have p: "jget ?p (lit ''from'') = JStr u" by simp
  have wf: "env_ok e \<Longrightarrow> payload_ok e (JObj ?p)" by (rule frame_payload_ok [OF Some _ assms(2)])
  show ?thesis
    unfolding fp payload_prog_def Let_def
    using message_prog_ok [where K = K and e = e, OF assms(1) p _ wf] group_message_prog_ok [where K = K and e = e, OF assms(1) p _ wf]
      file_prog_ok [where K = K and e = e, OF assms(1) p _ wf] create_group_prog_ok [where K = K and e = e, OF assms(1) p assms(2)]
    by simp
qed

end
