(* ===== verification/Interleave.thy ===== *)
theory Interleave
  imports Guarantee
begin

text \<open>
  The server under every schedule of its threads: what one step of one thread does, the
  invariants of all reachable states, and the abstract chat that the interleaved server still
  refines.
\<close>

section \<open>What a handshake sets up\<close>

text \<open>The name and the key that the bytes of a connection stand for, independent of any state.\<close>

definition session :: "env \<Rightarrow> segments \<Rightarrow> (pystr \<times> bytes) option" where
  "session e segs =
     (case recv_exact_socket segs 256 of
        (Inl x, _) \<Rightarrow> None
      | (Inr w, segs1) \<Rightarrow>
          (case rsa_unwrap (e_crypto e) (e_private e) w of
             None \<Rightarrow> None
           | Some key \<Rightarrow>
               (case utf8_decode (fst (recv 1024 segs1)) of
                  Inl x \<Rightarrow> None
                | Inr t \<Rightarrow> Some (str_strip t, key))))"

definition owns :: "env \<Rightarrow> (conn \<Rightarrow> segments) \<Rightarrow> pystr \<Rightarrow> conn \<times> bytes \<Rightarrow> bool" where
  "owns e inputs u t \<longleftrightarrow> session e (inputs (fst t)) = Some (u, snd t)"

lemma handshake_session:
  "handshake e c segs s = (Joined u k inp, s1) \<Longrightarrow> session e segs = Some (u, k)"
  by (auto simp: handshake_def session_def Let_def simp del: not_None_eq
      split: prod.splits sum.splits option.splits if_splits)

lemma refused_session:
  "handshake e c segs s = (Rejected v, s1) \<Longrightarrow>
   s1 = s \<or> (\<exists>u k m. session e segs = Some (u, k) \<and> s1 = snd (send_error e c k (lit m) s))"
  by (auto simp: handshake_def session_def Let_def simp del: not_None_eq
      split: prod.splits sum.splits option.splits if_splits)

section \<open>Threads on their way out\<close>

definition unlisted :: "(pystr \<Rightarrow> conn \<times> bytes \<Rightarrow> bool) \<Rightarrow> conn \<Rightarrow> server \<Rightarrow> bool" where
  "unlisted K c s \<longleftrightarrow> known K s \<and> (\<forall>u k. dict_get (clients s) u \<noteq> Some (c, k))"

definition leave_tables :: "conn \<Rightarrow> server \<Rightarrow> server \<Rightarrow> bool" where
  "leave_tables c s s' \<longleftrightarrow>
     clients s' = clients s \<and> groups s' = groups s \<and> (\<forall>c'. broken s c' \<longrightarrow> broken s' c') \<and>
     (\<forall>c'. c' \<noteq> c \<longrightarrow> broken s' c' = broken s c')"

interpretation lr: send_rules e K "unlisted K c" "leave_tables c" "\<lambda>s d. is_list d" for e K c
  by unfold_locales (auto simp: unlisted_def leave_tables_def same_tables_def is_list_def)

abbreviation leaving_ok where
  "leaving_ok e K c \<equiv> prog_ok (unlisted K c) (keeps e K (leave_tables c) (\<lambda>s d. is_list d))"

lemma leave_prog_ok: "leaving_ok e K c Map.empty (leave_prog e c)"
proof -
  have "leaving_ok e K c Map.empty (close_prog c)"
    unfolding close_prog_def
    by (rule step_ok) (auto simp: keeps_def leave_tables_def emits_refl intro: exI [of _ Map.empty])
  then show ?thesis unfolding leave_prog_def by (rule lr.broadcast_ok)
qed

lemma unregister_unlisted: "unlisted K c s \<Longrightarrow> unregister v c s = s"
  by (auto simp: unregister_def unlisted_def split: option.splits)

lemma refused_prog_ok:
  "leaving_ok e K c Map.empty (Step (\<lambda>s. (leave_prog e c, unregister v c s)))"
proof (rule step_ok)
  fix s
  assume "unlisted K c s"
  then show "keeps e K (leave_tables c) (\<lambda>s d. is_list d) s (snd (leave_prog e c, unregister v c s)) \<and>
      (\<exists>G'. G' \<subseteq>\<^sub>m dict_get (groups (snd (leave_prog e c, unregister v c s))) \<and>
        leaving_ok e K c G' (fst (leave_prog e c, unregister v c s)))"
    using leave_prog_ok [of K c e]
    by (auto simp: unregister_unlisted lr.keeps_refl intro!: exI [of _ Map.empty])
qed

section \<open>One step of one thread\<close>

definition refusal :: "env \<Rightarrow> (pystr \<Rightarrow> conn \<times> bytes \<Rightarrow> bool) \<Rightarrow> conn \<Rightarrow> delivery \<Rightarrow> bool" where
  "refusal e K c d \<longleftrightarrow>
     d_conn d = c \<and> (\<exists>v. K v (target_of d)) \<and> well_sealed e d \<and>
     (\<exists>m. d_payload d = error_payload (lit m))"

inductive t_effect ::
  "env \<Rightarrow> (pystr \<Rightarrow> conn \<times> bytes \<Rightarrow> bool) \<Rightarrow> conn \<Rightarrow> thread \<times> server \<Rightarrow> thread \<times> server \<Rightarrow> bool"
  for e K c where
  te_join: "dict_get (clients s) u = None \<Longrightarrow> name_match 32 u \<Longrightarrow> K u (c, k) \<Longrightarrow>
    t_effect e K c (Connecting segs, s)
      (Serving u k (announce_prog e c k Done) inp, s\<lparr>clients := dict_set (clients s) u (c, k)\<rparr>)"
| te_refuse: "same_tables s s' \<Longrightarrow> emits (refusal e K c) s s' \<Longrightarrow>
    t_effect e K c (Connecting segs, s)
      (Leaving (Step (\<lambda>s. (leave_prog e c, unregister v c s))), s')"
| te_serve: "keeps e K (thread_tables u) (thread_allows e K u c) s s' \<Longrightarrow>
    G \<subseteq>\<^sub>m dict_get (groups s') \<Longrightarrow> thread_ok e K u c G p' \<Longrightarrow>
    t_effect e K c (Serving u k p inp, s) (Serving u k p' inp', s')"
| te_exit: "t_effect e K c (Serving u k p inp, s)
    (Leaving (leave_prog e c), s\<lparr>clients := dict_del (clients s) u\<rparr>)"
| te_left: "keeps e K (leave_tables c) (\<lambda>s d. is_list d) s s' \<Longrightarrow>
    G \<subseteq>\<^sub>m dict_get (groups s') \<Longrightarrow> leaving_ok e K c G p' \<Longrightarrow>
    t_effect e K c (Leaving p, s) (Leaving p', s')"

text \<open>What is known of a thread between its steps.\<close>

definition thread_good ::
  "env \<Rightarrow> (conn \<Rightarrow> segments) \<Rightarrow> server \<Rightarrow> conn \<Rightarrow> thread \<Rightarrow> bool" where
  "thread_good e inputs s c t \<longleftrightarrow>
     (case t of
        Connecting segs \<Rightarrow> segs = inputs c
      | Serving u k p inp \<Rightarrow>
          dict_get (clients s) u = Some (c, k) \<and>
          (\<exists>G. G \<subseteq>\<^sub>m dict_get (groups s) \<and> thread_ok e (owns e inputs) u c G p)
      | Leaving p \<Rightarrow> (\<exists>G. G \<subseteq>\<^sub>m dict_get (groups s) \<and> leaving_ok e (owns e inputs) c G p))"

definition listed_good :: "tsystem \<Rightarrow> bool" where
  "listed_good y \<longleftrightarrow>
     (\<forall>u c k. dict_get (clients (mem y)) u = Some (c, k) \<longrightarrow>
        (\<exists>p inp. threads y c = Serving u k p inp))"

lemma thread_step_effect:
  assumes "known (owns e inputs) s" and "thread_good e inputs s c t"
    and "\<And>p u k. t = Leaving p \<Longrightarrow> dict_get (clients s) u \<noteq> Some (c, k)"
  shows "t_effect e (owns e inputs) c (t, s) (thread_step e c t s)"
proof (cases t)
  case (Connecting segs)
  then have segs: "segs = inputs c" using assms(2) by (simp add: thread_good_def)
  obtain r s1 where h: "handshake e c segs s = (r, s1)" by force
  show ?thesis
  proof (cases r)
    case (Rejected v)
    have emits: "emits (refusal e (owns e inputs) c) s s1"
      using refused_session [OF h [unfolded Rejected]]
    proof (elim disjE exE conjE)
      fix u k m
      assume k: "session e segs = Some (u, k)" and s1: "s1 = snd (send_error e c k (lit m) s)"
      have "emits (\<lambda>d. d_payload d = error_payload (lit m) \<and> target_of d = (c, k)) s s1"
        unfolding s1 by (rule emits_error) simp
      moreover have "emits (well_sealed e) s s1"
        unfolding s1 send_error_def by (rule send_payload_well_sealed)
      ultimately show ?thesis
        by (rule emits_mono [OF emits_conj])
          (use k segs in \<open>auto simp: refusal_def owns_def target_of_def\<close>)
    qed (simp add: emits_refl)
    show ?thesis
      using te_refuse [OF handshake_Rejected [OF h [unfolded Rejected]] emits]
      by (simp add: Connecting thread_step_def h Rejected)
  next
    case (Joined u k inp)
    note j = handshake_Joined [OF h [unfolded Joined]]
    have "owns e inputs u (c, k)"
      using handshake_session [OF h [unfolded Joined]] segs by (simp add: owns_def)
    then show ?thesis
      using te_join [OF j(1,2)] by (simp add: Connecting thread_step_def h Joined j(3))
  qed
next
  case (Serving u k p inp)
  then have reg: "dict_get (clients s) u = Some (c, k)"
    and "\<exists>G. G \<subseteq>\<^sub>m dict_get (groups s) \<and> thread_ok e (owns e inputs) u c G p"
    using assms(2) by (simp_all add: thread_good_def)
  then obtain G where G: "G \<subseteq>\<^sub>m dict_get (groups s)" "thread_ok e (owns e inputs) u c G p" by blast
  have K: "owns e inputs u (c, k)" "name_match 32 u" using knownD [OF assms(1) reg] by simp_all
  show ?thesis
  proof (cases p)
    case (Step f)
    from prog_ok_StepE [OF G(2) [unfolded Step]] assms(1) G(1)
    show ?thesis
      by (auto simp: Serving Step thread_step_def intro: te_serve)
  next
    case Done
    obtain o' r where rf: "read_frame inp = (o', r)" by force
    have keep: "keeps e (owns e inputs) (thread_tables u) (thread_allows e (owns e inputs) u c) s s"
      by (rule sr.keeps_refl)
    show ?thesis
    proof (cases "\<exists>d. o' = Inr (Some d)")
      case True
      then obtain d where d: "read_frame inp = (Inr (Some d), r)" using rf by blast
      show ?thesis
        using te_serve [OF keep _ frame_prog_ok [of "owns e inputs", OF K, of e d]]
        by (simp add: Serving Done thread_step_def d)
    next
      case False
      then have "o' = Inr None \<or> (\<exists>x. o' = Inl x)" by (metis not_None_eq sumE)
      then show ?thesis
        using te_exit [of e "owns e inputs" c u k p inp s]
        by (auto simp: Serving Done thread_step_def rf unregister_def reg)
    qed
  qed
next
  case (Leaving p)
  then obtain G where G: "G \<subseteq>\<^sub>m dict_get (groups s)" "leaving_ok e (owns e inputs) c G p"
    using assms(2) by (auto simp: thread_good_def)
  have un: "unlisted (owns e inputs) c s" using assms(1,3) Leaving by (simp add: unlisted_def)
  show ?thesis
  proof (cases p)
    case (Step f)
    from prog_ok_StepE [OF G(2) [unfolded Step]] un G(1)
    show ?thesis by (auto simp: Leaving Step thread_step_def intro: te_left)
  next
    case Done
    show ?thesis
      using te_left [OF lr.keeps_refl G(1) G(2)] by (simp add: Leaving Done thread_step_def)
  qed
qed

section \<open>Invariants of every schedule\<close>

definition groups_good :: "server \<Rightarrow> bool" where
  "groups_good s \<longleftrightarrow>
     dict_ok (groups s) \<and> (\<forall>g ms. dict_get (groups s) g = Some ms \<longrightarrow> group_ok g ms)"

definition log_good :: "env \<Rightarrow> (pystr \<Rightarrow> conn \<times> bytes \<Rightarrow> bool) \<Rightarrow> delivery \<Rightarrow> bool" where
  "log_good e K d \<longleftrightarrow>
     (\<exists>v. K v (target_of d)) \<and> well_sealed e d \<and> (env_ok e \<longrightarrow> payload_ok e (d_payload d))"

definition t_inv :: "env \<Rightarrow> (conn \<Rightarrow> segments) \<Rightarrow> tsystem \<Rightarrow> bool" where
  "t_inv e inputs y \<longleftrightarrow>
     known (owns e inputs) (mem y) \<and> listed_good y \<and> groups_good (mem y) \<and>
     (\<forall>c. thread_good e inputs (mem y) c (threads y c)) \<and>
     list_all (log_good e (owns e inputs)) (sent (mem y))"

lemma adds_group_grows: "adds_group u s s' \<Longrightarrow> dict_get (groups s) \<subseteq>\<^sub>m dict_get (groups s')"
  by (auto simp: adds_group_def map_le_def)

lemma thread_tables_grows: "thread_tables u s s' \<Longrightarrow> dict_get (groups s) \<subseteq>\<^sub>m dict_get (groups s')"
  unfolding thread_tables_def using adds_group_grows by (auto simp: same_tables_def)

lemma thread_tables_clients: "thread_tables u s s' \<Longrightarrow> clients s' = clients s"
  by (auto simp: thread_tables_def same_tables_def adds_group_def)

lemma effect_grows:
  "t_effect e K c (t, s) (t', s') \<Longrightarrow> dict_get (groups s) \<subseteq>\<^sub>m dict_get (groups s')"
  by (erule t_effect.cases)
    (auto simp: same_tables_def keeps_def leave_tables_def dest: thread_tables_grows)

lemma effect_groups:
  assumes "t_effect e K c (t, s) (t', s')" and "groups_good s" and "known K s"
    and "\<And>u k p inp. t = Serving u k p inp \<Longrightarrow> dict_get (clients s) u = Some (c, k)"
  shows "groups_good s'"
  using assms(1)
proof (cases rule: t_effect.cases)
  case (te_serve u G p' k p inp inp')
  have u: "name_match 32 u" using knownD(2) [OF assms(3)] assms(4) te_serve by blast
  have "thread_tables u s s'" using te_serve by (simp add: keeps_def)
  then show ?thesis
    unfolding thread_tables_def
  proof
    assume "adds_group u s s'"
    then obtain g ms where g: "groups s' = dict_set (groups s) g ms" "name_match 48 g"
      "u \<in> set ms" "sorted ms" "distinct ms" "list_all (\<lambda>m. m = u \<or> name_match 32 m) ms"
      by (auto simp: adds_group_def)
    then have "group_ok g ms" using u by (auto simp: group_ok_def list_all_iff)
    then show ?thesis using assms(2) dict_ok_set unfolding groups_good_def by (auto simp: g(1))
  qed (use assms(2) in \<open>simp add: groups_good_def same_tables_def\<close>)
qed (use assms(2) in \<open>auto simp: groups_good_def same_tables_def keeps_def leave_tables_def\<close>)

lemma is_list_ok: "is_list d \<Longrightarrow> payload_ok e (d_payload d)"
  by (auto simp: is_list_def user_list_payload_ok)

lemma effect_log:
  "t_effect e K c (t, s) (t', s') \<Longrightarrow> emits (log_good e K) s s'"
  by (erule t_effect.cases)
    (auto simp: keeps_def log_good_def refusal_def thread_allows_def is_list_ok error_payload_ok
      intro: emits_refl elim!: emits_mono)

lemma thread_good_mono:
  assumes "thread_good e inputs s c t" and "dict_get (groups s) \<subseteq>\<^sub>m dict_get (groups s')"
    and "\<And>u k p inp. t = Serving u k p inp \<Longrightarrow> dict_get (clients s') u = Some (c, k)"
  shows "thread_good e inputs s' c t"
proof (cases t)
  case (Serving u k p inp)
  then obtain G where "G \<subseteq>\<^sub>m dict_get (groups s)" "thread_ok e (owns e inputs) u c G p"
    using assms(1) by (auto simp: thread_good_def)
  then show ?thesis
    using map_le_trans [OF _ assms(2)] assms(3) [OF Serving] by (auto simp: Serving thread_good_def)
next
  case (Leaving p)
  then obtain G where "G \<subseteq>\<^sub>m dict_get (groups s)" "leaving_ok e (owns e inputs) c G p"
    using assms(1) by (auto simp: thread_good_def)
  then show ?thesis
    using map_le_trans [OF _ assms(2)] by (auto simp: Leaving thread_good_def)
qed (use assms(1) in \<open>simp add: thread_good_def\<close>)

text \<open>What becomes of the table of clients.\<close>

lemma effect_clients:
  assumes "t_effect e K c (t, s) (t', s')" and "known K s"
    and "\<And>u k p inp. t = Serving u k p inp \<Longrightarrow> dict_get (clients s) u = Some (c, k)"
    and "\<And>u k. dict_get (clients s) u = Some (c, k) \<Longrightarrow> \<exists>p inp. t = Serving u k p inp"
  shows "known K s'"
    and "dict_get (clients s') u = Some (c, k) \<longleftrightarrow> (\<exists>p inp. t' = Serving u k p inp)"
    and "c' \<noteq> c \<Longrightarrow> dict_get (clients s') u = Some (c', k) \<longleftrightarrow> dict_get (clients s) u = Some (c', k)"
proof -
  have reg: "dict_get (clients s) u = Some (c, k) \<longleftrightarrow> (\<exists>p inp. t = Serving u k p inp)" for u k
    using assms(3,4) by blast
  have "known K s' \<and> (dict_get (clients s') u = Some (c, k) \<longleftrightarrow> (\<exists>p inp. t' = Serving u k p inp)) \<and>
      (c' \<noteq> c \<longrightarrow> (dict_get (clients s') u = Some (c', k) \<longleftrightarrow> dict_get (clients s) u = Some (c', k)))"
    for u k c'
    using assms(1)
  proof (cases rule: t_effect.cases)
    case (te_join v j segs inp)
    have "known K s'"
      using assms(2) te_join dict_ok_set by (auto simp: known_def)
    moreover have "dict_get (clients s) u \<noteq> Some (c, k)" using reg te_join by simp
    ultimately show ?thesis using te_join by auto
  next
    case (te_refuse v segs)
    then have "clients s' = clients s" by (simp add: same_tables_def)
    then show ?thesis using assms(2) reg te_refuse by (simp add: known_def)
  next
    case (te_serve v G p' j p inp inp')
    then have "clients s' = clients s" by (auto simp: keeps_def dest: thread_tables_clients)
    then show ?thesis using assms(2) reg te_serve by (simp add: known_def)
  next
    case (te_exit v j p inp)
    have "known K s'"
      using assms(2) te_exit pd.ok_del by (auto simp: known_def)
    moreover have v: "dict_get (clients s) v = Some (c, j)" using reg te_exit by simp
    moreover have "dict_get (clients s) u = Some (c, k) \<Longrightarrow> u = v" using reg te_exit by simp
    ultimately show ?thesis using te_exit by auto
  next
    case (te_left G p' p)
    then have "clients s' = clients s" by (simp add: keeps_def leave_tables_def)
    then show ?thesis using assms(2) reg te_left by (simp add: known_def)
  qed
  then show "known K s'"
    and "dict_get (clients s') u = Some (c, k) \<longleftrightarrow> (\<exists>p inp. t' = Serving u k p inp)"
    and "c' \<noteq> c \<Longrightarrow> dict_get (clients s') u = Some (c', k) \<longleftrightarrow> dict_get (clients s) u = Some (c', k)"
    by blast+
qed

lemma t_invD:
  assumes "t_inv e inputs y"
  shows "known (owns e inputs) (mem y)" and "thread_good e inputs (mem y) c (threads y c)"
    and "dict_get (clients (mem y)) u = Some (c, k) \<longleftrightarrow> (\<exists>p inp. threads y c = Serving u k p inp)"
    and "groups_good (mem y)" and "list_all (log_good e (owns e inputs)) (sent (mem y))"
proof -
  have l: "listed_good y" and g: "thread_good e inputs (mem y) c (threads y c)" for c
    using assms by (simp_all add: t_inv_def)
  show "dict_get (clients (mem y)) u = Some (c, k) \<longleftrightarrow> (\<exists>p inp. threads y c = Serving u k p inp)"
    using l g [of c] by (auto simp: listed_good_def thread_good_def)
qed (use assms in \<open>simp_all add: t_inv_def\<close>)

lemma t_inv_effect:
  assumes "t_inv e inputs y"
  shows "t_effect e (owns e inputs) c (threads y c, mem y) (thread_step e c (threads y c) (mem y))"
  by (rule thread_step_effect [OF t_invD(1,2) [OF assms]]) (simp add: t_invD(3) [OF assms])

lemma effect_thread_good:
  assumes "t_effect e (owns e inputs) c (t, s) (t', s')"
    and "\<And>u k p inp. t' = Serving u k p inp \<Longrightarrow> dict_get (clients s') u = Some (c, k)"
    and "known (owns e inputs) s'"
  shows "thread_good e inputs s' c t'"
  using assms(1)
proof (cases rule: t_effect.cases)
  case (te_join u k segs inp)
  have "owns e inputs u (c, k)" using te_join by simp
  then have "thread_ok e (owns e inputs) u c Map.empty (announce_prog e c k Done)"
    by (rule sr.announce_ok [where K = "owns e inputs" and v = u, OF _ halt_ok])
  then show ?thesis
    using te_join assms(2) by (auto simp: thread_good_def intro!: exI [of _ Map.empty])
next
  case (te_refuse segs v)
  show ?thesis
    unfolding te_refuse thread_good_def using refused_prog_ok [of "owns e inputs" c e v]
    by (auto intro!: exI [of _ Map.empty])
next
  case (te_serve u G p' k p inp inp')
  then show ?thesis using assms(2) by (auto simp: thread_good_def)
next
  case (te_exit u k p inp)
  show ?thesis
    unfolding te_exit thread_good_def using leave_prog_ok [of "owns e inputs" c e]
    by (auto intro!: exI [of _ Map.empty])
next
  case (te_left G p' p)
  then show ?thesis by (auto simp: thread_good_def)
qed

lemma t_inv_init: "t_inv e inputs (t_init inputs)"
  by (simp add: t_inv_def t_init_def init_server_def known_def listed_good_def groups_good_def
      thread_good_def dict_ok_def)

lemma t_inv_Run:
  assumes "t_inv e inputs y"
  shows "t_inv e inputs (t_next e (Run c) y)"
proof -
  let ?K = "owns e inputs" and ?s = "mem y" and ?t = "threads y c"
  obtain t' s' where ts: "thread_step e c ?t ?s = (t', s')" by force
  have eff: "t_effect e ?K c (?t, ?s) (t', s')" using t_inv_effect [OF assms] ts by metis
  have y: "t_next e (Run c) y = set_thread y c (t', s')" by (simp add: t_next_Run ts)
  note inv = t_invD [OF assms]
  have a3: "\<And>u k p inp. ?t = Serving u k p inp \<Longrightarrow> dict_get (clients ?s) u = Some (c, k)"
    and a4: "\<And>u k. dict_get (clients ?s) u = Some (c, k) \<Longrightarrow> \<exists>p inp. ?t = Serving u k p inp"
    using inv(3) by blast+
  have cl: "known ?K s'"
    "\<And>u k. dict_get (clients s') u = Some (c, k) \<longleftrightarrow> (\<exists>p inp. t' = Serving u k p inp)"
    "\<And>u c' k. c' \<noteq> c \<Longrightarrow>
      dict_get (clients s') u = Some (c', k) \<longleftrightarrow> dict_get (clients ?s) u = Some (c', k)"
    by (rule effect_clients [OF eff inv(1)], (erule a3 a4)+, assumption?)+
  have others: "thread_good e inputs s' c' (threads y c')" if "c' \<noteq> c" for c'
    by (rule thread_good_mono [OF inv(2) effect_grows [OF eff]]) (use cl(3) [OF that] inv(3) in auto)
  have mine: "thread_good e inputs s' c t'"
    by (rule effect_thread_good [OF eff _ cl(1)]) (use cl(2) in auto)
  have "thread_good e inputs s' c' (threads (set_thread y c (t', s')) c')" for c'
    using others mine by (cases "c' = c") simp_all
  moreover have "listed_good (set_thread y c (t', s'))"
    unfolding listed_good_def
  proof (intro allI impI)
    fix u c' k
    assume "dict_get (clients (mem (set_thread y c (t', s')))) u = Some (c', k)"
    then show "\<exists>p inp. threads (set_thread y c (t', s')) c' = Serving u k p inp"
      using cl(2,3) inv(3) by (cases "c' = c") auto
  qed
  moreover have "groups_good s'"
    by (rule effect_groups [OF eff inv(4,1)]) (use inv(3) in auto)
  moreover have "list_all (log_good e ?K) (sent s')"
    using effect_log [OF eff] inv(5) by (auto simp: emits_def)
  ultimately show ?thesis using cl(1) unfolding y t_inv_def by simp
qed

lemma t_inv_next: "t_inv e inputs y \<Longrightarrow> t_inv e inputs (t_next e ch y)"
proof (cases ch)
  case (Cut c)
  let ?s = "(mem y)\<lparr>broken := (broken (mem y))(c := True)\<rparr>"
  assume inv: "t_inv e inputs y"
  have "thread_good e inputs ?s c' (threads y c')" for c'
    by (rule thread_good_mono [OF t_invD(2) [OF inv]]) (use t_invD(3) [OF inv] in auto)
  then show ?thesis
    using inv by (simp add: Cut t_next_def t_inv_def known_def listed_good_def groups_good_def)
qed (simp add: t_inv_Run)

lemma t_inv_exec: "t_inv e inputs y \<Longrightarrow> t_inv e inputs (t_exec e sched y)"
  by (induction sched arbitrary: y) (simp_all add: t_inv_next)

lemma t_reach: "t_inv e inputs (t_exec e sched (t_init inputs))"
  by (rule t_inv_exec [OF t_inv_init])

section \<open>Consequences\<close>

text \<open>A group that exists keeps its members, whatever is scheduled.\<close>

lemma t_next_groups:
  "t_inv e inputs y \<Longrightarrow> dict_get (groups (mem y)) \<subseteq>\<^sub>m dict_get (groups (mem (t_next e ch y)))"
proof (cases ch)
  case (Run c)
  assume "t_inv e inputs y"
  from t_inv_effect [OF this] effect_grows show ?thesis
    by (metis Run prod.collapse set_thread_simps(1) t_next_Run)
qed (simp add: t_next_def)

lemma t_exec_groups:
  "t_inv e inputs y \<Longrightarrow> dict_get (groups (mem y)) \<subseteq>\<^sub>m dict_get (groups (mem (t_exec e sched y)))"
proof (induction sched arbitrary: y)
  case (Cons ch sched)
  from map_le_trans [OF t_next_groups [OF Cons.prems] Cons.IH [OF t_inv_next [OF Cons.prems]]]
  show ?case by simp
qed simp

text \<open>Everything written to one connection is under the one key of its own handshake.\<close>

lemma log_key:
  assumes "t_inv e inputs y" and "d \<in> set (sent (mem y))"
  shows "map_option snd (session e (inputs (d_conn d))) = Some (d_key d)"
  using t_invD(5) [OF assms(1)] assms(2)
  by (auto simp: list_all_iff log_good_def owns_def target_of_def)

text \<open>What the scheduled thread writes.\<close>

lemma t_next_writes:
  assumes "t_inv e inputs y"
  shows "emits (\<lambda>d. is_list d \<or> refusal e (owns e inputs) c d \<or>
    (\<exists>u k p. dict_get (clients (mem y)) u = Some (c, k) \<and> jget p (lit ''from'') = JStr u \<and>
      request_write e (owns e inputs) u c p (mem y) d)) (mem y) (mem (t_next e (Run c) y))"
proof -
  obtain t' s' where ts: "thread_step e c (threads y c) (mem y) = (t', s')" by force
  have "t_effect e (owns e inputs) c (threads y c, mem y) (t', s')"
    using t_inv_effect [OF assms] ts by metis
  then have "emits (\<lambda>d. is_list d \<or> refusal e (owns e inputs) c d \<or>
    (\<exists>u k p. dict_get (clients (mem y)) u = Some (c, k) \<and> jget p (lit ''from'') = JStr u \<and>
      request_write e (owns e inputs) u c p (mem y) d)) (mem y) s'"
  proof (cases rule: t_effect.cases)
    case (te_serve u G p' k p inp inp')
    have "dict_get (clients (mem y)) u = Some (c, k)" using t_invD(3) [OF assms] te_serve by blast
    moreover have "emits (\<lambda>d. (\<exists>v. owns e inputs v (target_of d)) \<and> well_sealed e d \<and>
        thread_allows e (owns e inputs) u c (mem y) d) (mem y) s'"
      using te_serve by (simp add: keeps_def)
    ultimately show ?thesis
      by (elim emits_mono) (auto simp: thread_allows_def thread_write_def)
  next
    case te_refuse
    then show ?thesis by (auto elim!: emits_mono)
  next
    case te_left
    then show ?thesis by (auto simp: keeps_def elim!: emits_mono)
  qed (auto simp: emits_refl)
  then show ?thesis by (simp add: t_next_Run ts)
qed

text \<open>The interleaved server still refines the chat of System.\<close>

definition abs_mem :: "server \<Rightarrow> chat" where
  "abs_mem s =
     \<lparr>online = (\<lambda>u. map_option fst (dict_get (clients s) u)),
      rooms = (\<lambda>g. map_option set (dict_get (groups s) g))\<rparr>"

lemma abs_mem_cong:
  "clients s' = clients s \<Longrightarrow> groups s' = groups s \<Longrightarrow> abs_mem s' = abs_mem s"
  by (simp add: abs_mem_def)

lemma t_next_refines:
  assumes "t_inv e inputs y"
  shows "chat_step (abs_mem (mem y)) (abs_mem (mem (t_next e ch y)))"
proof (cases ch)
  case (Cut c)
  have "abs_mem (mem (t_next e ch y)) = abs_mem (mem y)"
    by (rule abs_mem_cong) (simp_all add: Cut t_next_def)
  then show ?thesis by (simp add: chat_step.idle)
next
  case (Run c)
  obtain t' s' where ts: "thread_step e c (threads y c) (mem y) = (t', s')" by force
  have "t_effect e (owns e inputs) c (threads y c, mem y) (t', s')"
    using t_inv_effect [OF assms] ts by metis
  then have "chat_step (abs_mem (mem y)) (abs_mem s')"
  proof (cases rule: t_effect.cases)
    case (te_join u k segs inp)
    have "dict_get (clients (mem y)) v \<noteq> Some (c, j)" for v j
      using t_invD(3) [OF assms, of v c j] te_join by simp
    then have "c \<notin> ran (online (abs_mem (mem y)))"
      by (auto simp: abs_mem_def ran_def)
    moreover have "online (abs_mem (mem y)) u = None" using te_join by (simp add: abs_mem_def)
    moreover have "abs_mem s' = (abs_mem (mem y))\<lparr>online := (online (abs_mem (mem y)))(u \<mapsto> c)\<rparr>"
      using te_join by (auto simp: abs_mem_def)
    ultimately show ?thesis using chat_step.login by metis
  next
    case (te_serve u G p' k p inp inp')
    have reg: "dict_get (clients (mem y)) u = Some (c, k)" using t_invD(3) [OF assms] te_serve by blast
    have "thread_tables u (mem y) s'" using te_serve by (simp add: keeps_def)
    then show ?thesis
      unfolding thread_tables_def
    proof
      assume "same_tables (mem y) s'"
      then have "abs_mem s' = abs_mem (mem y)" by (intro abs_mem_cong) (auto simp: same_tables_def)
      then show ?thesis by (simp add: chat_step.idle)
    next
      assume "adds_group u (mem y) s'"
      then obtain g ms where g: "dict_get (groups (mem y)) g = None" "u \<in> set ms"
        "groups s' = dict_set (groups (mem y)) g ms" "clients s' = clients (mem y)"
        by (auto simp: adds_group_def)
      then have "abs_mem s' = (abs_mem (mem y))\<lparr>rooms := (rooms (abs_mem (mem y)))(g \<mapsto> set ms)\<rparr>"
        by (auto simp: abs_mem_def)
      then show ?thesis
        using chat_step.create [of "abs_mem (mem y)" u g "set ms"] reg g by (simp add: abs_mem_def)
    qed
  next
    case (te_exit u k p inp)
    have reg: "dict_get (clients (mem y)) u = Some (c, k)" using t_invD(3) [OF assms] te_exit by blast
    have "abs_mem s' = (abs_mem (mem y))\<lparr>online := (online (abs_mem (mem y)))(u := None)\<rparr>"
      using te_exit by (auto simp: abs_mem_def)
    then show ?thesis
      using chat_step.logout [of "abs_mem (mem y)" u c] reg by (simp add: abs_mem_def)
  next
    case te_refuse
    then have "abs_mem s' = abs_mem (mem y)" by (intro abs_mem_cong) (auto simp: same_tables_def)
    then show ?thesis by (simp add: chat_step.idle)
  next
    case te_left
    then have "abs_mem s' = abs_mem (mem y)"
      by (intro abs_mem_cong) (auto simp: keeps_def leave_tables_def)
    then show ?thesis by (simp add: chat_step.idle)
  qed
  then show ?thesis by (simp add: Run t_next_Run ts)
qed

section \<open>The end of a handler\<close>

text \<open>A program that, whatever it meets, closes the connection before it halts.\<close>

inductive closes :: "conn \<Rightarrow> prog \<Rightarrow> bool" for c where
  "(\<And>s. broken (snd (f s)) c \<or> closes c (fst (f s))) \<Longrightarrow> closes c (Step f)"

inductive_simps closes_Step [simp]: "closes c (Step f)"
inductive_simps closes_Done [simp]: "closes c Done"

lemma closes_leave: "closes c (leave_prog e c)"
proof -
  have "closes c (each_prog e p ts (close_prog c))" for p ts
    by (induction ts) (auto simp: close_prog_def try_send_prog_def)
  then show ?thesis by (simp add: leave_prog_def broadcast_prog_def)
qed

text \<open>A thread closes no connection but its own.\<close>

lemma t_next_broken:
  assumes "t_inv e inputs y" and "c' \<noteq> c"
  shows "broken (mem (t_next e (Run c) y)) c' = broken (mem y) c'"
proof -
  obtain t' s' where ts: "thread_step e c (threads y c) (mem y) = (t', s')" by force
  have "t_effect e (owns e inputs) c (threads y c, mem y) (t', s')"
    using t_inv_effect [OF assms(1)] ts by metis
  then have "broken s' c' = broken (mem y) c'"
    by (cases rule: t_effect.cases)
      (use assms(2) in \<open>auto simp: same_tables_def keeps_def leave_tables_def thread_tables_def adds_group_def\<close>)
  then show ?thesis by (simp add: t_next_Run ts)
qed

definition closing_good :: "tsystem \<Rightarrow> bool" where
  "closing_good y \<longleftrightarrow> (\<forall>c p. threads y c = Leaving p \<longrightarrow> broken (mem y) c \<or> closes c p)"

lemma effect_broken:
  "t_effect e K c (t, s) (t', s') \<Longrightarrow> broken s c' \<Longrightarrow> broken s' c'"
  by (erule t_effect.cases)
    (auto simp: same_tables_def keeps_def leave_tables_def thread_tables_def adds_group_def)

lemma thread_step_closes:
  assumes "\<And>p. t = Leaving p \<Longrightarrow> broken s c \<or> closes c p"
    and "thread_step e c t s = (Leaving p', s')" and "broken s c \<Longrightarrow> broken s' c"
  shows "broken s' c \<or> closes c p'"
  using assms closes_leave [of c e]
  by (auto simp: thread_step_def split: thread.splits prog.splits prod.splits
      handshake_result.splits sum.splits option.splits)

lemma closing_next:
  assumes "t_inv e inputs y" and "closing_good y"
  shows "closing_good (t_next e ch y)"
proof (cases ch)
  case (Cut c)
  then show ?thesis using assms(2) by (auto simp: closing_good_def t_next_def)
next
  case (Run c)
  obtain t' s' where ts: "thread_step e c (threads y c) (mem y) = (t', s')" by force
  have eff: "t_effect e (owns e inputs) c (threads y c, mem y) (t', s')"
    using t_inv_effect [OF assms(1)] ts by metis
  have "broken s' c' \<or> closes c' p" if "threads (set_thread y c (t', s')) c' = Leaving p" for c' p
  proof (cases "c' = c")
    case True
    then have "t' = Leaving p" using that by simp
    then show ?thesis
      using thread_step_closes [of "threads y c" "mem y" c e p s'] ts effect_broken [OF eff]
        assms(2) True by (auto simp: closing_good_def)
  next
    case False
    then show ?thesis
      using that assms(2) effect_broken [OF eff, of c'] by (auto simp: closing_good_def)
  qed
  then show ?thesis by (simp add: Run t_next_Run ts closing_good_def)
qed

lemma closing_exec:
  "t_inv e inputs y \<Longrightarrow> closing_good y \<Longrightarrow> closing_good (t_exec e sched y)"
  by (induction sched arbitrary: y) (simp_all add: t_inv_next closing_next)

text \<open>A handler that has ended has closed its connection and holds no name.\<close>

lemma ended_handler:
  assumes "threads (t_exec e sched (t_init inputs)) c = Leaving Done"
  shows "broken (mem (t_exec e sched (t_init inputs))) c"
    and "dict_get (clients (mem (t_exec e sched (t_init inputs)))) u \<noteq> Some (c, k)"
proof -
  have "closing_good (t_exec e sched (t_init inputs))"
    by (rule closing_exec [OF t_inv_init]) (simp add: closing_good_def t_init_def)
  then show "broken (mem (t_exec e sched (t_init inputs))) c"
    using assms unfolding closing_good_def by (metis closes_Done)
  show "dict_get (clients (mem (t_exec e sched (t_init inputs)))) u \<noteq> Some (c, k)"
    using t_invD(3) [OF t_reach] assms by simp
qed

end
