(* ===== verification/Progress.thy ===== *)
theory Progress
  imports Threads
begin

text \<open>
  Progress of the handler threads. Under a schedule that runs a thread again and again, and
  whatever the other threads and the network do to the shared state between two of its steps,
  its handler treats every frame its connection delivers, leaves the loop and ends. A send
  returns or raises here, and the lock is held inside one step only, so nothing a thread does
  waits for a step of another one.
\<close>

primrec t_trace :: "env \<Rightarrow> (nat \<Rightarrow> choice) \<Rightarrow> tsystem \<Rightarrow> nat \<Rightarrow> tsystem" where
  "t_trace e sched y 0 = y"
| "t_trace e sched y (Suc i) = t_next e (sched i) (t_trace e sched y i)"

definition fair_to :: "conn \<Rightarrow> (nat \<Rightarrow> choice) \<Rightarrow> bool" where
  "fair_to c sched \<longleftrightarrow> (\<forall>n. \<exists>i. n \<le> i \<and> sched i = Run c)"

lemma t_trace_exec: "t_trace e sched y n = t_exec e (map sched [0..<n]) y"
  by (induction n) simp_all

lemma t_next_other: "ch \<noteq> Run c \<Longrightarrow> threads (t_next e ch y) c = threads y c"
  by (auto simp: t_next_def set_thread_def split: choice.splits)

text \<open>A thread stands still until it is scheduled, and then takes one step of its own.\<close>

lemma t_trace_waits:
  "(\<And>l. i \<le> l \<Longrightarrow> l < j \<Longrightarrow> sched l \<noteq> Run c) \<Longrightarrow> i \<le> j \<Longrightarrow>
   threads (t_trace e sched y j) c = threads (t_trace e sched y i) c"
proof (induction j)
  case (Suc j)
  show ?case
  proof (cases "i = Suc j")
    case False
    then have "i \<le> j" using Suc.prems(2) by simp
    then show ?thesis using Suc.IH Suc.prems(1) by (simp add: t_next_other)
  qed simp
qed simp

lemma own_turn_first:
  assumes "fair_to c sched"
  obtains j where "i \<le> j" and "\<And>l. i \<le> l \<Longrightarrow> l < j \<Longrightarrow> sched l \<noteq> Run c" and "sched j = Run c"
    and "t_trace e sched y (Suc j) = set_thread (t_trace e sched y j) c
      (thread_step e c (threads (t_trace e sched y i) c) (mem (t_trace e sched y j)))"
proof -
  define j where "j = (LEAST j. i \<le> j \<and> sched j = Run c)"
  have "\<exists>j. i \<le> j \<and> sched j = Run c" using assms by (auto simp: fair_to_def)
  then have j: "i \<le> j" "sched j = Run c"
    unfolding j_def by (metis (mono_tags, lifting) LeastI_ex)+
  have no: "sched l \<noteq> Run c" if "i \<le> l" "l < j" for l
    using that not_less_Least [of l "\<lambda>j. i \<le> j \<and> sched j = Run c"] by (simp add: j_def)
  then have "threads (t_trace e sched y j) c = threads (t_trace e sched y i) c"
    using j(1) by (intro t_trace_waits)
  then show ?thesis using that [OF j(1) no j(2)] by (simp add: j(2) t_next_Run)
qed

lemma own_turn:
  assumes "fair_to c sched"
  obtains j where "i \<le> j" and "t_trace e sched y (Suc j) = set_thread (t_trace e sched y j) c
    (thread_step e c (threads (t_trace e sched y i) c) (mem (t_trace e sched y j)))"
  using own_turn_first [OF assms] by metis

lemma own_step:
  assumes "fair_to c sched"
  obtains j s where "threads (t_trace e sched y j) c = fst (thread_step e c (threads (t_trace e sched y i) c) s)"
  using own_turn [OF assms] by (metis set_thread_simps(2))

definition gets_to :: "env \<Rightarrow> (nat \<Rightarrow> choice) \<Rightarrow> tsystem \<Rightarrow> conn \<Rightarrow> thread \<Rightarrow> bool" where
  "gets_to e sched y c t \<longleftrightarrow> (\<exists>n. threads (t_trace e sched y n) c = t)"

lemma gets_serving:
  assumes "fair_to c sched" and "gets_to e sched y c (Serving u k p inp)"
  shows "gets_to e sched y c (Serving u k Done inp)"
  using assms(2)
proof (induction p rule: prog_step_induct)
  case (Step f)
  then obtain i where i: "threads (t_trace e sched y i) c = Serving u k (Step f) inp"
    by (auto simp: gets_to_def)
  obtain j s where "threads (t_trace e sched y j) c = fst (thread_step e c (Serving u k (Step f) inp) s)"
    using own_step [OF assms(1)] i by metis
  then have "gets_to e sched y c (Serving u k (fst (f s)) inp)"
    by (auto simp: gets_to_def thread_step_def)
  then show ?case by (rule Step.IH)
qed

lemma gets_leaving:
  assumes "fair_to c sched" and "gets_to e sched y c (Leaving p)"
  shows "gets_to e sched y c (Leaving Done)"
  using assms(2)
proof (induction p rule: prog_step_induct)
  case (Step f)
  then obtain i where i: "threads (t_trace e sched y i) c = Leaving (Step f)"
    by (auto simp: gets_to_def)
  obtain j s where "threads (t_trace e sched y j) c = fst (thread_step e c (Leaving (Step f)) s)"
    using own_step [OF assms(1)] i by metis
  then have "gets_to e sched y c (Leaving (fst (f s)))"
    by (auto simp: gets_to_def thread_step_def)
  then show ?case by (rule Step.IH)
qed

lemma gets_own:
  assumes "fair_to c sched" and "gets_to e sched y c t"
  obtains s where "gets_to e sched y c (fst (thread_step e c t s))"
  using assms own_step [of c sched e y] unfolding gets_to_def by metis

lemma thread_step_frame:
  "read_frame inp = (Inr (Some d), r) \<Longrightarrow>
   thread_step e c (Serving u k Done inp) s = (Serving u k (frame_prog e u c k d) r, s)"
  by (simp add: thread_step_def)

text \<open>Every frame that the connection delivers is treated, in order.\<close>

lemma gets_frames:
  assumes "fair_to c sched"
  shows "list_all frame_ok ds \<Longrightarrow>
    gets_to e sched y c (Serving u k p (concat (map frame_bytes ds) @ rest)) \<Longrightarrow>
    gets_to e sched y c (Serving u k Done rest)"
proof (induction ds arbitrary: p)
  case Nil
  then show ?case using gets_serving [OF assms] by simp
next
  case (Cons d ds)
  let ?r = "concat (map frame_bytes ds) @ rest"
  have rf: "read_frame (concat (map frame_bytes (d # ds)) @ rest) = (Inr (Some d), ?r)"
    using read_frame_frame [OF frame_bytes_frame, of d ?r] Cons.prems(1) by simp
  obtain s where "gets_to e sched y c (fst (thread_step e c
      (Serving u k Done (concat (map frame_bytes (d # ds)) @ rest)) s))"
    using gets_own [OF assms gets_serving [OF assms Cons.prems(2)]] by blast
  then have "gets_to e sched y c (Serving u k (frame_prog e u c k d) ?r)"
    unfolding thread_step_frame [OF rf] by simp
  then show ?case using Cons by simp
qed

lemma gets_out:
  assumes "fair_to c sched"
  shows "gets_to e sched y c (Serving u k p inp) \<Longrightarrow> gets_to e sched y c (Leaving Done)"
proof (induction inp arbitrary: p rule: measure_induct_rule [of length])
  case (less inp)
  obtain s where s: "gets_to e sched y c (fst (thread_step e c (Serving u k Done inp) s))"
    using gets_own [OF assms gets_serving [OF assms less.prems]] by blast
  obtain o' r where rf: "read_frame inp = (o', r)" by force
  show ?case
  proof (cases "\<exists>d. o' = Inr (Some d)")
    case True
    then obtain d where d: "read_frame inp = (Inr (Some d), r)" using rf by blast
    have "gets_to e sched y c (Serving u k (frame_prog e u c k d) r)"
      using s by (simp add: thread_step_frame [OF d])
    then show ?thesis using less.IH [OF read_frame_shorter [OF d]] by blast
  next
    case False
    then have "o' = Inr None \<or> (\<exists>x. o' = Inl x)" by (metis not_None_eq sumE)
    then have "gets_to e sched y c (Leaving (leave_prog e c))"
      using s by (auto simp: thread_step_def rf)
    then show ?thesis by (rule gets_leaving [OF assms])
  qed
qed

lemma gets_ended:
  assumes "fair_to c sched"
  shows "gets_to e sched y c (Leaving Done)"
proof -
  have "gets_to e sched y c (threads y c)"
    unfolding gets_to_def by (intro exI [of _ 0]) simp
  then show ?thesis
  proof (cases "threads y c")
    case (Connecting segs)
    with \<open>gets_to e sched y c (threads y c)\<close>
    obtain s where s: "gets_to e sched y c (fst (thread_step e c (Connecting segs) s))"
      using gets_own [OF assms] by metis
    obtain r s1 where h: "handshake e c segs s = (r, s1)" by force
    then show ?thesis
      using s gets_leaving [OF assms] gets_out [OF assms]
      by (cases r) (auto simp: thread_step_def)
  qed (use gets_out [OF assms] gets_leaving [OF assms] in auto)
qed

lemma ended_stays:
  assumes "threads (t_trace e sched y n) c = Leaving Done" and "n \<le> i"
  shows "threads (t_trace e sched y i) c = Leaving Done"
  using assms(2)
proof (induction i rule: dec_induct)
  case base
  show ?case by (rule assms(1))
next
  case (step i)
  then show ?case
    by (cases "sched i = Run c") (simp_all add: t_next_Run thread_step_def t_next_other)
qed

section \<open>What a thread does, turn by turn\<close>

text \<open>
  From time \<open>i\<close> to time \<open>j\<close> of a run the thread of \<open>c\<close> executes a program: at each of its turns the
  shared state changes by exactly the program's next step, in whatever state the others have left
  it, and at \<open>j\<close> the program is over.
\<close>

inductive executes :: "env \<Rightarrow> (nat \<Rightarrow> choice) \<Rightarrow> tsystem \<Rightarrow> conn \<Rightarrow> nat \<Rightarrow> prog \<Rightarrow> nat \<Rightarrow> bool"
  for e sched y c where
  ex_done: "executes e sched y c i Done i"
| ex_wait: "sched i \<noteq> Run c \<Longrightarrow> executes e sched y c (Suc i) p j \<Longrightarrow> executes e sched y c i p j"
| ex_turn: "sched i = Run c \<Longrightarrow>
    mem (t_trace e sched y (Suc i)) = snd (f (mem (t_trace e sched y i))) \<Longrightarrow>
    executes e sched y c (Suc i) (fst (f (mem (t_trace e sched y i)))) j \<Longrightarrow>
    executes e sched y c i (Step f) j"

text \<open>
  It treats frames: a turn that takes the frame and leaves the shared state alone, the execution
  of the frame's program, then the next frame. Every turn of the thread is one of these.
\<close>

inductive treats ::
  "env \<Rightarrow> (nat \<Rightarrow> choice) \<Rightarrow> tsystem \<Rightarrow> conn \<Rightarrow> pystr \<Rightarrow> bytes \<Rightarrow> nat \<Rightarrow> bytes list \<Rightarrow> nat \<Rightarrow> bool"
  for e sched y c u k where
  tr_none: "treats e sched y c u k i [] i"
| tr_wait: "sched i \<noteq> Run c \<Longrightarrow> treats e sched y c u k (Suc i) ds n \<Longrightarrow> treats e sched y c u k i ds n"
| tr_frame: "sched i = Run c \<Longrightarrow> mem (t_trace e sched y (Suc i)) = mem (t_trace e sched y i) \<Longrightarrow>
    executes e sched y c (Suc i) (frame_prog e u c k d) j \<Longrightarrow> treats e sched y c u k j ds n \<Longrightarrow>
    treats e sched y c u k i (d # ds) n"

lemma executes_waits:
  "i \<le> j \<Longrightarrow> (\<And>l. i \<le> l \<Longrightarrow> l < j \<Longrightarrow> sched l \<noteq> Run c) \<Longrightarrow> executes e sched y c j p n \<Longrightarrow>
   executes e sched y c i p n"
proof (induction rule: inc_induct)
  case (step i)
  then show ?case by (intro ex_wait [of sched i]) auto
qed

lemma treats_waits:
  "i \<le> j \<Longrightarrow> (\<And>l. i \<le> l \<Longrightarrow> l < j \<Longrightarrow> sched l \<noteq> Run c) \<Longrightarrow> treats e sched y c u k j ds n \<Longrightarrow>
   treats e sched y c u k i ds n"
proof (induction rule: inc_induct)
  case (step i)
  then show ?case by (intro tr_wait [of sched i]) auto
qed

text \<open>Without other threads in between, an execution is the handler of Server.\<close>

lemma executes_alone:
  "executes e sched y c i p j \<Longrightarrow> (\<And>l. i \<le> l \<Longrightarrow> l < j \<Longrightarrow> sched l = Run c) \<Longrightarrow>
   i \<le> j \<and> mem (t_trace e sched y j) = run_prog p (mem (t_trace e sched y i))"
proof (induction rule: executes.induct)
  case (ex_wait i p j)
  have "i < j" using ex_wait.IH [OF ex_wait.prems] by simp
  then show ?case using ex_wait.hyps(1) ex_wait.prems by simp
next
  case (ex_turn i f j)
  then have "Suc i \<le> j \<and> mem (t_trace e sched y j) =
      run_prog (fst (f (mem (t_trace e sched y i)))) (mem (t_trace e sched y (Suc i)))" by simp
  then show ?case using ex_turn.hyps(2) by (simp del: t_trace.simps)
qed simp

lemma serving_executes:
  assumes "fair_to c sched"
  shows "threads (t_trace e sched y i) c = Serving u k p inp \<Longrightarrow>
    \<exists>j. executes e sched y c i p j \<and> threads (t_trace e sched y j) c = Serving u k Done inp"
proof (induction p arbitrary: i rule: prog_step_induct)
  case Done
  then show ?case using ex_done by blast
next
  case (Step f)
  obtain j where j: "i \<le> j" "\<And>l. i \<le> l \<Longrightarrow> l < j \<Longrightarrow> sched l \<noteq> Run c" "sched j = Run c"
    "t_trace e sched y (Suc j) = set_thread (t_trace e sched y j) c
      (thread_step e c (threads (t_trace e sched y i) c) (mem (t_trace e sched y j)))"
    using own_turn_first [OF assms] by blast
  let ?s = "mem (t_trace e sched y j)"
  have m: "mem (t_trace e sched y (Suc j)) = snd (f ?s)"
    "threads (t_trace e sched y (Suc j)) c = Serving u k (fst (f ?s)) inp"
    unfolding j(4) Step.prems by (simp_all add: thread_step_def)
  from Step.IH [OF m(2)] obtain n where "executes e sched y c (Suc j) (fst (f ?s)) n"
    "threads (t_trace e sched y n) c = Serving u k Done inp" by blast
  then show ?case using executes_waits [OF j(1,2) ex_turn [where f = f, OF j(3) m(1)]] by blast
qed

lemma serving_treats:
  assumes "fair_to c sched"
  shows "list_all frame_ok ds \<Longrightarrow>
    threads (t_trace e sched y i) c = Serving u k Done (concat (map frame_bytes ds) @ rest) \<Longrightarrow>
    \<exists>n. treats e sched y c u k i ds n \<and> threads (t_trace e sched y n) c = Serving u k Done rest"
proof (induction ds arbitrary: i)
  case Nil
  then show ?case using tr_none by fastforce
next
  case (Cons d ds)
  let ?r = "concat (map frame_bytes ds) @ rest"
  have rf: "read_frame (concat (map frame_bytes (d # ds)) @ rest) = (Inr (Some d), ?r)"
    using read_frame_frame [OF frame_bytes_frame, of d ?r] Cons.prems(1) by simp
  obtain j where j: "i \<le> j" "\<And>l. i \<le> l \<Longrightarrow> l < j \<Longrightarrow> sched l \<noteq> Run c" "sched j = Run c"
    "t_trace e sched y (Suc j) = set_thread (t_trace e sched y j) c
      (thread_step e c (threads (t_trace e sched y i) c) (mem (t_trace e sched y j)))"
    using own_turn_first [OF assms] by blast
  have m: "mem (t_trace e sched y (Suc j)) = mem (t_trace e sched y j)"
    "threads (t_trace e sched y (Suc j)) c = Serving u k (frame_prog e u c k d) ?r"
    unfolding j(4) Cons.prems(2) thread_step_frame [OF rf] by simp_all
  obtain l where l: "executes e sched y c (Suc j) (frame_prog e u c k d) l"
    "threads (t_trace e sched y l) c = Serving u k Done ?r"
    using serving_executes [OF assms m(2)] by blast
  obtain n where "treats e sched y c u k l ds n" "threads (t_trace e sched y n) c = Serving u k Done rest"
    using Cons.IH [OF _ l(2)] Cons.prems(1) by auto
  then show ?case using treats_waits [OF j(1,2) tr_frame [OF j(3) m(1) l(1)]] by blast
qed

end
