(* ===== verification/Environ.thy ===== *)
theory Environ
  imports JsonParse
begin

text \<open>
  What the programs take from the environment of their process: \<open>os.getenv\<close> with a default,
  the address that server and client read from \<open>IP_ADDRESS\<close> and \<open>PORT\<close>, \<open>int\<close> on text, and the
  two paths of the server's keys. The decimal value of a character outside ASCII is Unicode
  data and a parameter, \<open>dec\<close>.
\<close>

type_synonym environment = "pystr \<rightharpoonup> pystr"

definition getenv :: "environment \<Rightarrow> pystr \<Rightarrow> pystr \<Rightarrow> pystr" where
  "getenv env k d = (case env k of None \<Rightarrow> d | Some v \<Rightarrow> v)"

section \<open>Integers from text\<close>

text \<open>Digits, with single underscores between them.\<close>

fun scan_decimal :: "(nat \<Rightarrow> nat option) \<Rightarrow> bool \<Rightarrow> nat \<Rightarrow> pystr \<Rightarrow> nat option" where
  "scan_decimal dec after_digit acc [] = (if after_digit then Some acc else None)"
| "scan_decimal dec after_digit acc (c # cs) =
     (case dec c of
        Some d \<Rightarrow> scan_decimal dec True (10 * acc + d) cs
      | None \<Rightarrow> if c = 95 \<and> after_digit then scan_decimal dec False acc cs else None)"

definition split_sign :: "pystr \<Rightarrow> bool \<times> pystr" where
  "split_sign t =
     (case t of
        [] \<Rightarrow> (False, [])
      | c # cs \<Rightarrow> if c = 45 then (True, cs) else if c = 43 then (False, cs) else (False, t))"

text \<open>\<open>int(s)\<close>; white space around the number is ignored, more than 4300 digits are refused.\<close>

definition py_int :: "(nat \<Rightarrow> nat option) \<Rightarrow> pystr \<Rightarrow> int result" where
  "py_int dec s =
     (let (neg, u) = split_sign (str_strip s)
      in if max_int_digits < length (filter (\<lambda>c. dec c \<noteq> None) u) then Inl ValueError
         else case scan_decimal dec False 0 u of
                None \<Rightarrow> Inl ValueError
              | Some n \<Rightarrow> Inr (if neg then - int n else int n))"

definition decimals_ok :: "(nat \<Rightarrow> nat option) \<Rightarrow> bool" where
  "decimals_ok dec \<longleftrightarrow> (\<forall>c. is_digit c \<longrightarrow> dec c = Some (c - 48))"

definition ascii_decimal :: "nat \<Rightarrow> nat option" where
  "ascii_decimal c = (if is_digit c then Some (c - 48) else None)"

lemma ascii_decimals_ok: "decimals_ok ascii_decimal"
  by (simp add: decimals_ok_def ascii_decimal_def)

lemma scan_decimal_digits:
  "list_all is_digit ds \<Longrightarrow> decimals_ok dec \<Longrightarrow> a \<or> ds \<noteq> [] \<Longrightarrow>
   scan_decimal dec a acc ds = Some (foldl (\<lambda>n d. 10 * n + (d - 48)) acc ds)"
  by (induction ds arbitrary: a acc) (auto simp: decimals_ok_def)

lemma py_int_int_str:
  assumes "decimals_ok dec" and "length (dec_nat (nat \<bar>i\<bar>)) \<le> max_int_digits"
  shows "py_int dec (int_str i) = Inr i"
proof -
  let ?ds = "dec_nat (nat \<bar>i\<bar>)"
  obtain c cs where ds: "?ds = c # cs" using dec_nat_nonempty by (cases ?ds) auto
  have digits: "list_all is_digit ?ds" by (rule dec_nat_digits)
  have space: "\<not> is_space c" if "is_digit c \<or> c = 45" for c
    using that by (auto simp: is_digit_def is_space_def)
  have "\<forall>c \<in> set (int_str i). is_digit c \<or> c = 45" "int_str i \<noteq> []"
    using dec_nat_digits dec_nat_nonempty by (auto simp: int_str_def list_all_iff)
  then have "\<not> is_space (hd (int_str i))" "\<not> is_space (last (int_str i))"
    using space hd_in_set last_in_set by blast+
  then have "str_strip (int_str i) = int_str i" by (simp add: str_strip_def strip_by_id_iff)
  moreover have "split_sign (int_str i) = (i < 0, ?ds)"
  proof (cases "i < 0")
    case False
    have "c \<noteq> 45" "c \<noteq> 43" using digits by (auto simp: ds is_digit_def)
    then show ?thesis using False ds by (simp add: int_str_def split_sign_def)
  qed (simp add: int_str_def split_sign_def)
  moreover have "scan_decimal dec False 0 ?ds = Some (nat \<bar>i\<bar>)"
    using scan_decimal_digits [OF digits assms(1)] dec_nat_nonempty
      dec_value_dec_nat [of "nat \<bar>i\<bar>"] by (simp add: dec_value_def)
  moreover have "length (filter (\<lambda>c. dec c \<noteq> None) ?ds) \<le> max_int_digits"
    using le_trans [OF length_filter_le assms(2)] .
  ultimately show ?thesis by (simp add: py_int_def)
qed

section \<open>The address and the key files\<close>

definition env_address :: "(nat \<Rightarrow> nat option) \<Rightarrow> environment \<Rightarrow> (pystr \<times> int) result" where
  "env_address dec env =
     rbind (py_int dec (getenv env (lit ''PORT'') (lit ''12345'')))
       (\<lambda>port. Inr (getenv env (lit ''IP_ADDRESS'') (lit ''127.0.0.1''), port))"

text \<open>\<open>os.path.join\<close> of two parts.\<close>

definition os_path_join :: "pystr \<Rightarrow> pystr \<Rightarrow> pystr" where
  "os_path_join a b =
     (if b \<noteq> [] \<and> hd b = 47 then b else if a = [] \<or> last a = 47 then a @ b else a @ 47 # b)"

definition key_paths :: "pystr \<Rightarrow> environment \<Rightarrow> pystr \<times> pystr" where
  "key_paths base_dir env =
     (let keys_dir = getenv env (lit ''GUARDEDIM_KEYS_DIR'')
            (os_path_join (os_path_join base_dir (lit ''..'')) (lit ''keys''))
      in (os_path_join keys_dir (lit ''private_key.pem''), os_path_join keys_dir (lit ''public_key.pem'')))"

text \<open>The two keys are never one file.\<close>

lemma key_paths_distinct: "fst (key_paths base_dir env) \<noteq> snd (key_paths base_dir env)"
  by (auto simp: key_paths_def os_path_join_def Let_def py_eval)

lemma env_address_default: "decimals_ok dec \<Longrightarrow> env_address dec Map.empty = Inr (lit ''127.0.0.1'', 12345)"
proof -
  assume a: "decimals_ok dec"
  have "int_str 12345 = lit ''12345''" by (simp add: int_str_def dec_nat.simps py_eval)
  moreover have "length (dec_nat 12345) \<le> max_int_digits"
    by (simp add: dec_nat.simps max_int_digits_def)
  ultimately have "py_int dec (lit ''12345'') = Inr 12345"
    using py_int_int_str [OF a, of 12345] by simp
  then show ?thesis by (simp add: env_address_def getenv_def rbind_def)
qed

end
