(* ===== verification/Client.thy ===== *)
theory Client
  imports Validation Framing Environ
begin

text \<open>
  \<open>client/client.py\<close>: where received files go, the state of a \<open>ChatClient\<close>, connecting,
  the receive loop with its dispatch, and the send operations.

  The two callbacks the client is constructed with belong to its owner (the window of
  \<open>client/chat_gui.py\<close>, a list in the tests): they are a parameter, functions on the
  owner's state \<open>'g\<close> that may raise. The file system is a parameter too (which directories
  can be made, which files written and read, what \<open>Path.resolve\<close> follows); the files the
  client wrote are part of its state.
\<close>

section \<open>Paths\<close>

type_synonym path = "pystr list"

text \<open>The parts of a path text: split at slashes, empty parts and \<open>.\<close> dropped (\<open>pathlib\<close>).\<close>

definition path_parts :: "pystr \<Rightarrow> path" where
  "path_parts s = filter (\<lambda>p. p \<noteq> [] \<and> p \<noteq> lit ''.'') (split_acc 47 [] s)"

text \<open>\<open>root / s\<close>: an absolute right-hand side replaces the left one.\<close>

definition path_join :: "path \<Rightarrow> pystr \<Rightarrow> path" where
  "path_join root s = (if s \<noteq> [] \<and> hd s = 47 then path_parts s else root @ path_parts s)"

text \<open>\<open>p.is_relative_to(root)\<close>, component by component.\<close>

definition is_relative_to :: "path \<Rightarrow> path \<Rightarrow> bool" where
  "is_relative_to p root \<longleftrightarrow> take (length root) p = root"

text \<open>What the client gets from outside.\<close>

record cenv =
  k_crypto :: crypto
  k_random :: "nat \<Rightarrow> nat \<Rightarrow> bytes"
  k_clock :: "nat \<Rightarrow> pystr"
  k_float :: "pystr \<Rightarrow> pyfloat"
  k_printable :: "nat \<Rightarrow> bool"
  k_root :: path
    \<comment> \<open>\<open>MEDIA_ROOT\<close>, already resolved\<close>
  k_resolve :: "path \<Rightarrow> path"
  k_mkdir :: "path \<Rightarrow> bool"
  k_writable :: "path \<Rightarrow> bool"
  k_read :: "pystr \<Rightarrow> bytes option"
  k_exn :: "exn \<Rightarrow> pystr"
    \<comment> \<open>\<open>str(e)\<close>\<close>

definition build_receive_path :: "cenv \<Rightarrow> pystr \<Rightarrow> json \<Rightarrow> json \<Rightarrow> path result" where
  "build_receive_path ke username sender filename =
     (let user_part = safe_path_part (k_printable ke) (JStr username) (lit ''unknown_user'');
          sender_part = safe_path_part (k_printable ke) sender (lit ''unknown_sender'');
          save_dir = path_join (path_join (k_root ke) (lit ''user_'' @ user_part))
            (lit ''from_'' @ sender_part);
          save_path = k_resolve ke (path_join save_dir (safe_filename (k_printable ke) filename))
      in if \<not> is_relative_to save_path (k_root ke) then Inl ValueError else Inr save_path)"

section \<open>State\<close>

datatype link = NotConnected | Link bool bytes
  \<comment> \<open>open or closed, and the bytes written to it so far\<close>

record 'g client =
  username :: pystr
  aes_key :: bytes
  link :: link
  session_token :: json
  files :: "(path \<times> bytes) list"
  owner :: 'g
  c_draws :: nat
  c_ticks :: nat

record 'g callbacks =
  on_message_received :: "json \<Rightarrow> json \<Rightarrow> json option \<Rightarrow> 'g \<Rightarrow> unit result \<times> 'g"
  on_user_list :: "json \<Rightarrow> 'g \<Rightarrow> unit result \<times> 'g"

type_synonym ('g, 'a) action = "'g client \<Rightarrow> 'a result \<times> 'g client"

definition abind :: "('g, 'a) action \<Rightarrow> ('a \<Rightarrow> ('g, 'b) action) \<Rightarrow> ('g, 'b) action" where
  "abind m f x = (case m x of (Inl er, y) \<Rightarrow> (Inl er, y) | (Inr a, y) \<Rightarrow> f a y)"

definition areturn :: "'a \<Rightarrow> ('g, 'a) action" where
  "areturn a x = (Inr a, x)"

definition new_client :: "cenv \<Rightarrow> pystr \<Rightarrow> 'g \<Rightarrow> 'g client" where
  "new_client ke u g =
     \<lparr>username = u, aes_key = generate_aes_key (k_random ke) 0, link = NotConnected,
      session_token = JNull, files = [], owner = g, c_draws = 1, c_ticks = 0\<rparr>"

definition notify ::
  "'g callbacks \<Rightarrow> json \<Rightarrow> json \<Rightarrow> json option \<Rightarrow> ('g, unit) action" where
  "notify cb chat message sender x =
     (case on_message_received cb chat message sender (owner x) of
        (r, g) \<Rightarrow> (r, x\<lparr>owner := g\<rparr>))"

definition notify_users :: "'g callbacks \<Rightarrow> json \<Rightarrow> ('g, unit) action" where
  "notify_users cb users x =
     (case on_user_list cb users (owner x) of (r, g) \<Rightarrow> (r, x\<lparr>owner := g\<rparr>))"

text \<open>\<open>self.on_message_received("System", text)\<close>.\<close>

definition system_note :: "'g callbacks \<Rightarrow> pystr \<Rightarrow> ('g, unit) action" where
  "system_note cb message = notify cb (JStr (lit ''System'')) (JStr message) None"

definition sendall :: "bytes \<Rightarrow> ('g, unit) action" where
  "sendall bs x =
     (case link x of
        NotConnected \<Rightarrow> (Inl AttributeError, x)
      | Link up out \<Rightarrow>
          if up then (Inr (), x\<lparr>link := Link up (out @ bs)\<rparr>) else (Inl OSError, x))"

text \<open>
  \<open>conn.close()\<close>. The descriptor itself is released when the receive loop's \<open>makefile\<close> is gone
  too: at once for a loop that returns, and for \<open>disconnect\<close> with the end of the program.
\<close>

definition close_link :: "'g client \<Rightarrow> 'g client" where
  "close_link x =
     (case link x of NotConnected \<Rightarrow> x | Link up out \<Rightarrow> x\<lparr>link := Link False out\<rparr>)"

definition disconnect :: "'g client \<Rightarrow> 'g client" where
  "disconnect x = close_link x"

section \<open>Connecting\<close>

text \<open>
  \<open>dial\<close> is the outcome of \<open>create_connection\<close>: nothing when it fails, otherwise the
  segments the server will send. The answer is the rest of them, for the receive loop.
\<close>

definition connect :: "cenv \<Rightarrow> segments option \<Rightarrow> ('g, segments) action" where
  "connect ke dial x =
     (if is_safe_username (JStr (username x)) \<noteq> Inr True then (Inl ValueError, x)
      else case dial of
             None \<Rightarrow> (Inl OSError, x)
           | Some segs \<Rightarrow>
               (let x1 = x\<lparr>link := Link True []\<rparr>;
                    (public_key_bytes, segs1) = recv 4096 segs
                in case rsa_encrypt_key (k_crypto ke) public_key_bytes (aes_key x1) of
                     Inl er \<Rightarrow> (Inl er, x1)
                   | Inr encrypted_key \<Rightarrow>
                       (case utf8_encode (username x1) of
                          Inl er \<Rightarrow> abind (sendall encrypted_key) (\<lambda>_ y. (Inl er, y)) x1
                        | Inr name \<Rightarrow>
                            abind (sendall encrypted_key) (\<lambda>_. abind (sendall name)
                              (\<lambda>_. areturn segs1)) x1)))"

text \<open>
  With the address from the environment; \<open>network\<close> is \<open>socket.create_connection\<close>: the segments a
  connection to an address will deliver, or what it raises.
\<close>

definition connect_env ::
  "(nat \<Rightarrow> nat option) \<Rightarrow> environment \<Rightarrow> (pystr \<Rightarrow> int \<Rightarrow> segments result) \<Rightarrow> cenv \<Rightarrow> ('g, segments) action" where
  "connect_env dec env network ke x =
     (if is_safe_username (JStr (username x)) \<noteq> Inr True then (Inl ValueError, x)
      else case env_address dec env of
             Inl er \<Rightarrow> (Inl er, x)
           | Inr (ip, port) \<Rightarrow>
               (case network ip port of
                  Inl er \<Rightarrow> (Inl er, x)
                | Inr segs \<Rightarrow> connect ke (Some segs) x))"

section \<open>Receiving\<close>

datatype verdict = Go | Halt

text \<open>\<open>f"#{v}"\<close>.\<close>

definition hash_name :: "cenv \<Rightarrow> json \<Rightarrow> pystr" where
  "hash_name ke v = 35 # py_str (k_printable ke) v"

definition go_on :: "('g, unit) action \<Rightarrow> ('g, verdict) action" where
  "go_on m = abind m (\<lambda>_. areturn Go)"

definition received_text :: "cenv \<Rightarrow> json \<Rightarrow> json \<Rightarrow> pystr" where
  "received_text ke filename sender =
     lit ''Received: '' @ py_str (k_printable ke) filename @ lit '' from '' @
     py_str (k_printable ke) sender"

text \<open>
  The case \<open>"message_file" | "group_file"\<close>. A \<open>break\<close> of the code is \<open>Halt\<close>; a payload
  that is not a string fails at \<open>encoded_data + "==="\<close>, inside the inner \<open>try\<close>.
\<close>

definition receive_file :: "cenv \<Rightarrow> 'g callbacks \<Rightarrow> jobject \<Rightarrow> ('g, verdict) action" where
  "receive_file ke cb p x =
     (let filename = jget p (lit ''filename'');
          encoded_data = jget p (lit ''payload'');
          sender = jget p (lit ''from'');
          to = jget p (lit ''to'');
          to_type = jget p (lit ''to_type'')
      in if \<not> truthy filename \<or> \<not> truthy encoded_data then (Inr Halt, x)
         else case (case encoded_data of JStr s \<Rightarrow> b64decode (s @ pad3) | _ \<Rightarrow> Inl TypeError) of
                Inl er \<Rightarrow> (Inr Halt, x)
              | Inr filedata \<Rightarrow>
                  (case build_receive_path ke (username x) sender filename of
                     Inl er \<Rightarrow> (Inl er, x)
                   | Inr save_path \<Rightarrow>
                       if \<not> k_mkdir ke (butlast save_path) then (Inl OSError, x)
                       else if \<not> k_writable ke save_path then (Inr Halt, x)
                       else
                         (let chat_target =
                            (if to_type = JStr (lit ''group'') then JStr (hash_name ke to) else sender)
                          in go_on (notify cb chat_target (JStr (received_text ke filename sender))
                               (Some (JStr (lit ''System''))))
                               (x\<lparr>files := files x @ [(save_path, filedata)]\<rparr>))))"

definition dispatch :: "cenv \<Rightarrow> 'g callbacks \<Rightarrow> jobject \<Rightarrow> ('g, verdict) action" where
  "dispatch ke cb p x =
     (let t = jget p (lit ''type'')
      in if t = JStr (lit ''user_list'') then
           go_on (notify_users cb (jget p (lit ''users''))) x
         else if t = JStr (lit ''login_success'') then
           (Inr Go, x\<lparr>session_token := jget p (lit ''token'')\<rparr>)
         else if t = JStr (lit ''error'') then (Inr Halt, close_link x)
         else if t = JStr (lit ''message'') then
           (let chat_type = jget p (lit ''from'');
                sender = jget_or p (lit ''sender'') chat_type;
                message = jget p (lit ''payload'')
            in go_on (notify cb chat_type message (Some sender)) x)
         else if t = JStr (lit ''group_message'') then
           (let chat_type = JStr (hash_name ke (jget p (lit ''to'')));
                sender = jget p (lit ''from'');
                message = jget p (lit ''payload'')
            in go_on (notify cb chat_type message (Some sender)) x)
         else if t = JStr (lit ''group_invite'') then
           (let group_name = jget p (lit ''group_name'')
            in go_on (notify cb (JStr (hash_name ke group_name))
                 (JStr (lit ''Added to '' @ py_str (k_printable ke) group_name))
                 (Some (JStr (lit ''System'')))) x)
         else if t = JStr (lit ''group_created'') then
           (let group_name = jget p (lit ''group_name'')
            in go_on (notify cb (JStr (hash_name ke group_name))
                 (JStr (lit ''Group '' @ py_str (k_printable ke) group_name @ lit '' created.''))
                 (Some (JStr (lit ''System'')))) x)
         else if t = JStr (lit ''message_file'') \<or> t = JStr (lit ''group_file'') then
           receive_file ke cb p x
         else (Inr Go, x))"

text \<open>One frame: \<open>payload.get\<close> on a value that is not a dict is an \<open>AttributeError\<close>.\<close>

definition receive_frame :: "cenv \<Rightarrow> 'g callbacks \<Rightarrow> bytes \<Rightarrow> ('g, verdict) action" where
  "receive_frame ke cb data x =
     (case rbind (decrypt_message (k_crypto ke) data (aes_key x)) (loads (k_float ke)) of
        Inl er \<Rightarrow> (Inl er, x)
      | Inr v \<Rightarrow> (case v of JObj p \<Rightarrow> dispatch ke cb p x | _ \<Rightarrow> (Inl AttributeError, x)))"

text \<open>
  The loop. \<open>except OSError\<close> leaves it, any other exception is printed and the loop goes on,
  also after a header of fewer than four bytes.
\<close>

function receive_loop :: "cenv \<Rightarrow> 'g callbacks \<Rightarrow> bytes \<Rightarrow> 'g client \<Rightarrow> 'g client" where
  "receive_loop ke cb inp x =
     (let header = take 4 inp; s1 = drop 4 inp
      in if header = [] then x
         else case unpack_be32 header of
                Inl er \<Rightarrow> receive_loop ke cb s1 x
              | Inr msg_len \<Rightarrow>
                  if msg_len > MAX_FRAME_SIZE then x
                  else let data = take msg_len s1; s2 = drop msg_len s1
                       in if length data < msg_len then x
                          else case receive_frame ke cb data x of
                                 (Inl er, y) \<Rightarrow>
                                   if er = OSError then y else receive_loop ke cb s2 y
                               | (Inr Go, y) \<Rightarrow> receive_loop ke cb s2 y
                               | (Inr Halt, y) \<Rightarrow> y)"
  by pat_completeness auto
termination
  by (relation "measure (\<lambda>(ke, cb, inp, x). length inp)") auto

declare receive_loop.simps [simp del]

section \<open>Sending\<close>

text \<open>\<open>datetime.now(utc).isoformat() + "Z"\<close>, one reading of the clock.\<close>

definition c_stamp :: "cenv \<Rightarrow> 'g client \<Rightarrow> json" where
  "c_stamp ke x = JStr (k_clock ke (c_ticks x) @ lit ''Z'')"

definition c_tick :: "'g client \<Rightarrow> 'g client" where
  "c_tick x = x\<lparr>c_ticks := Suc (c_ticks x)\<rparr>"

definition send_encrypted :: "cenv \<Rightarrow> pystr \<Rightarrow> ('g, unit) action" where
  "send_encrypted ke payload x =
     (case encrypt_message (k_crypto ke) (k_random ke (c_draws x) 12) payload (aes_key x) of
        Inl er \<Rightarrow> (Inl er, x)
      | Inr encrypted \<Rightarrow>
          (let x1 = x\<lparr>c_draws := Suc (c_draws x)\<rparr>
           in case pack_be32 (length encrypted) of
                Inl er \<Rightarrow> (Inl er, x1)
              | Inr length_prefix \<Rightarrow> sendall (length_prefix @ encrypted) x1))"

text \<open>A note to the owner, then \<open>return False\<close>.\<close>

definition refuse :: "'g callbacks \<Rightarrow> pystr \<Rightarrow> ('g, bool) action" where
  "refuse cb message = abind (system_note cb message) (\<lambda>_. areturn False)"

definition text_too_long :: pystr where
  "text_too_long =
     lit ''Message too long. Limit is '' @ int_str (int MAX_MESSAGE_SIZE) @ lit '' bytes.''"

definition file_too_large :: pystr where
  "file_too_large =
     lit ''File too large. Limit is '' @ int_str (int MAX_FILE_SIZE) @ lit '' bytes.''"

definition text_request :: "string \<Rightarrow> string \<Rightarrow> pystr \<Rightarrow> pystr \<Rightarrow> pystr \<Rightarrow> json \<Rightarrow> jobject" where
  "text_request type to_type from_user to message timestamp =
     [(lit ''type'', JStr (lit type)), (lit ''from'', JStr from_user), (lit ''to'', JStr to),
      (lit ''to_type'', JStr (lit to_type)), (lit ''payload'', JStr message),
      (lit ''payload_type'', JStr (lit ''text'')), (lit ''timestamp'', timestamp)]"

text \<open>The size check and the send, shared by the two kinds of text message.\<close>

definition send_text :: "cenv \<Rightarrow> 'g callbacks \<Rightarrow> pystr \<Rightarrow> ('g, bool) action" where
  "send_text ke cb payload x =
     (case check_message_size payload of
        Inl er \<Rightarrow> (Inl er, x)
      | Inr False \<Rightarrow> refuse cb text_too_long x
      | Inr True \<Rightarrow> abind (send_encrypted ke payload) (\<lambda>_. areturn True) x)"

definition send_group_message ::
  "cenv \<Rightarrow> 'g callbacks \<Rightarrow> pystr \<Rightarrow> pystr \<Rightarrow> ('g, bool) action" where
  "send_group_message ke cb to_group message x =
     (let group_name = lstrip_char 35 to_group
      in if is_safe_group_name (JStr group_name) \<noteq> Inr True
         then refuse cb (lit ''Invalid group name.'') x
         else send_text ke cb (dumps (JObj (text_request ''group_message'' ''group'' (username x)
                group_name message (c_stamp ke x)))) (c_tick x))"

definition send_message :: "cenv \<Rightarrow> 'g callbacks \<Rightarrow> pystr \<Rightarrow> pystr \<Rightarrow> ('g, bool) action" where
  "send_message ke cb to_user message x =
     (if is_safe_username (JStr to_user) \<noteq> Inr True
      then refuse cb (lit ''Invalid recipient username.'') x
      else send_text ke cb (dumps (JObj (text_request ''message'' ''user'' (username x)
             to_user message (c_stamp ke x)))) (c_tick x))"

definition group_request :: "pystr \<Rightarrow> pystr \<Rightarrow> pystr list \<Rightarrow> json \<Rightarrow> jobject" where
  "group_request from_user group_name members timestamp =
     [(lit ''type'', JStr (lit ''create_group'')), (lit ''from'', JStr from_user),
      (lit ''group_name'', JStr group_name), (lit ''members'', JList (map JStr members)),
      (lit ''timestamp'', timestamp)]"

definition create_group ::
  "cenv \<Rightarrow> 'g callbacks \<Rightarrow> pystr \<Rightarrow> pystr list \<Rightarrow> ('g, bool) action" where
  "create_group ke cb group_name members x =
     (if is_safe_group_name (JStr group_name) \<noteq> Inr True
      then refuse cb (lit ''Invalid group name.'') x
      else if \<not> list_all (\<lambda>m. is_safe_username (JStr m) = Inr True) members
      then refuse cb (lit ''Invalid group member username.'') x
      else abind (send_encrypted ke
             (dumps (JObj (group_request (username x) group_name members (c_stamp ke x)))))
             (\<lambda>_. areturn True) (c_tick x))"

definition file_request ::
  "string \<Rightarrow> string \<Rightarrow> pystr \<Rightarrow> pystr \<Rightarrow> pystr \<Rightarrow> pystr \<Rightarrow> json \<Rightarrow> jobject" where
  "file_request type to_type from_user to encoded_file filename timestamp =
     [(lit ''type'', JStr (lit type)), (lit ''from'', JStr from_user), (lit ''to'', JStr to),
      (lit ''to_type'', JStr (lit to_type)), (lit ''payload'', JStr encoded_file),
      (lit ''payload_type'', JStr (lit ''file'')), (lit ''filename'', JStr filename),
      (lit ''payload_id'', JNull), (lit ''timestamp'', timestamp)]"

text \<open>
  The \<open>try\<close> block of the two upload operations: read, encode, check, send, tell the owner;
  an exception anywhere in it becomes a note and \<open>False\<close>.
\<close>

definition upload_file ::
  "cenv \<Rightarrow> 'g callbacks \<Rightarrow> string \<Rightarrow> string \<Rightarrow> pystr \<Rightarrow> pystr \<Rightarrow> pystr \<Rightarrow> pystr \<Rightarrow> ('g, bool) action" where
  "upload_file ke cb type to_type to shown filename file_path x =
     (case (case k_read ke file_path of
              None \<Rightarrow> (Inl OSError, x)
            | Some file \<Rightarrow>
                (let encoded_file = b64encode file;
                     payload = dumps (JObj (file_request type to_type (username x) to encoded_file
                       filename (c_stamp ke x)))
                 in if \<not> check_file_size (JStr encoded_file)
                    then refuse cb file_too_large (c_tick x)
                    else abind (send_encrypted ke payload)
                           (\<lambda>_. abind (system_note cb
                              (lit ''Sent '' @ path_basename file_path @ lit '' to '' @ shown))
                              (\<lambda>_. areturn True)) (c_tick x)))
      of (Inl er, y) \<Rightarrow> refuse cb (lit ''Could not upload file: '' @ k_exn ke er) y
       | (Inr b, y) \<Rightarrow> (Inr b, y))"

definition blocked_note :: "pystr \<Rightarrow> pystr" where
  "blocked_note file_path = lit ''Blocked dangerous file: '' @ file_path"

definition send_file :: "cenv \<Rightarrow> 'g callbacks \<Rightarrow> pystr \<Rightarrow> pystr \<Rightarrow> ('g, bool) action" where
  "send_file ke cb to_user file_path x =
     (let filename = path_basename file_path
      in if is_safe_username (JStr to_user) \<noteq> Inr True
         then refuse cb (lit ''Invalid recipient username.'') x
         else if \<not> is_safe_transfer_filename (k_printable ke) (JStr filename)
         then refuse cb (blocked_note file_path) x
         else upload_file ke cb ''message_file'' ''user'' to_user to_user filename file_path x)"

definition send_group_file :: "cenv \<Rightarrow> 'g callbacks \<Rightarrow> pystr \<Rightarrow> pystr \<Rightarrow> ('g, bool) action" where
  "send_group_file ke cb to_group file_path x =
     (let group_name = lstrip_char 35 to_group; filename = path_basename file_path
      in if is_safe_group_name (JStr group_name) \<noteq> Inr True
         then refuse cb (lit ''Invalid group name.'') x
         else if \<not> is_safe_transfer_filename (k_printable ke) (JStr filename)
         then refuse cb (blocked_note file_path) x
         else upload_file ke cb ''group_file'' ''group'' group_name to_group filename file_path x)"

section \<open>What connecting writes\<close>

lemma connect_writes:
  assumes "name_match 32 (username x)" and "length (aes_key x) \<le> 190"
    and "rsa_pair (k_crypto ke) hello priv" and "length hello \<le> 4096"
  shows "\<exists>w. connect ke (Some (hello # segs)) x =
      (Inr segs, x\<lparr>link := Link True (w @ map of_nat (username x))\<rparr>) \<and>
    length w = 256 \<and> rsa_unwrap (k_crypto ke) priv w = Some (aes_key x)"
proof -
  obtain w where w: "rsa_wrap (k_crypto ke) hello (aes_key x) = Inr w" "length w = 256"
    "rsa_unwrap (k_crypto ke) priv w = Some (aes_key x)"
    using assms(2,3) by (auto simp: rsa_pair_def)
  have "utf8_encode (username x) = Inr (map of_nat (username x))"
    by (rule utf8_encode_ascii [OF name_match_ascii [OF assms(1)]])
  then show ?thesis
    using w assms(1,4)
    by (intro exI [of _ w]) (simp add: connect_def Let_def recv_def rsa_encrypt_key_def abind_def sendall_def areturn_def)
qed

section \<open>Where received files go\<close>

lemma is_relative_to_append [simp]: "is_relative_to (root @ q) root"
  by (simp add: is_relative_to_def)

text \<open>The check at the end of \<open>build_receive_path\<close>, whatever \<open>resolve\<close> follows.\<close>

lemma build_receive_path_inside:
  "build_receive_path ke u sender filename = Inr p \<Longrightarrow> is_relative_to p (k_root ke)"
  by (auto simp: build_receive_path_def Let_def split: if_splits)

definition plain_part :: "pystr \<Rightarrow> bool" where
  "plain_part p \<longleftrightarrow> p \<notin> {[], lit ''.'', lit ''..''} \<and> 47 \<notin> set p"

text \<open>No link below the media directory: resolving a path without dots changes nothing.\<close>

definition no_links :: "cenv \<Rightarrow> bool" where
  "no_links ke \<longleftrightarrow>
     (\<forall>q. list_all plain_part q \<longrightarrow> k_resolve ke (k_root ke @ q) = k_root ke @ q)"

lemma path_join_plain: "plain_part s \<Longrightarrow> path_join root s = root @ [s]"
  by (cases s) (auto simp: plain_part_def path_join_def path_parts_def split_acc_none)

lemma plain_part_prefixed: "47 \<notin> set s \<Longrightarrow> plain_part (lit ''user_'' @ s) \<and> plain_part (lit ''from_'' @ s)"
  by (auto simp: plain_part_def py_eval)

definition receive_parts :: "cenv \<Rightarrow> pystr \<Rightarrow> json \<Rightarrow> json \<Rightarrow> path" where
  "receive_parts ke u sender filename =
     [lit ''user_'' @ safe_path_part (k_printable ke) (JStr u) (lit ''unknown_user''),
      lit ''from_'' @ safe_path_part (k_printable ke) sender (lit ''unknown_sender''),
      safe_filename (k_printable ke) filename]"

lemma receive_parts_plain: "list_all plain_part (receive_parts ke u sender filename)"
  using su.no_separator(1) [of "k_printable ke" "JStr u"] ss.no_separator(1) [of "k_printable ke" sender]
    sf.no_separator(1) [of "k_printable ke" filename] sf.not_special [of "k_printable ke" filename]
  by (simp add: receive_parts_def plain_part_prefixed path_part_or_def) (simp add: plain_part_def)

lemma build_receive_path_no_links:
  assumes "no_links ke"
  shows "build_receive_path ke u sender filename =
    Inr (k_root ke @ receive_parts ke u sender filename)"
proof -
  note plain = receive_parts_plain [of ke u sender filename, unfolded receive_parts_def, simplified]
  have "k_resolve ke (k_root ke @ receive_parts ke u sender filename) =
      k_root ke @ receive_parts ke u sender filename"
    using assms receive_parts_plain by (simp add: no_links_def)
  then show ?thesis
    using plain by (simp add: build_receive_path_def Let_def path_join_plain receive_parts_def)
qed

text \<open>No frame a server can send makes the client write outside the media directory.\<close>

definition files_inside :: "cenv \<Rightarrow> 'g client \<Rightarrow> bool" where
  "files_inside ke x \<longleftrightarrow> list_all (\<lambda>f. is_relative_to (fst f) (k_root ke)) (files x)"

lemma notify_files [simp]:
  "files (snd (notify cb a b o' x)) = files x" "files (snd (notify_users cb v x)) = files x"
  by (simp_all add: notify_def notify_users_def split: prod.splits)

lemma go_on_files [simp]: "files (snd (go_on m x)) = files (snd (m x))"
  by (auto simp: go_on_def abind_def areturn_def split: prod.splits sum.splits)

lemma close_link_files [simp]: "files (close_link x) = files x"
  by (simp add: close_link_def split: link.splits)

lemma receive_file_inside: "files_inside ke x \<Longrightarrow> files_inside ke (snd (receive_file ke cb p x))"
  by (auto simp: receive_file_def Let_def files_inside_def dest: build_receive_path_inside
      split: sum.splits json.splits)

lemma dispatch_inside: "files_inside ke x \<Longrightarrow> files_inside ke (snd (dispatch ke cb p x))"
  using receive_file_inside [of ke x cb p] by (auto simp: dispatch_def Let_def files_inside_def)

lemma receive_frame_inside: "files_inside ke x \<Longrightarrow> files_inside ke (snd (receive_frame ke cb d x))"
  using dispatch_inside by (auto simp: receive_frame_def split: sum.splits json.splits)

lemma receive_loop_files_inside: "files_inside ke x \<Longrightarrow> files_inside ke (receive_loop ke cb inp x)"
proof (induction ke cb inp x rule: receive_loop.induct)
  case (1 ke cb inp x)
  show ?case
  proof (cases "take 4 inp = [] \<or> (\<exists>er. unpack_be32 (take 4 inp) = Inl er)")
    case True
    then show ?thesis
      using "1.IH"(1) [OF refl refl] "1.prems" by (subst receive_loop.simps) (auto simp: Let_def)
  next
    case False
    then obtain n where n: "take 4 inp \<noteq> []" "unpack_be32 (take 4 inp) = Inr n"
      by (cases "unpack_be32 (take 4 inp)") auto
    obtain r y where r: "receive_frame ke cb (take n (drop 4 inp)) x = (r, y)" by force
    have y: "files_inside ke y"
      using receive_frame_inside [OF "1.prems", of cb "take n (drop 4 inp)"] by (simp add: r)
    show ?thesis
    proof (cases "MAX_FRAME_SIZE < n \<or> length (take n (drop 4 inp)) < n")
      case True
      then show ?thesis using n "1.prems" by (subst receive_loop.simps) (auto simp: Let_def)
    next
      case False
      then show ?thesis
        using n r y "1.IH"(2,3) [OF refl refl n(1,2) _ refl refl]
        by (subst receive_loop.simps) (auto simp: Let_def split: sum.splits verdict.splits)
    qed
  qed
qed

section \<open>Properties\<close>

text \<open>The directory name of a sender with a valid user name.\<close>

lemma safe_path_part_name:
  assumes "name_match 32 a"
  shows "safe_path_part pr (JStr a) fb =
    (if strip_by is_dot_us a = [] then fb else strip_by is_dot_us a)"
proof -
  have "length (strip_by is_dot_us a) \<le> length a"
    unfolding strip_by_def length_rev by (metis length_dropWhile_le length_rev order_trans)
  then have "take 80 (strip_by is_dot_us a) = strip_by is_dot_us a"
    using assms by (simp add: name_match_def)
  then show ?thesis
    using assms by (simp add: safe_path_part_def clean_part_def sub_unsafe_id name_match_def)
qed

text \<open>C19
  Nothing a server sends makes the client write outside its media directory: whatever bytes
  arrive, whatever links \<open>resolve\<close> follows and whatever the owner's callbacks do, every file
  written while the receive loop runs lies under the media root.\<close>

theorem client_writes_inside_media:
  assumes "files x = []"
  shows "list_all (\<lambda>f. is_relative_to (fst f) (k_root ke)) (files (receive_loop ke cb inp x))"
proof -
  have "files_inside ke x" using assms by (simp add: files_inside_def)
  from receive_loop_files_inside [OF this] show ?thesis by (simp add: files_inside_def)
qed

text \<open>
  Where a received file goes. Without links under the media root, the path of a received file is
  exactly root, one directory for the receiving user, one for the sender and the sanitised file
  name, for JSON values of any type in the fields, and the check against the root never fails.\<close>

theorem receive_path_shape:
  assumes "no_links ke"
  shows "\<exists>a b f. build_receive_path ke u sender filename =
      Inr (k_root ke @ [lit ''user_'' @ a, lit ''from_'' @ b, f]) \<and>
    good_component 80 a \<and> good_component 80 b \<and> good_component 120 f"
  using build_receive_path_no_links [OF assms, of u sender filename]
    su.good [of "k_printable ke" "JStr u"] ss.good [of "k_printable ke" sender]
    sf.good [of "k_printable ke" filename]
  unfolding receive_parts_def path_part_or_def by blast

text \<open>C38
  Receive directories and user names. Two senders whose names neither start nor end with a dot
  or an underscore share a path only if they are the same user; but \<open>_u\<close> is a valid user name
  whenever \<open>u\<close> is one of at most 31 characters, and shares the directory of \<open>u\<close>: a file of
  one replaces a file of the same name of the other.\<close>

theorem receive_directories:
  assumes "no_links ke" and "name_match 31 u" and "name_match 32 a" and "name_match 32 b"
    and "hd a \<notin> {46, 95}" and "last a \<notin> {46, 95}" and "hd b \<notin> {46, 95}" and "last b \<notin> {46, 95}"
  shows "is_safe_username (JStr (95 # u)) = Inr True \<and>
    build_receive_path ke me (JStr (95 # u)) f = build_receive_path ke me (JStr u) f \<and>
    (build_receive_path ke me (JStr a) f = build_receive_path ke me (JStr b) f \<longleftrightarrow> a = b)"
proof -
  note path = build_receive_path_no_links [OF assms(1), unfolded receive_parts_def]
  have u: "name_match 32 (95 # u)" "name_match 32 u"
    using assms(2) by (auto simp: name_match_def is_name_char_def)
  have "strip_by is_dot_us (95 # u) = strip_by is_dot_us u"
    by (simp add: strip_by_def is_dot_us_def)
  moreover have "strip_by is_dot_us a = a" "strip_by is_dot_us b = b" "a \<noteq> []" "b \<noteq> []"
    using assms(3-8) by (auto simp: is_dot_us_def name_match_def intro!: strip_by_id)
  ultimately show ?thesis
    using u assms(3,4) by (simp add: path safe_path_part_name)
qed

end
