(* ===== verification/Delivery.thy ===== *)
theory Delivery
  imports Connection
begin

text \<open>
  Who exactly receives what: the list of users goes to everyone who can be reached, a direct
  message to its one recipient, a group request to all members on line; and what a failing
  member does to each of these loops.
\<close>

section \<open>The loops, exactly\<close>

text \<open>A target that is always served, and one that never is, from the tables of \<open>s\<close> on.\<close>

definition always_ok :: "send_op \<Rightarrow> json \<Rightarrow> server \<Rightarrow> conn \<times> bytes \<Rightarrow> bool" where
  "always_ok send p s t \<longleftrightarrow>
     (\<forall>s1. same_tables s s1 \<longrightarrow> (\<exists>u s2. send (fst t) (snd t) p s1 = (Inr u, s2)))"

definition always_fails :: "send_op \<Rightarrow> json \<Rightarrow> server \<Rightarrow> conn \<times> bytes \<Rightarrow> bool" where
  "always_fails send p s t \<longleftrightarrow>
     (\<forall>s1. same_tables s s1 \<longrightarrow> (\<exists>x s2. send (fst t) (snd t) p s1 = (Inl x, s2)))"

lemma always_mono:
  "same_tables s s1 \<Longrightarrow> always_ok send p s t \<Longrightarrow> always_ok send p s1 t"
  "same_tables s s1 \<Longrightarrow> always_fails send p s t \<Longrightarrow> always_fails send p s1 t"
  unfolding always_ok_def always_fails_def using same_tables_trans by blast+

context transport begin

lemma always_okD:
  assumes "always_ok send p s (c, k)"
  obtains u s1 where "send c k p s = (Inr u, s1)" "delivered (wrap_payload p) [(c, k)] s s1"
  using assms send_done [of c k p s] unfolding always_ok_def by (metis fst_conv snd_conv same_tables_refl)

lemma always_failsD:
  assumes "always_fails send p s (c, k)"
  obtains x s1 where "send c k p s = (Inl x, s1)" "delivered (wrap_payload p) [] s s1"
  using assms send_failed [of c k p s] unfolding always_fails_def by (metis fst_conv snd_conv same_tables_refl)

lemma send_each_exact:
  assumes "\<And>t. t \<in> set ts \<Longrightarrow> ok t \<Longrightarrow> always_ok send p s t"
    and "\<And>t. t \<in> set ts \<Longrightarrow> \<not> ok t \<Longrightarrow> always_fails send p s t"
  shows "delivered (wrap_payload p) (filter ok ts) s (send_each send p ts s)"
  using assms
proof (induction ts arbitrary: s)
  case (Cons t ts)
  obtain c k where t: "t = (c, k)" by force
  obtain r s1 us where r: "send c k p s = (r, s1)" "delivered (wrap_payload p) us s s1"
    "us = (if ok t then [t] else [])"
  proof (cases "ok t")
    case True
    then have "always_ok send p s (c, k)" using Cons.prems(1) t by simp
    then show ?thesis using that True t by (auto elim!: always_okD)
  next
    case False
    then have "always_fails send p s (c, k)" using Cons.prems(2) t by simp
    then show ?thesis using that False t by (auto elim!: always_failsD)
  qed
  have "same_tables s s1" by (rule delivered_tables [OF r(2)])
  then have "delivered (wrap_payload p) (filter ok ts) s1 (send_each send p ts s1)"
    using Cons.prems by (intro Cons.IH) (auto intro: always_mono)
  from delivered_append [OF r(2) this] show ?case
    using r(1,3) t by (simp split: if_splits)
qed simp

text \<open>When every member can be served the loop returns and serves them all, in order.\<close>

lemma send_members_all:
  assumes "\<And>t. t \<in> set (fanout_targets (clients s) u ms) \<Longrightarrow> always_ok send p s t"
  shows "\<exists>s'. send_members send u p ms s = (Inr (), s') \<and>
    delivered (wrap_payload p) (fanout_targets (clients s) u ms) s s'"
  using assms
proof (induction ms arbitrary: s)
  case (Cons m ms)
  show ?case
  proof (cases "m = u \<or> dict_get (clients s) m = None")
    case True
    then show ?thesis
      using Cons by (auto simp: fanout_targets_Cons split: option.splits if_splits)
  next
    case False
    then obtain c k where m: "dict_get (clients s) m = Some (c, k)" "m \<noteq> u" by auto
    have T: "fanout_targets (clients s) u (m # ms) = (c, k) # fanout_targets (clients s) u ms"
      using m by (simp add: fanout_targets_Cons)
    have "always_ok send p s (c, k)" using Cons.prems unfolding T by simp
    then obtain v s1 where s1: "send c k p s = (Inr v, s1)" "delivered (wrap_payload p) [(c, k)] s s1"
      by (rule always_okD)
    have st: "same_tables s s1" by (rule delivered_tables [OF s1(2)])
    then have cl: "clients s1 = clients s" by (simp add: same_tables_def)
    have ok1: "always_ok send p s1 t" if "t \<in> set (fanout_targets (clients s1) u ms)" for t
      using that Cons.prems [of t] always_mono(1) [OF st] unfolding T cl by simp
    obtain s' where "send_members send u p ms s1 = (Inr (), s')"
      "delivered (wrap_payload p) (fanout_targets (clients s) u ms) s1 s'"
      using Cons.IH [OF ok1] unfolding cl by blast
    then show ?thesis
      using delivered_append [OF s1(2)] m s1(1) unfolding T by auto
  qed
qed simp

text \<open>The first member that cannot be served ends the loop: those after it get nothing.\<close>

lemma send_members_stops:
  assumes "fanout_targets (clients s) u ms = pre @ t # post"
    and "\<And>t. t \<in> set pre \<Longrightarrow> always_ok send p s t" and "always_fails send p s t"
  shows "\<exists>x s'. send_members send u p ms s = (Inl x, s') \<and> delivered (wrap_payload p) pre s s'"
  using assms
proof (induction ms arbitrary: s pre)
  case (Cons m ms)
  show ?case
  proof (cases "m = u \<or> dict_get (clients s) m = None")
    case True
    then show ?thesis
      using Cons by (auto simp: fanout_targets_Cons split: option.splits if_splits)
  next
    case False
    then obtain c k where m: "dict_get (clients s) m = Some (c, k)" "m \<noteq> u" by auto
    have T: "(c, k) # fanout_targets (clients s) u ms = pre @ t # post"
      using Cons.prems(1) m by (simp add: fanout_targets_Cons)
    show ?thesis
    proof (cases pre)
      case Nil
      with T Cons.prems(3) have "always_fails send p s (c, k)" by simp
      then show ?thesis using m Nil by (auto elim!: always_failsD)
    next
      case (Cons a pre')
      with T have a: "a = (c, k)" "fanout_targets (clients s) u ms = pre' @ t # post" by simp_all
      have "always_ok send p s (c, k)" using Cons.prems(2) Cons a by simp
      then obtain v s1 where s1: "send c k p s = (Inr v, s1)"
        "delivered (wrap_payload p) [(c, k)] s s1"
        by (rule always_okD)
      have st: "same_tables s s1" by (rule delivered_tables [OF s1(2)])
      then have cl: "fanout_targets (clients s1) u ms = pre' @ t # post"
        using a by (simp add: same_tables_def)
      obtain x s' where "send_members send u p ms s1 = (Inl x, s')"
        "delivered (wrap_payload p) pre' s1 s'"
        using Cons.IH [OF cl] Cons.prems(2,3) always_mono [OF st] Cons by auto
      then show ?thesis
        using delivered_append [OF s1(2)] m s1(1) Cons a by auto
    qed
  qed
qed simp

end

section \<open>Which sends succeed\<close>

text \<open>A connection that takes writes, with a key AES-GCM accepts.\<close>

definition live_target :: "server \<Rightarrow> conn \<times> bytes \<Rightarrow> bool" where
  "live_target s t \<longleftrightarrow> \<not> broken s (fst t) \<and> aes_key_ok (snd t)"

definition fits :: "env \<Rightarrow> json \<Rightarrow> bool" where
  "fits e p \<longleftrightarrow> payload_ok e p \<and> length (dumps p) + 28 < 2 ^ 32"

lemma live_always_ok:
  assumes "env_ok e" and "fits e (wrap_payload p)" and "live_target s t"
  shows "always_ok (send_payload e) p s t"
proof -
  have "sendable e s (fst t) (snd t) p"
    using assms by (intro sendable_small) (simp_all add: fits_def live_target_def)
  then show ?thesis
    unfolding always_ok_def
    by (metis same_tables_sendable send_payload_sendable fst_conv surj_pair)
qed

lemma dead_always_fails: "\<not> live_target s t \<Longrightarrow> always_fails (send_payload e) p s t"
  unfolding always_fails_def live_target_def same_tables_def
  by (metis send_payload_bad_key send_payload_broken)

lemma delivered_tick: "delivered p ts (tick s) s' \<Longrightarrow> delivered p ts s s'"
  by (simp add: delivered_def same_tables_def)

lemma live_target_tick [simp]: "live_target (tick s) t = live_target s t"
  by (simp add: live_target_def)

section \<open>The requests, exactly\<close>

lemma broadcast_exact:
  assumes "env_ok e" and "fits e (user_list_payload (dict_keys (clients s)))"
  shows "delivered (user_list_payload (dict_keys (clients s)))
    (filter (live_target s) (map snd (clients s))) s (broadcast_user_list e s)"
proof -
  let ?p = "user_list_payload (dict_keys (clients s))"
  have "delivered (wrap_payload ?p) (filter (live_target s) (map snd (clients s))) s
      (send_each (send_payload e) ?p (map snd (clients s)) s)"
    by (rule tr.send_each_exact)
      (simp_all add: live_always_ok [OF assms(1)] assms(2) dead_always_fails)
  then show ?thesis by (simp add: broadcast_user_list_def)
qed

definition accepts_message :: "env \<Rightarrow> jobject \<Rightarrow> pystr \<Rightarrow> bool" where
  "accepts_message e p v \<longleftrightarrow>
     jget p (lit ''to'') = JStr v \<and> name_match 32 v \<and>
     check_message_size (py_str (e_printable e) (jget_or p (lit ''payload'') (JStr []))) = Inr True"

lemma handle_message_accepted:
  "accepts_message e p v \<Longrightarrow>
   handle_message e u c k p s = forward_payload e v (JObj (message_payload e p s)) (tick s)"
  by (simp add: accepts_message_def handle_message_def str_of_def)

lemma handle_message_delivers:
  assumes "accepts_message e p v" and "dict_get (clients s) v = Some t" and "live_target s t"
    and "env_ok e" and "fits e (JObj (message_payload e p s))"
  shows "\<exists>s'. handle_message e u c k p s = (Inr (), s') \<and>
    delivered (JObj (message_payload e p s)) [t] s s'"
proof -
  obtain c' k' where t: "t = (c', k')" by force
  have "always_ok (send_payload e) (JObj (message_payload e p s)) (tick s) (c', k')"
    by (rule live_always_ok) (use assms(3-5) in \<open>simp_all add: t\<close>)
  then obtain s' where "send_payload e c' k' (JObj (message_payload e p s)) (tick s) = (Inr (), s')"
    "delivered (wrap_payload (JObj (message_payload e p s))) [(c', k')] (tick s) s'"
    by (rule tr.always_okD) simp
  then show ?thesis
    using assms(2) delivered_tick
    by (auto simp: handle_message_accepted [OF assms(1)] forward_payload_def t)
qed

lemma handle_message_absent:
  assumes "accepts_message e p v" and "dict_get (clients s) v = None"
  shows "handle_message e u c k p s = (Inr (), tick s)"
  using assms(2) by (simp add: handle_message_accepted [OF assms(1)] forward_payload_def)

lemma group_message_accepted:
  assumes "jget p (lit ''to'') = JStr g" and "name_match 48 g" and "in_group s g u"
  shows "handle_group_message e u c k p s =
    send_members (send_payload e) u (JObj (group_message_payload e g p s)) (group_members s g) (tick s)"
  using assms by (auto simp: handle_group_message_def in_group_def str_of_def Let_def)

text \<open>The connections a group request addresses: the members on line but the sender, in order.\<close>

definition group_targets :: "server \<Rightarrow> pystr \<Rightarrow> pystr \<Rightarrow> (conn \<times> bytes) list" where
  "group_targets s g u = fanout_targets (clients s) u (group_members s g)"

lemma in_group_targets:
  "t \<in> set (group_targets s g u) \<longleftrightarrow>
     (\<exists>m. in_group s g m \<and> m \<noteq> u \<and> dict_get (clients s) m = Some t)"
  by (auto simp: group_targets_def in_fanout_targets in_group_def)

lemma group_message_delivers:
  assumes "jget p (lit ''to'') = JStr g" and "name_match 48 g" and "in_group s g u"
    and "env_ok e" and "fits e (JObj (group_message_payload e g p s))"
    and "list_all (live_target s) (group_targets s g u)"
  shows "\<exists>s'. handle_group_message e u c k p s = (Inr (), s') \<and>
    delivered (JObj (group_message_payload e g p s)) (group_targets s g u) s s'"
proof -
  let ?p = "JObj (group_message_payload e g p s)"
  have ok: "always_ok (send_payload e) ?p (tick s) t"
    if "t \<in> set (fanout_targets (clients (tick s)) u (group_members s g))" for t
    using assms(4-6) that
    by (intro live_always_ok) (auto simp: group_targets_def list_all_iff)
  from tr.send_members_all [of "tick s" u "group_members s g" e ?p, OF ok] show ?thesis
    using delivered_tick by (auto simp: group_message_accepted [OF assms(1-3)] group_targets_def)
qed

lemma group_message_stops:
  assumes "jget p (lit ''to'') = JStr g" and "name_match 48 g" and "in_group s g u"
    and "env_ok e" and "fits e (JObj (group_message_payload e g p s))"
    and "group_targets s g u = pre @ t # post" and "list_all (live_target s) pre"
    and "\<not> live_target s t"
  shows "\<exists>x s'. handle_group_message e u c k p s = (Inl x, s') \<and>
    delivered (JObj (group_message_payload e g p s)) pre s s'"
proof -
  let ?p = "JObj (group_message_payload e g p s)"
  have ok: "always_ok (send_payload e) ?p (tick s) t" if "t \<in> set pre" for t
    using assms(4,5,7) that by (intro live_always_ok) (auto simp: list_all_iff)
  have no: "always_fails (send_payload e) ?p (tick s) t"
    using assms(8) by (intro dead_always_fails) simp
  have T: "fanout_targets (clients (tick s)) u (group_members s g) = pre @ t # post"
    using assms(6) by (simp add: group_targets_def)
  from tr.send_members_stops [OF T ok no] show ?thesis
    using delivered_tick by (auto simp: group_message_accepted [OF assms(1-3)])
qed

lemma group_message_outsider:
  assumes "jget p (lit ''to'') = JStr g" and "name_match 48 g" and "\<not> in_group s g u"
  shows "handle_group_message e u c k p s =
    send_error e c k (lit ''Not a member of that group.'') s"
  using assms by (auto simp: handle_group_message_def in_group_def str_of_def)

section \<open>Files, exactly\<close>

lemma file_acceptedD:
  assumes "file_accepted e p"
  shows "truthy (jget p (lit ''payload''))" and "truthy (jget p (lit ''filename''))"
    and "is_safe_transfer_filename (e_printable e) (jget p (lit ''filename''))"
    and "check_file_size (jget p (lit ''payload''))"
  using assms
  by (auto simp: file_accepted_def check_file_size_def is_safe_transfer_filename_def split: if_splits)

lemma handle_file_direct:
  assumes "file_accepted e p" and "jget p (lit ''to_type'') \<noteq> JStr (lit ''group'')"
    and "name_match 32 (file_target e p)"
  shows "handle_file e u c k p s =
    forward_payload e (file_target e p) (JObj (file_payload e p s)) (tick s)"
  using file_acceptedD [OF assms(1)] assms(2,3) by (simp add: handle_file_def)

lemma handle_file_group:
  assumes "file_accepted e p" and "jget p (lit ''to_type'') = JStr (lit ''group'')"
    and "name_match 48 (file_target e p)" and "in_group s (file_target e p) u"
  shows "handle_file e u c k p s =
    send_members (send_payload e) u (JObj (file_payload e p s)) (group_members s (file_target e p))
      (tick s)"
  using file_acceptedD [OF assms(1)] assms(2-4)
  by (auto simp: handle_file_def in_group_def Let_def)

lemma handle_file_delivers:
  assumes "file_accepted e p" and "jget p (lit ''to_type'') \<noteq> JStr (lit ''group'')"
    and "name_match 32 (file_target e p)" and "dict_get (clients s) (file_target e p) = Some t"
    and "live_target s t" and "env_ok e" and "fits e (JObj (file_payload e p s))"
  shows "\<exists>s'. handle_file e u c k p s = (Inr (), s') \<and>
    delivered (JObj (file_payload e p s)) [t] s s'"
proof -
  obtain c' k' where t: "t = (c', k')" by force
  have "always_ok (send_payload e) (JObj (file_payload e p s)) (tick s) (c', k')"
    by (rule live_always_ok) (use assms(5-7) in \<open>simp_all add: t\<close>)
  then obtain s' where "send_payload e c' k' (JObj (file_payload e p s)) (tick s) = (Inr (), s')"
    "delivered (wrap_payload (JObj (file_payload e p s))) [(c', k')] (tick s) s'"
    by (rule tr.always_okD) simp
  then show ?thesis
    using assms(4) delivered_tick
    by (auto simp: handle_file_direct [OF assms(1-3)] forward_payload_def t)
qed

lemma handle_group_file_delivers:
  assumes "file_accepted e p" and "jget p (lit ''to_type'') = JStr (lit ''group'')"
    and "name_match 48 (file_target e p)" and "in_group s (file_target e p) u"
    and "env_ok e" and "fits e (JObj (file_payload e p s))"
    and "list_all (live_target s) (group_targets s (file_target e p) u)"
  shows "\<exists>s'. handle_file e u c k p s = (Inr (), s') \<and>
    delivered (JObj (file_payload e p s)) (group_targets s (file_target e p) u) s s'"
proof -
  let ?p = "JObj (file_payload e p s)" and ?ms = "group_members s (file_target e p)"
  have ok: "always_ok (send_payload e) ?p (tick s) t"
    if "t \<in> set (fanout_targets (clients (tick s)) u ?ms)" for t
    using assms(5-7) that by (intro live_always_ok) (auto simp: group_targets_def list_all_iff)
  from tr.send_members_all [of "tick s" u ?ms e ?p, OF ok] show ?thesis
    using delivered_tick by (auto simp: handle_file_group [OF assms(1-4)] group_targets_def)
qed

section \<open>Group creation, exactly\<close>

definition accepts_group :: "jobject \<Rightarrow> server \<Rightarrow> pystr \<Rightarrow> pystr \<Rightarrow> pystr list \<Rightarrow> bool" where
  "accepts_group p s u g ms \<longleftrightarrow>
     jget p (lit ''group_name'') = JStr g \<and> name_match 48 g \<and>
     members_ok (jget_or p (lit ''members'') (JList [])) = Inr True \<and>
     ms = sorted_set (member_names (jget_or p (lit ''members'') (JList [])) @ [u]) \<and>
     dict_get (groups s) g = None"

definition with_group :: "server \<Rightarrow> pystr \<Rightarrow> pystr list \<Rightarrow> server" where
  "with_group s g ms = s\<lparr>groups := dict_set (groups s) g ms\<rparr>"

lemma with_group_simps [simp]:
  "clients (with_group s g ms) = clients s" "broken (with_group s g ms) = broken s"
  "sent (with_group s g ms) = sent s" "groups (with_group s g ms) = dict_set (groups s) g ms"
  "live_target (with_group s g ms) = live_target s"
  by (simp_all add: with_group_def live_target_def [abs_def])

lemma create_group_accepted:
  "accepts_group p s u g ms \<Longrightarrow>
   handle_create_group e u c k p s =
     (case send_members (send_payload e) u (invite_payload g ms) ms (with_group s g ms) of
        (Inl x, s2) \<Rightarrow> (Inl x, s2)
      | (Inr _, s2) \<Rightarrow> send_payload e c k (created_payload g) s2)"
  by (simp add: accepts_group_def handle_create_group_def str_of_def with_group_def Let_def)

text \<open>Everyone invited can be written to: the invitations in order, then the acknowledgement.\<close>

lemma create_group_succeeds:
  assumes "accepts_group p s u g ms" and "env_ok e"
    and "fits e (invite_payload g ms)" and "fits e (created_payload g)"
    and "list_all (live_target s) (fanout_targets (clients s) u ms)" and "live_target s (c, k)"
  shows "\<exists>s1 s'. handle_create_group e u c k p s = (Inr (), s') \<and>
    delivered (invite_payload g ms) (fanout_targets (clients s) u ms) (with_group s g ms) s1 \<and>
    delivered (created_payload g) [(c, k)] s1 s'"
proof -
  let ?s = "with_group s g ms"
  have ok: "always_ok (send_payload e) (invite_payload g ms) ?s t"
    if "t \<in> set (fanout_targets (clients ?s) u ms)" for t
    using assms(2,3,5) that by (intro live_always_ok) (auto simp: list_all_iff)
  obtain s1 where s1: "send_members (send_payload e) u (invite_payload g ms) ms ?s = (Inr (), s1)"
    "delivered (invite_payload g ms) (fanout_targets (clients s) u ms) ?s s1"
    using tr.send_members_all [of ?s u ms e, OF ok] by auto
  have "live_target s1 (c, k)"
    using delivered_tables [OF s1(2)] assms(6) by (simp add: same_tables_def live_target_def)
  then have "always_ok (send_payload e) (created_payload g) s1 (c, k)"
    using assms(2,4) by (intro live_always_ok) simp_all
  then obtain s' where "send_payload e c k (created_payload g) s1 = (Inr (), s')"
    "delivered (created_payload g) [(c, k)] s1 s'"
    by (rule tr.always_okD) simp
  then show ?thesis using s1 by (auto simp: create_group_accepted [OF assms(1)])
qed

text \<open>
  One invitation that cannot be written: the group exists from then on, but neither the
  members after the unreachable one nor the creator hear of it.
\<close>

lemma create_group_partial:
  assumes "accepts_group p s u g ms" and "env_ok e" and "fits e (invite_payload g ms)"
    and "fanout_targets (clients s) u ms = pre @ t # post"
    and "list_all (live_target s) pre" and "\<not> live_target s t"
  shows "\<exists>x s'. handle_create_group e u c k p s = (Inl x, s') \<and>
    dict_get (groups s') g = Some ms \<and>
    delivered (invite_payload g ms) pre (with_group s g ms) s'"
proof -
  let ?s = "with_group s g ms"
  have ok: "always_ok (send_payload e) (invite_payload g ms) ?s t" if "t \<in> set pre" for t
    using assms(2,3,5) that by (intro live_always_ok) (auto simp: list_all_iff)
  have no: "always_fails (send_payload e) (invite_payload g ms) ?s t"
    using assms(6) by (intro dead_always_fails) simp
  have T: "fanout_targets (clients ?s) u ms = pre @ t # post" using assms(4) by simp
  obtain x s' where r: "send_members (send_payload e) u (invite_payload g ms) ms ?s = (Inl x, s')"
    "delivered (invite_payload g ms) pre ?s s'"
    using tr.send_members_stops [OF T ok no] by auto
  have "dict_get (groups s') g = Some ms"
    using delivered_tables [OF r(2)] by (simp add: same_tables_def)
  then show ?thesis using r by (simp add: create_group_accepted [OF assms(1)])
qed

end
