(* ===== verification/Messaging.thy ===== *)
theory Messaging
  imports Client Delivery
begin

text \<open>
  Client to server to client: what a client writes is what the server reads, what the server
  forwards is what the recipient's client hands to its owner. Both sides share the
  cryptographic primitives and the float conversion of the interpreter.
\<close>

definition cenv_ok :: "cenv \<Rightarrow> bool" where
  "cenv_ok ke \<longleftrightarrow>
     crypto_ok (k_crypto ke) \<and> (\<forall>i n. length (k_random ke i n) = n) \<and>
     (\<forall>i. list_all (\<lambda>c. c < 0x80) (k_clock ke i) \<and> length (k_clock ke i) \<le> 32)"

definition same_prims :: "cenv \<Rightarrow> env \<Rightarrow> bool" where
  "same_prims ke e \<longleftrightarrow> k_crypto ke = e_crypto e \<and> k_float ke = e_float e"

lemma cenv_okD:
  assumes "cenv_ok ke"
  shows "crypto_ok (k_crypto ke)" and "length (k_random ke i n) = n"
    and "list_all (\<lambda>c. c < 0x80) (k_clock ke i)" and "length (k_clock ke i) \<le> 32"
  using assms by (simp_all add: cenv_ok_def)

section \<open>Writing a frame\<close>

text \<open>The bytes on the link grow by one frame, which opens to the value.\<close>

definition wrote :: "cenv \<Rightarrow> json \<Rightarrow> bytes \<Rightarrow> 'g client \<Rightarrow> 'g client \<Rightarrow> bool" where
  "wrote ke v enc x y \<longleftrightarrow>
     (\<exists>out. link x = Link True out \<and> link y = Link True (out @ frame_bytes enc)) \<and> frame_ok enc \<and>
     rbind (decrypt_message (k_crypto ke) enc (aes_key x)) (loads (k_float ke)) = Inr v \<and>
     owner y = owner x \<and> username y = username x \<and> aes_key y = aes_key x \<and> files y = files x"

lemma send_encrypted_writes:
  assumes "cenv_ok ke" and "link x = Link True out" and "aes_key_ok (aes_key x)"
    and "json_wf (k_float ke) v" and "length (dumps v) + 28 \<le> MAX_FRAME_SIZE"
  shows "\<exists>enc y. send_encrypted ke (dumps v) x = (Inr (), y) \<and> wrote ke v enc x y"
proof -
  note r = cenv_okD(1,2) [OF assms(1)]
  obtain enc where enc: "encrypt_message (k_crypto ke) (k_random ke (c_draws x) 12) (dumps v)
      (aes_key x) = Inr enc"
    using seal_total [OF r assms(4,3)] by blast
  note o = seal_open [OF r assms(4) enc]
  have ok: "frame_ok enc" using o(2) assms(5) by (simp add: frame_ok_def)
  obtain h where h: "pack_be32 (length enc) = Inr h" "h @ enc = frame_bytes enc"
    using be32.enc_total [OF frame_ok_small [OF ok]] by (auto simp: frame_bytes_def frame_def)
  then show ?thesis
    using enc ok o(1) assms(2)
    by (auto simp: send_encrypted_def sendall_def wrote_def Let_def)
qed

lemma wrote_tick: "wrote ke v enc (c_tick x) y \<Longrightarrow> wrote ke v enc x y"
  by (simp add: wrote_def c_tick_def)

lemma c_stamp_ok:
  assumes "cenv_ok ke"
  shows "json_wf (k_float ke) (c_stamp ke x)" and "length (dumps (c_stamp ke x)) \<le> 200"
proof -
  have a: "list_all (\<lambda>c. c < 0x80) (k_clock ke (c_ticks x) @ lit ''Z'')"
    using cenv_okD(3) [OF assms] by (simp add: py_eval)
  then show "json_wf (k_float ke) (c_stamp ke x)" by (simp add: c_stamp_def str_wf_ascii)
  have "length (k_clock ke (c_ticks x) @ lit ''Z'') \<le> 33"
    using cenv_okD(4) [OF assms] by simp
  then show "length (dumps (c_stamp ke x)) \<le> 200"
    using length_dumps_ascii [OF a] by (simp add: c_stamp_def)
qed

section \<open>The text requests\<close>

lemma esc_char_utf8: "length (utf8_char c) \<le> length (esc_char c)"
  by (auto simp: utf8_char_def esc_char_def hex4_text_def)

lemma length_concat_mono:
  "(\<And>x. length (f x) \<le> length (g x)) \<Longrightarrow> length (concat (map f xs)) \<le> length (concat (map g xs))"
  by (induction xs) (auto intro: add_mono)

lemma utf8_size_dumps:
  "list_all scalar_value m \<Longrightarrow> utf8_encode m = Inr bs \<Longrightarrow> length bs \<le> length (dumps_str m)"
  using length_concat_mono [of utf8_char esc_char m, OF esc_char_utf8]
  by (simp add: utf8_encode_def dumps_str_def)

lemma scalar_str_wf: "list_all scalar_value m \<Longrightarrow> str_wf m"
proof -
  assume a: "list_all scalar_value m"
  then have "pair_free m"
    by (induction m rule: pair_free.induct)
      (auto simp: scalar_value_def is_surrogate_def is_high_def)
  with a show ?thesis
    by (auto simp: str_wf_def scalar_value_def elim: list.pred_mono_strong)
qed

lemma lit_neq [simp]: "s \<noteq> t \<Longrightarrow> lit s \<noteq> lit t"
  by simp

lemma text_request_fields:
  "jget (text_request ty tt fu to m ts) (lit ''type'') = JStr (lit ty)"
  "jget (text_request ty tt fu to m ts) (lit ''to'') = JStr to"
  "jget (text_request ty tt fu to m ts) (lit ''payload'') = JStr m"
  "jget_or (text_request ty tt fu to m ts) (lit ''payload'') w = JStr m"
  "jget_or (text_request ty tt fu to m ts) (lit ''sender'') w = w"
  "jget (text_request ty tt fu to m ts) (lit ''from'') = JStr fu"
  by (simp_all add: text_request_def jget_def jget_or_def dict_get_Cons)

lemma text_request_wf:
  assumes "str_wf fu" and "str_wf to" and "str_wf m" and "json_wf fl ts"
  shows "json_wf fl (JObj (text_request ty tt fu to m ts))"
  using assms by (simp add: text_request_def dict_ok_def)

text \<open>The size check of the client covers the whole request, so its text fits the server's.\<close>

lemma text_request_size:
  assumes "list_all scalar_value m" and "json_wf fl (JObj (text_request ty tt fu to m ts))"
    and "check_message_size (dumps (JObj (text_request ty tt fu to m ts))) = Inr True"
  shows "length (dumps (JObj (text_request ty tt fu to m ts))) \<le> MAX_MESSAGE_SIZE"
    and "check_message_size m = Inr True"
proof -
  let ?d = "dumps (JObj (text_request ty tt fu to m ts))"
  show d: "length ?d \<le> MAX_MESSAGE_SIZE"
    using assms(3) utf8_encode_ascii [OF dumps_ascii(1) [OF assms(2)]]
    by (simp add: check_message_size_def)
  obtain bs where bs: "utf8_encode m = Inr bs" using utf8.enc_total [OF assms(1)] by blast
  have "length (dumps_str m) \<le> length ?d"
    by (simp add: text_request_def)
  then show "check_message_size m = Inr True"
    using utf8_size_dumps [OF assms(1) bs] d bs by (simp add: check_message_size_def)
qed

lemma send_text_writes:
  assumes "cenv_ok ke" and "link x = Link True out" and "aes_key_ok (aes_key x)"
    and "json_wf (k_float ke) v" and "check_message_size (dumps v) = Inr True"
  shows "\<exists>enc y. send_text ke cb (dumps v) x = (Inr True, y) \<and> wrote ke v enc x y"
proof -
  have "length (dumps v) \<le> MAX_MESSAGE_SIZE"
    using assms(5) utf8_encode_ascii [OF dumps_ascii(1) [OF assms(4)]]
    by (simp add: check_message_size_def)
  then have "length (dumps v) + 28 \<le> MAX_FRAME_SIZE" by (simp add: size_limits)
  from send_encrypted_writes [OF assms(1-4) this] show ?thesis
    using assms(5) by (auto simp: send_text_def abind_def areturn_def)
qed

section \<open>What the server adds\<close>

lemma key_sizes:
  "length (dumps_str (lit ''from'')) = 6" "length (dumps_str (lit ''to'')) = 4"
  "length (dumps_str (lit ''to_type'')) = 9" "length (dumps_str (lit ''payload'')) = 9"
  "length (dumps_str (lit ''payload_type'')) = 14" "length (dumps_str (lit ''timestamp'')) = 11"
  "length (dumps_str (lit ''text'')) = 6" "length (dumps_str (lit ''user'')) = 6"
  "length (dumps_str (lit ''group'')) = 7" "length (dumps_str (lit ''file'')) = 6"
  by (simp_all add: length_dumps_plain py_eval)

lemma stamp_size: "env_ok e \<Longrightarrow> length (dumps (stamp e s)) \<le> 200"
proof -
  assume e: "env_ok e"
  have a: "list_all (\<lambda>c. c < 0x80) (e_clock e (ticks s) @ lit ''Z'')"
    using env_okD(4) [OF e] by (simp add: py_eval)
  have "length (e_clock e (ticks s) @ lit ''Z'') \<le> 33" using env_okD(5) [OF e] by simp
  then show ?thesis using length_dumps_ascii [OF a] by (simp add: stamp_def)
qed

definition own_payload :: "pystr \<Rightarrow> jobject \<Rightarrow> jobject" where
  "own_payload u p = dict_set p (lit ''from'') (JStr u)"

lemma jget_own [simp]:
  "jget (own_payload u p) k = (if k = lit ''from'' then JStr u else jget p k)"
  "jget_or (own_payload u p) k w = (if k = lit ''from'' then JStr u else jget_or p k w)"
  by (simp_all add: own_payload_def)

lemma own_size:
  "name_match 32 u \<Longrightarrow>
   length (dumps_members (own_payload u p)) \<le> length (dumps_members p) + 44"
  using length_dumps_set [of p "lit ''from''" "JStr u"] length_dumps_name [of 32 u]
  by (auto simp: own_payload_def key_sizes name_match_def)

lemma message_payload_size:
  "env_ok e \<Longrightarrow>
   length (dumps_members (message_payload e p s)) \<le> length (dumps_members p) + 260"
  using length_dumps_set [of p "lit ''payload_type''" "JStr (lit ''text'')"]
    length_dumps_set [of "dict_set p (lit ''payload_type'') (JStr (lit ''text''))" "lit ''to_type''"
      "JStr (lit ''user'')"]
    length_dumps_set [of "dict_set (dict_set p (lit ''payload_type'') (JStr (lit ''text'')))
      (lit ''to_type'') (JStr (lit ''user''))" "lit ''timestamp''" "stamp e s"] stamp_size [of e s]
  by (simp add: message_payload_def key_sizes)

lemma file_payload_size:
  "env_ok e \<Longrightarrow> length (dumps_members (file_payload e p s)) \<le> length (dumps_members p) + 240"
  using length_dumps_set [of p "lit ''payload_type''" "JStr (lit ''file'')"]
    length_dumps_set [of "dict_set p (lit ''payload_type'') (JStr (lit ''file''))"
      "lit ''timestamp''" "stamp e s"] stamp_size [of e s]
  by (simp add: file_payload_def key_sizes)

lemma group_payload_size:
  assumes "env_ok e" and "name_match 48 g"
  shows "length (dumps_members (group_message_payload e g p s)) \<le>
    length (dumps_members p) + length (dumps (jget p (lit ''payload''))) + 340"
proof -
  let ?p1 = "dict_set p (lit ''to'') (JStr g)"
  let ?p2 = "dict_set ?p1 (lit ''payload'') (jget p (lit ''payload''))"
  let ?p3 = "dict_set ?p2 (lit ''payload_type'') (JStr (lit ''text''))"
  let ?p4 = "dict_set ?p3 (lit ''to_type'') (JStr (lit ''group''))"
  have "length (dumps_str g) \<le> 50" using length_dumps_name [OF assms(2)] assms(2) by (simp add: name_match_def)
  then show ?thesis
    using length_dumps_set [of p "lit ''to''" "JStr g"]
      length_dumps_set [of ?p1 "lit ''payload''" "jget p (lit ''payload'')"]
      length_dumps_set [of ?p2 "lit ''payload_type''" "JStr (lit ''text'')"]
      length_dumps_set [of ?p3 "lit ''to_type''" "JStr (lit ''group'')"]
      length_dumps_set [of ?p4 "lit ''timestamp''" "stamp e s"] stamp_size [OF assms(1), of s]
    by (simp add: group_message_payload_def key_sizes)
qed

section \<open>Through the server\<close>

text \<open>One frame in, these readable frames out: the payload to the targets, in order.\<close>

definition relayed :: "env \<Rightarrow> json \<Rightarrow> (conn \<times> bytes) list \<Rightarrow> server \<Rightarrow> server \<Rightarrow> bool" where
  "relayed e q ts s s' \<longleftrightarrow>
     delivered q ts s s' \<and> list_all (readable e) (deliveries s s')"

lemma relayedI:
  assumes "delivered q ts s (process_frame e u c k b s)" and "env_ok e" and "name_match 32 u"
    and "length (dumps q) + 28 \<le> MAX_FRAME_SIZE"
  shows "relayed e q ts s (process_frame e u c k b s)"
proof -
  have "emits (\<lambda>d. well_sealed e d \<and> payload_ok e (d_payload d)) s (process_frame e u c k b s)"
    by (rule emits_conj [OF process_frame_well_sealed process_frame_payload_ok [OF assms(2,3)]])
  then have "list_all (readable e) (deliveries s (process_frame e u c k b s))"
    using delivered_deliveries [OF assms(1)] sealed_readable [OF _ assms(2)] assms(4)
    by (auto simp: emits_deliveries list_all_iff)
  then show ?thesis using assms(1) by (simp add: relayed_def)
qed

lemma relay_message:
  assumes "frame_payload e k b = Some p" and "jget p (lit ''type'') = JStr (lit ''message'')"
    and "accepts_message e p v" and "env_ok e" and "name_match 32 u"
    and "dict_get (clients s) v = Some t" and "live_target s t"
    and "length (dumps (JObj p)) + 400 \<le> MAX_FRAME_SIZE"
  shows "relayed e (JObj (message_payload e (own_payload u p) s)) [t] s (process_frame e u c k b s)"
proof -
  let ?p = "own_payload u p"
  let ?q = "JObj (message_payload e ?p s)"
  have size: "length (dumps ?q) + 28 \<le> MAX_FRAME_SIZE"
    using message_payload_size [OF assms(4), of ?p s] own_size [OF assms(5), of p] assms(8) by simp
  have "payload_ok e ?q"
    using forwarded_payload_ok(1) [OF assms(4) frame_payload_ok [OF assms(1,4,5)]]
    by (simp add: own_payload_def)
  then have fits: "fits e ?q" using size by (simp add: fits_def size_limits)
  have acc: "accepts_message e ?p v" using assms(3) by (simp add: accepts_message_def)
  obtain s' where "handle_message e u c k ?p s = (Inr (), s')" "delivered ?q [t] s s'"
    using handle_message_delivers [OF acc assms(6,7,4) fits] by blast
  moreover have "process_frame e u c k b s = snd (handle_message e u c k ?p s)"
    using assms(1,2) by (simp add: process_frame_payload handle_payload_def own_payload_def)
  ultimately show ?thesis using size assms(4,5) by (intro relayedI) simp_all
qed

lemma relay_group_message:
  assumes "frame_payload e k b = Some p" and "jget p (lit ''type'') = JStr (lit ''group_message'')"
    and "jget p (lit ''to'') = JStr g" and "name_match 48 g" and "in_group s g u"
    and "env_ok e" and "name_match 32 u" and "list_all (live_target s) (group_targets s g u)"
    and "length (dumps (JObj p)) + length (dumps (jget p (lit ''payload''))) + 500 \<le> MAX_FRAME_SIZE"
  shows "relayed e (JObj (group_message_payload e g (own_payload u p) s)) (group_targets s g u) s
    (process_frame e u c k b s)"
proof -
  let ?p = "own_payload u p"
  let ?q = "JObj (group_message_payload e g ?p s)"
  have size: "length (dumps ?q) + 28 \<le> MAX_FRAME_SIZE"
    using group_payload_size [OF assms(6,4), of ?p s] own_size [OF assms(7), of p] assms(9) by simp
  have "payload_ok e ?q"
    using forwarded_payload_ok(3) [OF assms(6) frame_payload_ok [OF assms(1,6,7)] assms(4)]
    by (simp add: own_payload_def)
  then have fits: "fits e ?q" using size by (simp add: fits_def size_limits)
  have to: "jget ?p (lit ''to'') = JStr g" using assms(3) by simp
  obtain s' where "handle_group_message e u c k ?p s = (Inr (), s')"
    "delivered ?q (group_targets s g u) s s'"
    using group_message_delivers [OF to assms(4,5,6) fits assms(8)] by blast
  moreover have "process_frame e u c k b s = snd (handle_group_message e u c k ?p s)"
    using assms(1,2) by (simp add: process_frame_payload handle_payload_def own_payload_def)
  ultimately show ?thesis using size assms(6,7) by (intro relayedI) simp_all
qed

lemma file_target_name:
  "jget_or p (lit ''to'') (JStr []) = JStr v \<Longrightarrow> name_match n v \<Longrightarrow> file_target e p = v"
  by (simp add: file_target_def name_match_no_hash)

lemma relay_file:
  assumes "frame_payload e k b = Some p"
    and "jget p (lit ''type'') \<in> {JStr (lit ''message_file''), JStr (lit ''group_file'')}"
    and "file_accepted e p" and "jget p (lit ''to_type'') \<noteq> JStr (lit ''group'')"
    and "jget_or p (lit ''to'') (JStr []) = JStr v" and "name_match 32 v"
    and "env_ok e" and "name_match 32 u" and "dict_get (clients s) v = Some t"
    and "live_target s t" and "length (dumps (JObj p)) + 400 \<le> MAX_FRAME_SIZE"
  shows "relayed e (JObj (file_payload e (own_payload u p) s)) [t] s (process_frame e u c k b s)"
proof -
  let ?p = "own_payload u p"
  let ?q = "JObj (file_payload e ?p s)"
  have size: "length (dumps ?q) + 28 \<le> MAX_FRAME_SIZE"
    using file_payload_size [OF assms(7), of ?p s] own_size [OF assms(8), of p] assms(11) by simp
  have "payload_ok e ?q"
    using forwarded_payload_ok(2) [OF assms(7) frame_payload_ok [OF assms(1,7,8)]]
    by (simp add: own_payload_def)
  then have fits: "fits e ?q" using size by (simp add: fits_def size_limits)
  have target: "file_target e ?p = v" using assms(5,6) by (intro file_target_name) simp_all
  have acc: "file_accepted e ?p" using assms(3) by (simp add: file_accepted_def)
  obtain s' where "handle_file e u c k ?p s = (Inr (), s')" "delivered ?q [t] s s'"
    using handle_file_delivers [OF acc _ _ _ assms(10,7) fits, of u c k] assms(4,6,9) target by auto
  moreover have "process_frame e u c k b s = snd (handle_file e u c k ?p s)"
    using assms(1,2) by (auto simp: process_frame_payload handle_payload_def own_payload_def)
  ultimately show ?thesis using size assms(7,8) by (intro relayedI) simp_all
qed

lemma relay_group_file:
  assumes "frame_payload e k b = Some p"
    and "jget p (lit ''type'') \<in> {JStr (lit ''message_file''), JStr (lit ''group_file'')}"
    and "file_accepted e p" and "jget p (lit ''to_type'') = JStr (lit ''group'')"
    and "jget_or p (lit ''to'') (JStr []) = JStr g" and "name_match 48 g"
    and "env_ok e" and "name_match 32 u" and "in_group s g u"
    and "list_all (live_target s) (group_targets s g u)"
    and "length (dumps (JObj p)) + 400 \<le> MAX_FRAME_SIZE"
  shows "relayed e (JObj (file_payload e (own_payload u p) s)) (group_targets s g u) s
    (process_frame e u c k b s)"
proof -
  let ?p = "own_payload u p"
  let ?q = "JObj (file_payload e ?p s)"
  have size: "length (dumps ?q) + 28 \<le> MAX_FRAME_SIZE"
    using file_payload_size [OF assms(7), of ?p s] own_size [OF assms(8), of p] assms(11) by simp
  have "payload_ok e ?q"
    using forwarded_payload_ok(2) [OF assms(7) frame_payload_ok [OF assms(1,7,8)]]
    by (simp add: own_payload_def)
  then have fits: "fits e ?q" using size by (simp add: fits_def size_limits)
  have target: "file_target e ?p = g" using assms(5,6) by (intro file_target_name) simp_all
  have acc: "file_accepted e ?p" using assms(3) by (simp add: file_accepted_def)
  obtain s' where "handle_file e u c k ?p s = (Inr (), s')" "delivered ?q (group_targets s g u) s s'"
    using handle_group_file_delivers [OF acc _ _ _ assms(7) fits, of u c k] assms(4,6,9,10) target
    by auto
  moreover have "process_frame e u c k b s = snd (handle_file e u c k ?p s)"
    using assms(1,2) by (auto simp: process_frame_payload handle_payload_def own_payload_def)
  ultimately show ?thesis using size assms(7,8) by (intro relayedI) simp_all
qed

section \<open>Into the recipient's client\<close>

lemma receive_loop_frame:
  assumes "read_frame inp = (Inr (Some data), rest)"
  shows "receive_loop ke cb inp x =
    (case receive_frame ke cb data x of
       (Inl er, y) \<Rightarrow> if er = OSError then y else receive_loop ke cb rest y
     | (Inr Go, y) \<Rightarrow> receive_loop ke cb rest y
     | (Inr Halt, y) \<Rightarrow> y)"
  using assms
  by (subst receive_loop.simps) (auto simp: read_frame_def Let_def split: if_splits sum.splits)

lemma receive_loop_end [simp]: "receive_loop ke cb [] x = x"
  by (subst receive_loop.simps) simp

lemma receive_frame_opened:
  assumes "rbind (decrypt_message (k_crypto ke) data (aes_key x)) (loads (k_float ke)) = Inr (JObj q)"
  shows "receive_frame ke cb data x = dispatch ke cb q x"
  using assms by (simp add: receive_frame_def)

text \<open>A readable frame on the wire is dispatched; what follows it is left to the loop.\<close>

lemma receive_readable:
  assumes "readable e d" and "d_payload d = JObj q" and "aes_key x = d_key d" and "same_prims ke e"
  shows "receive_loop ke cb (d_bytes d @ rest) x =
    (case dispatch ke cb q x of
       (Inl er, y) \<Rightarrow> if er = OSError then y else receive_loop ke cb rest y
     | (Inr Go, y) \<Rightarrow> receive_loop ke cb rest y
     | (Inr Halt, y) \<Rightarrow> y)"
proof -
  obtain body where b: "read_frame (d_bytes d @ rest) = (Inr (Some body), rest)"
    "rbind (decrypt_message (e_crypto e) body (d_key d)) (loads (e_float e)) = Inr (d_payload d)"
    using assms(1) by (auto simp: readable_def)
  then have r: "receive_frame ke cb body x = dispatch ke cb q x"
    using assms(2-4) by (intro receive_frame_opened) (simp add: same_prims_def)
  show ?thesis unfolding receive_loop_frame [OF b(1)] r ..
qed

lemma receive_one:
  assumes "readable e d" and "d_payload d = JObj q" and "aes_key x = d_key d" and "same_prims ke e"
  shows "receive_loop ke cb (d_bytes d) x = snd (dispatch ke cb q x)"
  using receive_readable [OF assms, of cb "[]"]
  by (auto split: prod.splits sum.splits verdict.splits)

lemma snd_go_on [simp]: "snd (go_on m x) = snd (m x)"
  by (auto simp: go_on_def abind_def areturn_def split: prod.splits sum.splits)

lemma dispatch_message:
  "jget q (lit ''type'') = JStr (lit ''message'') \<Longrightarrow>
   dispatch ke cb q = go_on (notify cb (jget q (lit ''from'')) (jget q (lit ''payload''))
     (Some (jget_or q (lit ''sender'') (jget q (lit ''from'')))))"
  by (rule ext) (simp add: dispatch_def Let_def)

lemma dispatch_group_message:
  "jget q (lit ''type'') = JStr (lit ''group_message'') \<Longrightarrow>
   dispatch ke cb q = go_on (notify cb (JStr (hash_name ke (jget q (lit ''to''))))
     (jget q (lit ''payload'')) (Some (jget q (lit ''from''))))"
  by (rule ext) (simp add: dispatch_def)

lemma dispatch_file:
  "jget q (lit ''type'') \<in> {JStr (lit ''message_file''), JStr (lit ''group_file'')} \<Longrightarrow>
   dispatch ke cb q = receive_file ke cb q"
  by (rule ext) (auto simp: dispatch_def)

lemma forwarded_fields [simp]:
  "jget (message_payload e p s) (lit ''payload'') = jget p (lit ''payload'')"
  "jget_or (message_payload e p s) (lit ''sender'') w = jget_or p (lit ''sender'') w"
  "jget (group_message_payload e g p s) (lit ''payload'') = jget p (lit ''payload'')"
  "jget (group_message_payload e g p s) (lit ''to'') = JStr g"
  "jget (file_payload e p s) (lit ''payload'') = jget p (lit ''payload'')"
  "jget (file_payload e p s) (lit ''filename'') = jget p (lit ''filename'')"
  "jget (file_payload e p s) (lit ''to'') = jget p (lit ''to'')"
  "jget (file_payload e p s) (lit ''to_type'') = jget p (lit ''to_type'')"
  by (simp_all add: message_payload_def group_message_payload_def file_payload_def)

section \<open>The file requests\<close>

lemma file_request_fields:
  "jget (file_request ty tt fu to b fn ts) (lit ''type'') = JStr (lit ty)"
  "jget_or (file_request ty tt fu to b fn ts) (lit ''to'') w = JStr to"
  "jget (file_request ty tt fu to b fn ts) (lit ''to_type'') = JStr (lit tt)"
  "jget (file_request ty tt fu to b fn ts) (lit ''payload'') = JStr b"
  "jget (file_request ty tt fu to b fn ts) (lit ''filename'') = JStr fn"
  "jget (file_request ty tt fu to b fn ts) (lit ''to'') = JStr to"
  by (simp_all add: file_request_def jget_def jget_or_def dict_get_Cons)

lemma file_request_wf:
  assumes "str_wf fu" and "str_wf to" and "str_wf b" and "str_wf fn" and "json_wf fl ts"
  shows "json_wf fl (JObj (file_request ty tt fu to b fn ts))"
  using assms by (simp add: file_request_def dict_ok_def)

lemma str_wf_b64: "str_wf (b64encode bs)"
  using b64encode_ascii [of bs] by (intro str_wf_ascii) (auto elim!: list.pred_mono_strong)

lemma transfer_filename_JStr:
  assumes "is_safe_transfer_filename pr (JStr fn)"
  shows "good_component 120 fn" and "safe_filename pr' (JStr fn) = fn"
    and "is_safe_transfer_filename pr' (JStr fn)"
proof -
  have s: "safe_filename pr (JStr fn) = fn"
    using assms by (auto simp: is_safe_transfer_filename_iff)
  then show "good_component 120 fn" by (rule safe_filename_fixed)
  have pr: "safe_filename pr' (JStr fn) = safe_filename pr (JStr fn)"
    by (rule safe_filename_JStr_pr)
  with s show "safe_filename pr' (JStr fn) = fn" by simp
  with s assms show "is_safe_transfer_filename pr' (JStr fn)"
    by (simp add: is_safe_transfer_filename_iff)
qed

lemma good_component_name: "good_component n s \<Longrightarrow> name_match n s"
  by (cases s) (auto simp: good_component_def name_match_def)

lemma file_key_sizes:
  "length (dumps_str (lit ''type'')) = 6" "length (dumps_str (lit ''filename'')) = 10"
  "length (dumps_str (lit ''payload_id'')) = 12" "length (lit ''null'') = 4"
  "length (dumps_str (lit ''message_file'')) = 14" "length (dumps_str (lit ''group_file'')) = 12"
  by (simp_all add: length_dumps_plain py_eval)

text \<open>The frame limit leaves room for the largest file after base64 and JSON.\<close>

lemma b64_frame_room: "length bs \<le> MAX_FILE_SIZE \<Longrightarrow> length (b64encode bs) + 1400 \<le> MAX_FRAME_SIZE"
proof -
  assume "length bs \<le> MAX_FILE_SIZE"
  then have "(length bs + 2) div 3 \<le> 1747627"
    by (simp add: MAX_FILE_SIZE_def)
  then show ?thesis by (simp add: length_b64encode MAX_FRAME_SIZE_def)
qed

lemma file_request_size:
  assumes "name_match 32 fu" and "name_match 48 to" and "name_match 120 fn"
    and "length (dumps ts) \<le> 200" and "length bs \<le> MAX_FILE_SIZE"
    and "ty \<in> {''message_file'', ''group_file''}" and "tt \<in> {''user'', ''group''}"
  shows "length (dumps (JObj (file_request ty tt fu to (b64encode bs) fn ts))) + 400 \<le> MAX_FRAME_SIZE"
proof -
  have l: "length (dumps_str fu) \<le> 34" "length (dumps_str to) \<le> 50" "length (dumps_str fn) \<le> 122"
    using length_dumps_name assms(1-3) by (fastforce simp: name_match_def)+
  have "length (dumps_str (lit ty)) \<le> 14" "length (dumps_str (lit tt)) \<le> 7"
    using assms(6,7) by (auto simp: file_key_sizes key_sizes)
  then show ?thesis
    using l assms(4) b64_frame_room [OF assms(5)]
    by (simp add: file_request_def length_dumps_b64 file_key_sizes key_sizes)
qed

text \<open>An owner whose callback never raises.\<close>

definition quiet :: "'g callbacks \<Rightarrow> bool" where
  "quiet cb \<longleftrightarrow> (\<forall>a b c g. fst (on_message_received cb a b c g) = Inr ())"

lemma quiet_note:
  "quiet cb \<Longrightarrow> \<exists>g. notify cb a b c x = (Inr (), x\<lparr>owner := g\<rparr>)"
  unfolding quiet_def notify_def by (metis (lifting) case_prod_conv prod.collapse)

lemma upload_file_writes:
  fixes cb :: "'a callbacks" and x :: "'a client"
  assumes "cenv_ok ke" and "link x = Link True out" and "aes_key_ok (aes_key x)"
    and "name_match 32 (username x)" and "name_match 48 to"
    and "is_safe_transfer_filename (k_printable ke) (JStr fn)"
    and "k_read ke file_path = Some bs" and "bs \<noteq> []" and "length bs \<le> MAX_FILE_SIZE"
    and "quiet cb" and "ty \<in> {''message_file'', ''group_file''}" and "tt \<in> {''user'', ''group''}"
  shows "\<exists>enc y g. upload_file ke cb ty tt to shown fn file_path x = (Inr True, y\<lparr>owner := g\<rparr>) \<and>
    wrote ke (JObj (file_request ty tt (username x) to (b64encode bs) fn (c_stamp ke x))) enc x y"
proof -
  let ?v = "JObj (file_request ty tt (username x) to (b64encode bs) fn (c_stamp ke x))"
  note fn = good_component_name [OF transfer_filename_JStr(1) [OF assms(6)]]
  have wf: "json_wf (k_float ke) ?v"
    using c_stamp_ok(1) [OF assms(1)] assms(4,5) fn
    by (intro file_request_wf) (simp_all add: str_wf_name str_wf_b64)
  have "length (dumps ?v) + 28 \<le> MAX_FRAME_SIZE"
    using file_request_size [OF assms(4,5) fn c_stamp_ok(2) [OF assms(1)] assms(9,11,12), of x] by simp
  then obtain enc y where w: "send_encrypted ke (dumps ?v) (c_tick x) = (Inr (), y)"
    "wrote ke ?v enc (c_tick x) y"
    using send_encrypted_writes [OF assms(1) _ _ wf, of "c_tick x" out] assms(2,3)
    by (auto simp: c_tick_def)
  have ok: "check_file_size (JStr (b64encode bs))"
    using assms(8,9) by (simp add: check_file_size_b64encode)
  obtain g where "system_note cb (lit ''Sent '' @ path_basename file_path @ lit '' to '' @ shown) y =
      (Inr (), y\<lparr>owner := g\<rparr>)"
    using quiet_note [OF assms(10)] unfolding system_note_def by blast
  then have "upload_file ke cb ty tt to shown fn file_path x = (Inr True, y\<lparr>owner := g\<rparr>)"
    using w(1) ok assms(7) by (simp add: upload_file_def Let_def abind_def areturn_def)
  then show ?thesis using wrote_tick [OF w(2)] by blast
qed

text \<open>The recipient saves exactly the bytes under the name they were sent with.\<close>

lemma receive_file_saves:
  fixes cb :: "'b callbacks" and x :: "'b client"
  assumes "jget q (lit ''filename'') = JStr fn" and "jget q (lit ''payload'') = JStr (b64encode bs)"
    and "is_safe_transfer_filename pr (JStr fn)" and "bs \<noteq> []"
    and "no_links ke" and "k_mkdir ke = (\<lambda>_. True)" and "k_writable ke = (\<lambda>_. True)"
  shows "files (snd (receive_file ke cb q x)) =
    files x @ [(k_root ke @ receive_parts ke (username x) (jget q (lit ''from'')) (JStr fn), bs)]"
proof -
  have "b64decode (b64encode bs @ pad3) = Inr bs"
    using b64decode_encode_pad [of bs 3] by (simp add: pad3_eq)
  moreover have "fn \<noteq> []"
    using transfer_filename_JStr(1) [OF assms(3)] by (simp add: good_component_def)
  ultimately show ?thesis
    using assms(1,2,4-7)
    by (simp add: receive_file_def Let_def build_receive_path_no_links)
qed

end
