(* ===== verification/Owner.thy ===== *)
theory Owner
  imports Client
begin

text \<open>
  The contract between a \<open>ChatClient\<close> and the owner of its callbacks. The client reaches its
  owner through the two callbacks only, so a preorder on owner states that both callbacks
  respect (an invariant kept, a history extended) is respected by every operation of the
  client: by the receive loop on any input, and by each send operation.
\<close>

definition owner_steps :: "('g \<Rightarrow> 'g \<Rightarrow> bool) \<Rightarrow> ('g, 'a) action \<Rightarrow> bool" where
  "owner_steps R m \<longleftrightarrow> (\<forall>x. R (owner x) (owner (snd (m x))))"

lemma owner_stepsD: "owner_steps R m \<Longrightarrow> m x = (r, y) \<Longrightarrow> R (owner x) (owner y)"
  by (metis owner_steps_def snd_conv)

locale callback_contract =
  fixes cb :: "'g callbacks" and R :: "'g \<Rightarrow> 'g \<Rightarrow> bool"
  assumes same: "R g g"
    and chain: "R g g' \<Longrightarrow> R g' g'' \<Longrightarrow> R g g''"
    and message_step: "R g (snd (on_message_received cb chat m sender g))"
    and users_step: "R g (snd (on_user_list cb v g))"
begin

lemma quiet_step: "owner (snd (m x)) = owner x \<Longrightarrow> R (owner x) (owner (snd (m x)))"
  by (simp add: same)

lemma notify_steps: "owner_steps R (notify cb chat m sender)"
  using message_step by (auto simp: owner_steps_def notify_def split: prod.splits)
    (metis snd_conv)

lemma notify_users_steps: "owner_steps R (notify_users cb v)"
  using users_step by (auto simp: owner_steps_def notify_users_def split: prod.splits)
    (metis snd_conv)

lemma areturn_steps: "owner_steps R (areturn a)"
  by (simp add: owner_steps_def areturn_def same)

lemma abind_steps:
  assumes "owner_steps R m" and "\<And>a. owner_steps R (f a)"
  shows "owner_steps R (abind m f)"
  unfolding owner_steps_def
proof
  fix x
  obtain r y where m: "m x = (r, y)" by force
  show "R (owner x) (owner (snd (abind m f x)))"
    using owner_stepsD [OF assms(1) m] chain assms(2)
    by (cases r) (auto simp: abind_def m owner_steps_def)
qed

lemma go_on_steps: "owner_steps R m \<Longrightarrow> owner_steps R (go_on m)"
  unfolding go_on_def by (intro abind_steps areturn_steps)

lemma note_steps: "owner_steps R (system_note cb m)" "owner_steps R (refuse cb m)"
  unfolding system_note_def refuse_def by (intro abind_steps notify_steps areturn_steps)+

lemma sendall_steps: "owner_steps R (sendall bs)"
  by (simp add: owner_steps_def sendall_def same split: link.splits)

lemma send_encrypted_steps: "owner_steps R (send_encrypted ke p)"
  unfolding owner_steps_def
proof
  fix x
  show "R (owner x) (owner (snd (send_encrypted ke p x)))"
    by (simp add: send_encrypted_def Let_def sendall_def same split: sum.splits link.splits)
qed

lemmas basic_steps = areturn_steps notify_steps notify_users_steps note_steps sendall_steps
  send_encrypted_steps

lemma steps_at: "owner_steps R m \<Longrightarrow> owner y = owner x \<Longrightarrow> R (owner x) (owner (snd (m y)))"
  unfolding owner_steps_def by metis

section \<open>Receiving\<close>

lemma receive_file_step: "R (owner x) (owner (snd (receive_file ke cb p x)))"
  unfolding receive_file_def Let_def
  by (auto simp: same split: sum.splits json.splits intro!: steps_at [OF go_on_steps [OF notify_steps]])

lemma dispatch_step: "R (owner x) (owner (snd (dispatch ke cb p x)))"
proof -
  have "owner (close_link x) = owner x" by (simp add: close_link_def split: link.splits)
  then show ?thesis
    unfolding dispatch_def Let_def
    by (auto simp: same receive_file_step
        intro!: steps_at [OF go_on_steps [OF notify_steps]] steps_at [OF go_on_steps [OF notify_users_steps]])
qed

lemma receive_frame_step: "R (owner x) (owner (snd (receive_frame ke cb d x)))"
  unfolding receive_frame_def by (auto simp: same dispatch_step split: sum.splits json.splits)

lemma receive_loop_step: "R (owner x) (owner (receive_loop ke cb' inp x))" if "cb' = cb"
  using that
proof (induction ke cb' inp x rule: receive_loop.induct)
  case (1 ke cb' inp x)
  show ?case
  proof (cases "take 4 inp = [] \<or> (\<exists>er. unpack_be32 (take 4 inp) = Inl er)")
    case True
    then show ?thesis
      using "1.IH"(1) [OF refl refl] "1.prems" same by (subst receive_loop.simps) (auto simp: Let_def)
  next
    case False
    then obtain n where n: "take 4 inp \<noteq> []" "unpack_be32 (take 4 inp) = Inr n"
      by (cases "unpack_be32 (take 4 inp)") auto
    obtain r y where r: "receive_frame ke cb' (take n (drop 4 inp)) x = (r, y)" by force
    have y: "R (owner x) (owner y)"
      using receive_frame_step [of x ke "take n (drop 4 inp)"] r "1.prems" by simp
    show ?thesis
    proof (cases "MAX_FRAME_SIZE < n \<or> length (take n (drop 4 inp)) < n")
      case True
      then show ?thesis using n same by (subst receive_loop.simps) (auto simp: Let_def)
    next
      case False
      then show ?thesis
        using n r y "1.IH"(2,3) [OF refl refl n(1,2) _ refl refl] "1.prems" chain
        by (subst receive_loop.simps) (auto simp: Let_def split: sum.splits verdict.splits)
    qed
  qed
qed

section \<open>Sending\<close>

lemma send_text_steps: "owner_steps R (send_text ke cb p)"
  unfolding owner_steps_def
proof
  fix x
  show "R (owner x) (owner (snd (send_text ke cb p x)))"
    unfolding send_text_def
    by (auto simp: same split: sum.splits bool.splits
        intro!: steps_at [OF note_steps(2)] steps_at [OF abind_steps [OF send_encrypted_steps areturn_steps]])
qed

lemma tick_owner [simp]: "owner (c_tick x) = owner x"
  by (simp add: c_tick_def)

lemma upload_file_step: "R (owner x) (owner (snd (upload_file ke cb ty tt to sh fn path x)))"
proof -
  let ?send = "\<lambda>file. abind (send_encrypted ke (dumps (JObj (file_request ty tt (username x) to
      (b64encode file) fn (c_stamp ke x)))))
    (\<lambda>_. abind (system_note cb (lit ''Sent '' @ path_basename path @ lit '' to '' @ sh)) (\<lambda>_. areturn True))"
  have s: "owner_steps R (?send bs)" for bs
    by (intro abind_steps basic_steps)
  let ?body = "(case k_read ke path of None \<Rightarrow> (Inl OSError, x)
     | Some file \<Rightarrow> if \<not> check_file_size (JStr (b64encode file))
         then refuse cb file_too_large (c_tick x) else ?send file (c_tick x))"
  obtain r y where b: "?body = (r, y)" by force
  have "R (owner x) (owner (snd ?body))"
    using steps_at [OF s, of "c_tick x" x] steps_at [OF note_steps(2), of "c_tick x" x] same
    by (simp del: dumps.simps split: option.splits)
  then have y: "R (owner x) (owner y)" by (simp add: b)
  have "upload_file ke cb ty tt to sh fn path x =
      (case ?body of (Inl er, y) \<Rightarrow> refuse cb (lit ''Could not upload file: '' @ k_exn ke er) y
       | (Inr b, y) \<Rightarrow> (Inr b, y))"
    unfolding upload_file_def Let_def by (rule refl)
  then show ?thesis
    using y chain [OF y] steps_at [OF note_steps(2), of y y]
    unfolding b by (cases r) auto
qed

lemma send_steps:
  "owner_steps R (send_message ke cb u m)" "owner_steps R (send_group_message ke cb g m)"
  "owner_steps R (create_group ke cb g ms)"
  "owner_steps R (send_file ke cb u path)" "owner_steps R (send_group_file ke cb g path)"
  unfolding owner_steps_def send_message_def send_group_message_def create_group_def send_file_def
    send_group_file_def Let_def
  by (auto simp: upload_file_step intro!: steps_at [OF note_steps(2)] steps_at [OF send_text_steps]
      steps_at [OF abind_steps [OF send_encrypted_steps areturn_steps]])

end

end
