(* ===== verification/Gui.thy ===== *)
theory Gui
  imports Owner Wire "HOL-Library.Sublist"
begin

text \<open>
  \<open>client/chat_gui.py\<close>: the window as the owner of a \<open>ChatClient\<close>. Its state is the
  attributes of \<open>ChatGUI\<close> and what its widgets hold: the rows of the list box with their
  colour, the entry field, the state of the two buttons, and the bubbles in the chat frame. What
  the user does (dialogs, clicks, typing) is the arguments of the operations; the wall clock is
  the parameter \<open>now\<close>. Fonts and layout are not modelled.
\<close>

section \<open>State\<close>

text \<open>A note is \<open>(timestamp, sender, message)\<close>; a message may be any JSON value the peer sent.\<close>

type_synonym note_entry = "pystr \<times> pystr \<times> json"

datatype side = East | Centre | West

record bubble =
  b_side :: side
  b_colour :: string
  b_label :: "pystr option"
  b_text :: json
  b_time :: pystr

text \<open>
  \<open>known_users\<close> is a set, whose order the code never observes: here the texts in it, a list
  without duplicates, and in \<open>odd_users\<close> whatever else a peer may have put into it.
  The keys of \<open>chat_histories\<close> are the conversations, \<open>None\<close> when no user is selected.
\<close>

record gui =
  g_username :: pystr
  g_title :: pystr
  chat_histories :: "(pystr option \<times> note_entry list) list"
  active_user :: "pystr option"
  known_users :: "pystr list"
  odd_users :: "json list"
  user_listbox :: "(pystr \<times> string) list"
  entry_field :: pystr
  send_on :: bool
  upload_on :: bool
  chat_frame :: "bubble list"
  g_ticks :: nat

definition new_gui :: "pystr \<Rightarrow> gui" where
  "new_gui u =
     \<lparr>g_username = u, g_title = lit ''GuardedIM Chat - '' @ u, chat_histories = [],
      active_user = None, known_users = [], odd_users = [], user_listbox = [], entry_field = [],
      send_on = False, upload_on = False, chat_frame = [], g_ticks = 0\<rparr>"

section \<open>The display\<close>

definition bubble_of :: "note_entry \<Rightarrow> bubble" where
  "bubble_of n =
     (case n of (timestamp, sender, message) \<Rightarrow>
        if sender = lit ''You'' then
          \<lparr>b_side = East, b_colour = ''#DCF8C6'', b_label = None, b_text = message, b_time = timestamp\<rparr>
        else if sender = lit ''System'' then
          \<lparr>b_side = Centre, b_colour = ''#949494'', b_label = None, b_text = message, b_time = timestamp\<rparr>
        else
          \<lparr>b_side = West, b_colour = ''white'', b_label = Some sender, b_text = message,
           b_time = timestamp\<rparr>)"

text \<open>\<open>self.chat_histories.get(u, [])\<close>.\<close>

definition history :: "gui \<Rightarrow> pystr option \<Rightarrow> note_entry list" where
  "history g u = (case dict_get (chat_histories g) u of None \<Rightarrow> [] | Some h \<Rightarrow> h)"

definition update_chat_display :: "gui \<Rightarrow> gui" where
  "update_chat_display g = g\<lparr>chat_frame := map bubble_of (history g (active_user g))\<rparr>"

text \<open>\<open>self.chat_histories.setdefault(u, []).append(n)\<close>.\<close>

definition add_note :: "pystr option \<Rightarrow> note_entry \<Rightarrow> gui \<Rightarrow> gui" where
  "add_note u n g = g\<lparr>chat_histories := dict_set (chat_histories g) u (history g u @ [n])\<rparr>"

section \<open>The callbacks\<close>

definition strip_online :: "pystr \<Rightarrow> pystr" where
  "strip_online s = str_strip (remove_all (lit '' (online)'') s)"

definition format_username :: "json \<Rightarrow> pystr result" where
  "format_username v =
     (if \<not> truthy v then Inr []
      else case v of JStr s \<Rightarrow> Inr (strip_online s) | _ \<Rightarrow> Inl AttributeError)"

definition gui_message ::
  "(nat \<Rightarrow> pystr) \<Rightarrow> json \<Rightarrow> json \<Rightarrow> json option \<Rightarrow> gui \<Rightarrow> unit result \<times> gui" where
  "gui_message now from_user message sender g =
     (let timestamp = now (g_ticks g);
          g1 = g\<lparr>g_ticks := Suc (g_ticks g)\<rparr>;
          shown = (case sender of None \<Rightarrow> from_user | Some v \<Rightarrow> if truthy v then v else from_user)
      in case format_username from_user of
           Inl x \<Rightarrow> (Inl x, g1)
         | Inr from_user_strip \<Rightarrow>
             (case format_username shown of
                Inl x \<Rightarrow> (Inl x, g1)
              | Inr actual_sender \<Rightarrow>
                  if from_user_strip = lit ''System'' then
                    (Inr (), update_chat_display
                       (add_note (active_user g1) (timestamp, lit ''System'', message) g1))
                  else
                    (let g2 = add_note (Some from_user_strip) (timestamp, actual_sender, message) g1;
                         existing_users = map (strip_online \<circ> fst) (user_listbox g2);
                         g3 = (if from_user_strip \<noteq> g_username g2 \<and>
                                  from_user_strip \<notin> set existing_users
                               then g2\<lparr>user_listbox := user_listbox g2 @ [(from_user_strip, [])]\<rparr>
                               else g2)
                     in (Inr (), if Some from_user_strip = active_user g3
                                 then update_chat_display g3 else g3))))"

definition user_row :: "pystr list \<Rightarrow> pystr \<Rightarrow> pystr \<times> string" where
  "user_row online_users user =
     (if user \<in> set online_users
      then (user @ lit '' ('' @ lit ''online'' @ lit '')'', ''yellow'')
      else (user @ lit '' ('' @ lit ''offline'' @ lit '')'', ''red''))"

definition update_user_list :: "pystr list \<Rightarrow> gui \<Rightarrow> gui" where
  "update_user_list online_users g =
     (let known = remdups (known_users g @ online_users)
      in g\<lparr>known_users := known,
           user_listbox := map (user_row online_users)
             (filter (\<lambda>user. user \<noteq> g_username g) (sort known))\<rparr>)"

text \<open>
  The callback is declared to take a \<open>List[str]\<close>, which is what the server sends, but gets any
  value. What cannot be iterated (a missing field, a number) raises \<open>TypeError\<close> before anything
  changes. Of a text the characters are added, and \<open>in\<close> is a test for a substring; of an object
  they are its keys. Of a list the values before the first one that cannot be hashed are added;
  then it raises if there is such a value, with the rows as they were, and otherwise after the
  rows are deleted if \<open>sorted\<close> meets values it cannot compare. Once something else than a text is
  in the set this is so whenever there is a text in it too; a set without any text, which Python
  may be able to sort, is given the same answer.
\<close>

definition is_str :: "json \<Rightarrow> bool" where
  "is_str v = (case v of JStr s \<Rightarrow> True | _ \<Rightarrow> False)"

definition hashable :: "json \<Rightarrow> bool" where
  "hashable v = (case v of JList vs \<Rightarrow> False | JObj ps \<Rightarrow> False | _ \<Rightarrow> True)"

definition texts_of :: "json list \<Rightarrow> pystr list" where
  "texts_of vs = map str_of (filter is_str vs)"

text \<open>\<open>online_users\<close> as a test, on a window whose set already has the new values.\<close>

definition list_users :: "(pystr \<Rightarrow> bool) \<Rightarrow> gui \<Rightarrow> unit result \<times> gui" where
  "list_users online g =
     (if odd_users g \<noteq> [] then (Inl TypeError, g\<lparr>user_listbox := []\<rparr>)
      else (Inr (), g\<lparr>user_listbox := map (user_row (filter online (known_users g)))
             (filter (\<lambda>user. user \<noteq> g_username g) (sort (known_users g)))\<rparr>))"

definition know_users :: "pystr list \<Rightarrow> json list \<Rightarrow> gui \<Rightarrow> gui" where
  "know_users names others g =
     g\<lparr>known_users := remdups (known_users g @ names), odd_users := odd_users g @ others\<rparr>"

definition gui_users :: "json \<Rightarrow> gui \<Rightarrow> unit result \<times> gui" where
  "gui_users v g =
     (case v of
        JList vs \<Rightarrow>
          (let good = takeWhile hashable vs;
               g1 = know_users (texts_of good) (filter (\<lambda>w. \<not> is_str w) good) g
           in if good \<noteq> vs then (Inl TypeError, g1)
              else list_users (\<lambda>u. JStr u \<in> set vs) g1)
      | JStr s \<Rightarrow> list_users (\<lambda>u. sublist u s) (know_users (map (\<lambda>c. [c]) s) [] g)
      | JObj ps \<Rightarrow> list_users (\<lambda>u. u \<in> set (dict_keys ps)) (know_users (dict_keys ps) [] g)
      | _ \<Rightarrow> (Inl TypeError, g))"

text \<open>On a list of texts this is \<open>update_user_list\<close>.\<close>

lemma row_online: "user_row (filter online us) u = user_row us' u" if "u \<in> set us" "online u \<longleftrightarrow> u \<in> set us'"
  using that by (simp add: user_row_def)

lemma gui_users_names:
  assumes "odd_users g = []"
  shows "gui_users (JList (map JStr us)) g = (Inr (), update_user_list us g)"
proof -
  have h: "takeWhile hashable (map JStr us) = map JStr us"
    by (simp add: takeWhile_eq_all_conv hashable_def)
  have t: "texts_of (map JStr us) = us" "filter (\<lambda>w. \<not> is_str w) (map JStr us) = []"
    by (simp_all add: texts_of_def is_str_def filter_map comp_def str_of_def)
  have i: "JStr u \<in> set (map JStr us) \<longleftrightarrow> u \<in> set us" for u by auto
  have m: "map (user_row (filter (\<lambda>u. u \<in> set us) (remdups (known_users g @ us))))
      (filter (\<lambda>user. user \<noteq> g_username g) (sort (remdups (known_users g @ us)))) =
    map (user_row us) (filter (\<lambda>user. user \<noteq> g_username g) (sort (remdups (known_users g @ us))))"
    by (intro map_cong refl row_online) auto
  have "gui_users (JList (map JStr us)) g = list_users (\<lambda>u. u \<in> set us) (know_users us [] g)"
    unfolding gui_users_def json.case h t i Let_def by simp
  also have "\<dots> = (Inr (), update_user_list us g)"
    using assms m by (auto simp: list_users_def know_users_def update_user_list_def Let_def intro!: gui.equality)
  finally show ?thesis .
qed

definition gui_callbacks :: "(nat \<Rightarrow> pystr) \<Rightarrow> gui callbacks" where
  "gui_callbacks now = \<lparr>on_message_received = gui_message now, on_user_list = gui_users\<rparr>"

section \<open>Opening and closing\<close>

text \<open>\<open>ChatGUI()\<close> with the answer of the login dialog: \<open>None\<close> when it leaves at once.\<close>

definition start_gui ::
  "cenv \<Rightarrow> segments option \<Rightarrow> pystr option \<Rightarrow> (segments result \<times> gui client) option" where
  "start_gui ke dial name =
     (case name of
        None \<Rightarrow> None
      | Some u \<Rightarrow>
          if u = [] then None else Some (connect ke dial (new_client ke u (new_gui u))))"

definition on_close :: "gui client \<Rightarrow> gui client" where
  "on_close x = disconnect x"

section \<open>What the user does\<close>

definition on_owner :: "('g \<Rightarrow> 'g) \<Rightarrow> ('g, unit) action" where
  "on_owner f x = (Inr (), x\<lparr>owner := f (owner x)\<rparr>)"

text \<open>The list box shows a row for the group unless it has one; then the group is selected.\<close>

definition open_group :: "pystr \<Rightarrow> gui \<Rightarrow> gui" where
  "open_group group_name g =
     (let display = 35 # group_name;
          g1 = (if display \<notin> set (map fst (user_listbox g))
                then g\<lparr>user_listbox := user_listbox g @ [(display, [])],
                       chat_histories := dict_set (chat_histories g) (Some display)
                         (history g (Some display))\<rparr>
                else g)
      in update_chat_display (g1\<lparr>active_user := Some display\<rparr>))"

definition new_group ::
  "cenv \<Rightarrow> (nat \<Rightarrow> pystr) \<Rightarrow> pystr option \<Rightarrow> pystr option \<Rightarrow> (gui, unit) action" where
  "new_group ke now group_name members x =
     (case (group_name, members) of
        (Some gn, Some ms) \<Rightarrow>
          if gn = [] \<or> ms = [] then (Inr (), x)
          else
            (let members_list = g_username (owner x) # map str_strip (split_acc 44 [] ms)
             in if length members_list < 2
                then system_note (gui_callbacks now)
                       (lit ''Group chat must have at least two members.'') x
                else abind (create_group ke (gui_callbacks now) gn members_list)
                       (\<lambda>ok. if ok then on_owner (open_group gn)
                             else system_note (gui_callbacks now)
                                    (lit ''Failed to create group chat.'')) x)
      | _ \<Rightarrow> (Inr (), x))"

text \<open>
  \<open>curselection()\<close> is the list of the indices of selected rows; Tk gives the empty text for an
  index past the end.
\<close>

definition row_text :: "gui \<Rightarrow> nat \<Rightarrow> pystr" where
  "row_text g i = (if i < length (user_listbox g) then fst (user_listbox g ! i) else [])"

definition switch_user :: "nat list \<Rightarrow> gui \<Rightarrow> gui" where
  "switch_user selection g =
     (case selection of
        [] \<Rightarrow> g
      | i # rest \<Rightarrow>
          (let user = before (lit '' ('') (row_text g i);
               g1 = update_chat_display
                 (g\<lparr>active_user := Some user,
                    g_title := lit ''GuardedIM Chat - '' @ g_username g @ lit '' chatting with '' @ user\<rparr>)
           in if user \<noteq> [] then g1\<lparr>send_on := True, upload_on := True\<rparr>
              else g1\<lparr>send_on := False, upload_on := False\<rparr>))"

definition type_text :: "pystr \<Rightarrow> gui \<Rightarrow> gui" where
  "type_text t g = g\<lparr>entry_field := t\<rparr>"

text \<open>After a message that went out: a note of one's own, and the display again.\<close>

definition note_own :: "(nat \<Rightarrow> pystr) \<Rightarrow> pystr \<Rightarrow> gui \<Rightarrow> gui" where
  "note_own now message g =
     update_chat_display
       (add_note (active_user g) (now (g_ticks g), lit ''You'', JStr message)
         (g\<lparr>g_ticks := Suc (g_ticks g)\<rparr>))"

definition gui_send :: "cenv \<Rightarrow> (nat \<Rightarrow> pystr) \<Rightarrow> (gui, unit) action" where
  "gui_send ke now x =
     (case active_user (owner x) of
        None \<Rightarrow> (Inr (), x)
      | Some user \<Rightarrow>
          if user = [] then (Inr (), x)
          else
            (let message = str_strip (entry_field (owner x))
             in if message = [] then (Inr (), x)
                else abind
                  (if hd user = 35
                   then send_group_message ke (gui_callbacks now) (tl user) message
                   else send_message ke (gui_callbacks now) user message)
                  (\<lambda>success. on_owner (\<lambda>g.
                     (if success then note_own now message g else g)\<lparr>entry_field := []\<rparr>)) x))"

definition upload :: "cenv \<Rightarrow> (nat \<Rightarrow> pystr) \<Rightarrow> pystr \<Rightarrow> (gui, unit) action" where
  "upload ke now file_path x =
     (case active_user (owner x) of
        None \<Rightarrow> (Inr (), x)
      | Some user \<Rightarrow>
          if user = [] \<or> file_path = [] then (Inr (), x)
          else abind
            (if hd user = 35
             then send_group_file ke (gui_callbacks now) (tl user) file_path
             else send_file ke (gui_callbacks now) user file_path)
            (\<lambda>_. areturn ()) x)"

section \<open>The display follows the history\<close>

definition in_sync :: "gui \<Rightarrow> bool" where
  "in_sync g \<longleftrightarrow> chat_frame g = map bubble_of (history g (active_user g))"

text \<open>Histories only grow, and the window keeps its user's name.\<close>

definition grows :: "gui \<Rightarrow> gui \<Rightarrow> bool" where
  "grows g g' \<longleftrightarrow> (\<forall>u. \<exists>t. history g' u = history g u @ t) \<and> g_username g' = g_username g"

definition gui_keeps :: "gui \<Rightarrow> gui \<Rightarrow> bool" where
  "gui_keeps g g' \<longleftrightarrow> grows g g' \<and> (in_sync g \<longrightarrow> in_sync g')"

lemma grows_refl [simp]: "grows g g"
  by (simp add: grows_def)

lemma grows_trans: "grows g g' \<Longrightarrow> grows g' g'' \<Longrightarrow> grows g g''"
  unfolding grows_def by (metis append.assoc)

lemma gui_keeps_refl [simp]: "gui_keeps g g"
  by (simp add: gui_keeps_def)

lemma gui_keeps_trans: "gui_keeps g g' \<Longrightarrow> gui_keeps g' g'' \<Longrightarrow> gui_keeps g g''"
  using grows_trans by (auto simp: gui_keeps_def)

lemma history_add [simp]:
  "history (add_note u n g) v = history g v @ (if v = u then [n] else [])"
  by (simp add: history_def add_note_def)

lemma history_display [simp]: "history (update_chat_display g) u = history g u"
  by (simp add: history_def update_chat_display_def)

lemma add_note_fields [simp]:
  "active_user (add_note u n g) = active_user g" "g_username (add_note u n g) = g_username g"
  "chat_frame (add_note u n g) = chat_frame g" "user_listbox (add_note u n g) = user_listbox g"
  by (simp_all add: add_note_def)

lemma display_fields [simp]:
  "active_user (update_chat_display g) = active_user g"
  "g_username (update_chat_display g) = g_username g"
  "user_listbox (update_chat_display g) = user_listbox g"
  "in_sync (update_chat_display g)"
  by (simp_all add: in_sync_def update_chat_display_def history_def)

lemma display_frame:
  "chat_frame (update_chat_display g) = map bubble_of (history g (active_user g))"
  by (simp add: update_chat_display_def)

text \<open>Fields the history does not depend on.\<close>

lemma history_update [simp]:
  "history (g\<lparr>g_ticks := n\<rparr>) u = history g u" "history (g\<lparr>user_listbox := l\<rparr>) u = history g u"
  "history (g\<lparr>active_user := a\<rparr>) u = history g u" "history (g\<lparr>g_title := ti\<rparr>) u = history g u"
  "history (g\<lparr>known_users := k\<rparr>) u = history g u" "history (g\<lparr>entry_field := en\<rparr>) u = history g u"
  "history (g\<lparr>send_on := b\<rparr>) u = history g u" "history (g\<lparr>upload_on := b\<rparr>) u = history g u"
  by (simp_all add: history_def)

lemma in_sync_update [simp]:
  "in_sync (g\<lparr>g_ticks := n\<rparr>) = in_sync g" "in_sync (g\<lparr>user_listbox := l\<rparr>) = in_sync g"
  "in_sync (g\<lparr>g_title := ti\<rparr>) = in_sync g" "in_sync (g\<lparr>known_users := k\<rparr>) = in_sync g"
  "in_sync (g\<lparr>entry_field := en\<rparr>) = in_sync g"
  "in_sync (g\<lparr>send_on := b\<rparr>) = in_sync g" "in_sync (g\<lparr>upload_on := b\<rparr>) = in_sync g"
  by (simp_all add: in_sync_def)

lemma gui_message_keeps: "gui_keeps g (snd (gui_message now u m sender g))"
  unfolding gui_message_def Let_def
  by (auto simp: gui_keeps_def grows_def split: sum.splits) (auto simp: in_sync_def)

lemma update_user_list_keeps: "gui_keeps g (update_user_list us g)"
  by (simp add: gui_keeps_def grows_def update_user_list_def Let_def)

lemma know_users_keeps: "gui_keeps g (know_users us vs g)"
  by (simp add: gui_keeps_def grows_def know_users_def history_def in_sync_def)

lemma list_users_keeps: "gui_keeps g (snd (list_users online g))"
  by (simp add: gui_keeps_def grows_def list_users_def)

lemma gui_users_keeps: "gui_keeps g (snd (gui_users v g))"
  using gui_keeps_trans [OF know_users_keeps list_users_keeps] know_users_keeps
  by (auto simp: gui_users_def Let_def split: json.splits)

interpretation gw: callback_contract "gui_callbacks now" gui_keeps for now
  by unfold_locales
    (auto simp: gui_callbacks_def gui_message_keeps gui_users_keeps intro: gui_keeps_trans)

lemma open_group_keeps: "gui_keeps g (open_group gn g)"
  unfolding open_group_def Let_def
  by (auto simp: gui_keeps_def grows_def) (auto simp: history_def)

lemma switch_user_keeps: "gui_keeps g (switch_user sel g)"
  unfolding switch_user_def Let_def by (auto simp: gui_keeps_def grows_def split: list.splits)

lemma note_own_keeps: "gui_keeps g (note_own now m g)"
  by (auto simp: gui_keeps_def grows_def note_own_def)

lemma on_owner_steps: "(\<And>g. gui_keeps g (f g)) \<Longrightarrow> owner_steps gui_keeps (on_owner f)"
  by (simp add: owner_steps_def on_owner_def)

lemma cleared_keeps: "gui_keeps g g' \<Longrightarrow> gui_keeps g (g'\<lparr>entry_field := en\<rparr>)"
  by (simp add: gui_keeps_def grows_def)

lemma new_group_keeps: "gui_keeps (owner x) (owner (snd (new_group ke now gn ms x)))"
proof -
  have s: "owner_steps gui_keeps (abind (create_group ke (gui_callbacks now) n l)
      (\<lambda>ok. if ok then on_owner (open_group n) else system_note (gui_callbacks now) t))" for n l t
    by (intro gw.abind_steps gw.send_steps) (auto intro: on_owner_steps open_group_keeps gw.note_steps)
  show ?thesis
    unfolding new_group_def Let_def
    by (auto split: option.splits intro: gw.steps_at [OF s] gw.steps_at [OF gw.note_steps(1)])
qed

lemma gui_send_keeps: "gui_keeps (owner x) (owner (snd (gui_send ke now x)))"
proof -
  have s: "owner_steps gui_keeps (abind m (\<lambda>ok. on_owner (\<lambda>g. (if ok then note_own now t g else g)\<lparr>entry_field := []\<rparr>)))"
    if "owner_steps gui_keeps m" for m t
    using that by (intro gw.abind_steps on_owner_steps) (auto intro: cleared_keeps note_own_keeps)
  show ?thesis
    unfolding gui_send_def Let_def
    by (auto split: option.splits intro!: gw.steps_at [OF s] gw.send_steps)
qed

lemma upload_keeps: "gui_keeps (owner x) (owner (snd (upload ke now path x)))"
  unfolding upload_def
  by (auto split: option.splits intro!: gw.steps_at gw.abind_steps gw.send_steps gw.areturn_steps)

section \<open>Sessions\<close>

text \<open>One event of a session: bytes arriving on the receive thread, or an act of the user.\<close>

datatype gui_event =
    Arrive bytes | Select "nat list" | Type_text pystr | Press_send
  | New_group "pystr option" "pystr option" | Pick_file pystr | Close_window

fun gui_step :: "cenv \<Rightarrow> (nat \<Rightarrow> pystr) \<Rightarrow> gui client \<Rightarrow> gui_event \<Rightarrow> gui client" where
  "gui_step ke now x (Arrive bs) = receive_loop ke (gui_callbacks now) bs x"
| "gui_step ke now x (Select sel) = snd (on_owner (switch_user sel) x)"
| "gui_step ke now x (Type_text t) = snd (on_owner (type_text t) x)"
| "gui_step ke now x Press_send = snd (gui_send ke now x)"
| "gui_step ke now x (New_group gn ms) = snd (new_group ke now gn ms x)"
| "gui_step ke now x (Pick_file path) = snd (upload ke now path x)"
| "gui_step ke now x Close_window = on_close x"

definition gui_session :: "cenv \<Rightarrow> (nat \<Rightarrow> pystr) \<Rightarrow> gui client \<Rightarrow> gui_event list \<Rightarrow> gui client" where
  "gui_session ke now = foldl (gui_step ke now)"

lemma gui_step_keeps: "gui_keeps (owner x) (owner (gui_step ke now x ev))"
proof (cases ev)
  case (Arrive bs)
  then show ?thesis using gw.receive_loop_step by simp
next
  case Close_window
  then show ?thesis by (simp add: on_close_def disconnect_def close_link_def split: link.splits)
qed (simp_all add: on_owner_def switch_user_keeps gui_send_keeps new_group_keeps upload_keeps
    type_text_def cleared_keeps)

lemma gui_session_keeps: "gui_keeps (owner x) (owner (gui_session ke now x evs))"
proof (induction evs arbitrary: x)
  case (Cons ev evs)
  then show ?case
    unfolding gui_session_def foldl_Cons by (rule gui_keeps_trans [OF gui_step_keeps])
qed (simp add: gui_session_def)

lemma connect_owner: "owner (snd (connect ke dial x)) = owner x"
  by (auto simp: connect_def abind_def areturn_def sendall_def Let_def
      split: option.splits prod.splits sum.splits link.splits if_splits)

lemma start_gui_owner:
  "start_gui ke dial name = Some (r, x) \<Longrightarrow> \<exists>u. name = Some u \<and> owner x = new_gui u"
  using connect_owner [of ke dial "new_client ke (the name) (new_gui (the name))"]
  by (auto simp: start_gui_def new_client_def split: option.splits if_splits)

section \<open>Rows\<close>

lemma suffix_eqs:
  "lit '' ('' @ lit ''online'' @ lit '')'' = lit '' (online)''"
  "lit '' ('' @ lit ''offline'' @ lit '')'' = lit '' (offline)''"
  by (simp_all add: py_eval)

lemma name_no_space: "name_match n u \<Longrightarrow> 32 \<notin> set u"
  by (auto simp: name_match_def list_all_iff is_name_char_def)

lemma str_strip_name_then:
  assumes "name_match n u" and "\<not> is_space (last (u @ t))"
  shows "str_strip (u @ t) = u @ t"
proof -
  have "u \<noteq> []" using assms(1) by (auto simp: name_match_def)
  then have "\<not> is_space (hd (u @ t))" using name_match_not_space [OF assms(1)] by (cases u) auto
  then show ?thesis using assms(2) by (simp add: str_strip_def strip_by_id)
qed

lemma strip_online_name: "name_match n u \<Longrightarrow> strip_online u = u"
  using remove_all_absent [of 32 "lit '' (online)''" u] name_no_space [of n u] name_match_strip [of n u]
  by (simp add: strip_online_def py_eval)

lemma strip_online_online: "name_match n u \<Longrightarrow> strip_online (u @ lit '' (online)'') = u"
  using remove_all_append [OF name_no_space [of n u], of "lit ''(online)''" "lit '' (online)''"]
    name_match_strip [of n u]
  by (simp add: strip_online_def py_eval)

lemma strip_online_offline:
  "name_match n u \<Longrightarrow> strip_online (u @ lit '' (offline)'') = u @ lit '' (offline)''"
  using remove_all_append [OF name_no_space [of n u], of "lit ''(online)''" "lit '' (offline)''"]
    str_strip_name_then [of n u "lit '' (offline)''"]
  by (simp add: strip_online_def py_eval is_space_def)

lemma strip_online_row:
  "name_match n u \<Longrightarrow>
   strip_online (fst (user_row us u)) = (if u \<in> set us then u else u @ lit '' (offline)'')"
  by (simp add: user_row_def suffix_eqs strip_online_online strip_online_offline
      del: append_assoc)

lemma before_row: "name_match n u \<Longrightarrow> before (lit '' ('') (fst (user_row us u)) = u"
  using before_append [OF name_no_space [of n u], of "lit ''(''"]
  by (auto simp: user_row_def py_eval)




definition shown_users :: "pystr list \<Rightarrow> gui \<Rightarrow> pystr list" where
  "shown_users us g =
     filter (\<lambda>u. u \<noteq> g_username g) (sort (remdups (known_users g @ us)))"

lemma update_user_list_rows:
  "user_listbox (update_user_list us g) = map (user_row us) (shown_users us g)"
  by (simp add: update_user_list_def shown_users_def Let_def)

lemma shown_users_set:
  "set (shown_users us g) = (set (known_users g) \<union> set us) - {g_username g}"
  "distinct (shown_users us g)" "sorted (shown_users us g)"
  by (auto simp: shown_users_def sorted_filter [of id, simplified])

lemma gui_message_named:
  assumes "name_match n u" and "u \<noteq> lit ''System''"
    and "sender = None \<or> sender = Some (JStr u)"
  shows "history (snd (gui_message now (JStr u) m sender g)) v =
      history g v @ (if v = Some u then [(now (g_ticks g), u, m)] else [])"
    and "user_listbox (snd (gui_message now (JStr u) m sender g)) =
      user_listbox g @ (if u \<noteq> g_username g \<and> u \<notin> (strip_online \<circ> fst) ` set (user_listbox g)
        then [(u, [])] else [])"
    and "fst (gui_message now (JStr u) m sender g) = Inr ()"
proof -
  have u: "u \<noteq> []" using assms(1) by (auto simp: name_match_def)
  have f: "format_username (JStr u) = Inr u"
    using strip_online_name [OF assms(1)] u by (simp add: format_username_def)
  have s: "(case sender of None \<Rightarrow> JStr u | Some v \<Rightarrow> if truthy v then v else JStr u) = JStr u"
    using assms(3) by auto
  show "history (snd (gui_message now (JStr u) m sender g)) v =
      history g v @ (if v = Some u then [(now (g_ticks g), u, m)] else [])"
    "user_listbox (snd (gui_message now (JStr u) m sender g)) =
      user_listbox g @ (if u \<noteq> g_username g \<and> u \<notin> (strip_online \<circ> fst) ` set (user_listbox g)
        then [(u, [])] else [])"
    "fst (gui_message now (JStr u) m sender g) = Inr ()"
    unfolding gui_message_def Let_def s f using assms(2) by simp_all
qed

text \<open>A message whose conversation is \<open>System\<close>, and any sender text.\<close>

lemma system_name: "name_match 32 (lit ''System'')"
  by (simp add: name_match_def is_name_char_def py_eval)

lemma gui_system_message:
  assumes "sender = None \<or> (\<exists>u. sender = Some (JStr u))"
  shows "gui_message now (JStr (lit ''System'')) m sender g =
    (Inr (), update_chat_display (add_note (active_user g) (now (g_ticks g), lit ''System'', m)
      (g\<lparr>g_ticks := Suc (g_ticks g)\<rparr>)))"
proof -
  have f: "format_username (JStr (lit ''System'')) = Inr (lit ''System'')"
    using strip_online_name [OF system_name] by (simp add: format_username_def)
  define shown where "shown = (case sender of None \<Rightarrow> JStr (lit ''System'')
    | Some v \<Rightarrow> if truthy v then v else JStr (lit ''System''))"
  have "\<exists>t. shown = JStr t" using assms by (auto simp: shown_def)
  then obtain t where t: "shown = JStr t" by blast
  obtain a where a: "format_username shown = Inr a"
    unfolding t format_username_def by (cases "t = []") auto
  show ?thesis
    unfolding gui_message_def Let_def shown_def [symmetric] f a sum.case by simp
qed

lemma system_note_gui:
  "system_note (gui_callbacks now) t x =
    (Inr (), x\<lparr>owner := update_chat_display (add_note (active_user (owner x))
      (now (g_ticks (owner x)), lit ''System'', JStr t)
      ((owner x)\<lparr>g_ticks := Suc (g_ticks (owner x))\<rparr>))\<rparr>)"
  by (simp add: system_note_def notify_def gui_callbacks_def gui_system_message)

lemma ticks_kept [simp]:
  "g_ticks (update_chat_display g) = g_ticks g" "g_ticks (add_note u n g) = g_ticks g"
  by (simp_all add: update_chat_display_def add_note_def)

section \<open>Properties\<close>

text \<open>C18
  The window shows what the histories hold. In every session, whatever bytes arrive and whatever
  the user does, the bubbles on screen are those of the conversation that is selected, in order;
  no note of any conversation is ever lost or changed; and the window keeps the name given in
  the login dialog.\<close>

theorem display_follows_history:
  assumes "start_gui ke dial name = Some (r, x)"
  shows "chat_frame (owner (gui_session ke now x evs)) =
      map bubble_of (history (owner (gui_session ke now x evs))
        (active_user (owner (gui_session ke now x evs)))) \<and>
    (\<forall>u. \<exists>t. history (owner (gui_session ke now x (evs @ evs'))) u =
      history (owner (gui_session ke now x evs)) u @ t) \<and>
    name = Some (g_username (owner (gui_session ke now x evs)))"
proof -
  obtain u where u: "name = Some u" "owner x = new_gui u"
    using start_gui_owner [OF assms] by blast
  have "in_sync (owner x)" by (simp add: u(2) new_gui_def in_sync_def history_def)
  then have "in_sync (owner (gui_session ke now x evs))"
    "g_username (owner (gui_session ke now x evs)) = u"
    using gui_session_keeps [of x ke now evs] u(2)
    by (simp_all add: gui_keeps_def grows_def new_gui_def)
  moreover have "gui_session ke now x (evs @ evs') = gui_session ke now (gui_session ke now x evs) evs'"
    by (simp add: gui_session_def)
  then have "grows (owner (gui_session ke now x evs)) (owner (gui_session ke now x (evs @ evs')))"
    using gui_session_keeps [of "gui_session ke now x evs" ke now evs'] by (simp add: gui_keeps_def)
  ultimately show ?thesis using u(1) by (simp add: in_sync_def grows_def)
qed


text \<open>C36
  The list of users. The callback given the server's list is \<open>update_user_list\<close>, and after it the rows are exactly the users known so far
  but the window's own, sorted and each once, yellow and marked as on line exactly when they are
  in the list; selecting a row selects that user and enables the buttons. No group is among the
  rows any more, although its history is kept: a group has no row until a message for it arrives
  or it is opened by the dialog.\<close>

theorem user_list_rows:
  assumes "list_all (name_match 32) us" and "list_all (name_match 32) (known_users g)"
    and "odd_users g = []"
  shows "gui_users (JList (map JStr us)) g = (Inr (), update_user_list us g) \<and>
    user_listbox (update_user_list us g) = map (user_row us) (shown_users us g) \<and>
    set (shown_users us g) = (set (known_users g) \<union> set us) - {g_username g} \<and>
    distinct (shown_users us g) \<and> sorted (shown_users us g) \<and>
    (\<forall>i < length (shown_users us g).
      active_user (switch_user [i] (update_user_list us g)) = Some (shown_users us g ! i) \<and>
      send_on (switch_user [i] (update_user_list us g)) \<and>
      upload_on (switch_user [i] (update_user_list us g))) \<and>
    (\<forall>gn. 35 # gn \<notin> set (map fst (user_listbox (update_user_list us g))))"
proof -
  have names: "list_all (name_match 32) (shown_users us g)"
    using assms(1,2) shown_users_set(1) [of us g] by (auto simp: list_all_iff)
  have sel: "active_user (switch_user [i] (update_user_list us g)) = Some (shown_users us g ! i) \<and>
      send_on (switch_user [i] (update_user_list us g)) \<and>
      upload_on (switch_user [i] (update_user_list us g))"
    if i: "i < length (shown_users us g)" for i
  proof -
    have n: "name_match 32 (shown_users us g ! i)" using names i by (simp add: list_all_length)
    then have "shown_users us g ! i \<noteq> []" by (auto simp: name_match_def)
    moreover have "before (lit '' ('') (row_text (update_user_list us g) i) = shown_users us g ! i"
      using before_row [OF n, of us] i by (simp add: row_text_def update_user_list_rows)
    ultimately show ?thesis by (simp add: switch_user_def Let_def)
  qed
  have "35 # gn \<noteq> fst (user_row us u)" if "u \<in> set (shown_users us g)" for gn u
  proof -
    have "name_match 32 u" using names that by (auto simp: list_all_iff)
    then have "u \<noteq> []" "hd u \<noteq> 35"
      by (cases u; auto simp: name_match_def is_name_char_def)+
    then show ?thesis by (cases u) (auto simp: user_row_def)
  qed
  then have "\<forall>gn. 35 # gn \<notin> set (map fst (user_listbox (update_user_list us g)))"
    by (auto simp: update_user_list_rows)
  then show ?thesis
    using sel shown_users_set [of us g] update_user_list_rows [of us g] gui_users_names [OF assms(3)]
    by blast
qed

text \<open>
  Rows and messages. After a list of users in which every user has a row, a message from a user
  who is on line adds no row; one from a known user who has gone off line adds a second row for
  that user, because only the suffix \<open>(online)\<close> is removed when names are compared.\<close>

theorem message_row:
  assumes "list_all (name_match 32) us" and "list_all (name_match 32) (known_users g)"
    and "u \<in> set (shown_users us g)" and "u \<noteq> lit ''System''"
  shows "user_listbox (snd (gui_message now (JStr u) m None (update_user_list us g))) =
    user_listbox (update_user_list us g) @ (if u \<in> set us then [] else [(u, [])])"
proof -
  let ?g = "update_user_list us g"
  have names: "list_all (name_match 32) (shown_users us g)"
    using assms(1,2) shown_users_set(1) [of us g] by (auto simp: list_all_iff)
  then have u: "name_match 32 u" "u \<noteq> g_username g"
    using assms(3) shown_users_set(1) [of us g] by (auto simp: list_all_iff)
  have un: "g_username ?g = g_username g" by (simp add: update_user_list_def Let_def)
  have "u \<in> (strip_online \<circ> fst) ` set (user_listbox ?g) \<longleftrightarrow> u \<in> set us"
  proof -
    have "strip_online (fst (user_row us v)) = u \<longleftrightarrow> v = u \<and> u \<in> set us"
      if "v \<in> set (shown_users us g)" for v
    proof -
      have v: "name_match 32 v" using names that by (auto simp: list_all_iff)
      have "v @ lit '' (offline)'' \<noteq> u" using name_no_space [OF u(1)] by (auto simp: py_eval)
      then show ?thesis using strip_online_row [OF v, of us] by auto
    qed
    then show ?thesis using assms(3) by (force simp: update_user_list_rows)
  qed
  then show ?thesis
    using gui_message_named(2) [OF u(1) assms(4), of None now m ?g] u(2) un by simp
qed

text \<open>
  A user can speak as the system. \<open>System\<close> is a valid user name, and a message whose
  conversation is \<open>System\<close> does not open a conversation: it is filed as a system notice, grey
  and centred without a sender, at the end of whatever conversation is selected.\<close>

theorem system_user_writes_notices:
  "is_safe_username (JStr (lit ''System'')) = Inr True \<and>
   history (snd (gui_message now (JStr (lit ''System'')) m (Some (JStr u)) g)) v =
     history g v @ (if v = active_user g then [(now (g_ticks g), lit ''System'', m)] else []) \<and>
   chat_frame (snd (gui_message now (JStr (lit ''System'')) m (Some (JStr u)) g)) =
     map bubble_of (history g (active_user g)) @
       [\<lparr>b_side = Centre, b_colour = ''#949494'', b_label = None, b_text = m, b_time = now (g_ticks g)\<rparr>]"
  using gui_system_message [of "Some (JStr u)" now m g] system_name
  by (simp add: bubble_of_def display_frame)

text \<open>
  A group dialog with an invalid entry. When the group name or any of the comma-separated members
  (an empty one included, as after a trailing comma) is not valid, nothing is written to the
  connection, no conversation is opened or selected, and two notices are added to the selected
  conversation. The test for fewer than two members never applies: the split always yields one.\<close>

theorem new_group_refused:
  assumes "gn \<noteq> []" and "ms \<noteq> []"
    and "\<not> (name_match 48 gn \<and> list_all (name_match 32)
      (g_username (owner x) # map str_strip (split_acc 44 [] ms)))"
  shows "\<exists>y why. new_group ke now (Some gn) (Some ms) x = (Inr (), y) \<and> link y = link x \<and>
    active_user (owner y) = active_user (owner x) \<and>
    user_listbox (owner y) = user_listbox (owner x) \<and>
    (\<forall>v. history (owner y) v = history (owner x) v @ (if v = active_user (owner x) then
      [(now (g_ticks (owner x)), lit ''System'', JStr why),
       (now (Suc (g_ticks (owner x))), lit ''System'', JStr (lit ''Failed to create group chat.''))] else []))"
proof -
  let ?l = "g_username (owner x) # map str_strip (split_acc 44 [] ms)"
  have "\<not> length ?l < 2" using split_acc_some [of 44 "[]" ms] by (simp add: Suc_le_eq not_less)
  then have n: "new_group ke now (Some gn) (Some ms) x =
      abind (create_group ke (gui_callbacks now) gn ?l)
        (\<lambda>ok. if ok then on_owner (open_group gn)
              else system_note (gui_callbacks now) (lit ''Failed to create group chat.'')) x"
    using assms(1,2) by (simp add: new_group_def Let_def)
  have v: "(is_safe_username (JStr m) = Inr True) = name_match 32 m" for m by simp
  define why where "why = (if name_match 48 gn then lit ''Invalid group member username.''
    else lit ''Invalid group name.'')"
  have c: "create_group ke (gui_callbacks now) gn ?l x = refuse (gui_callbacks now) why x"
    using assms(3) unfolding create_group_def v is_safe_group_name_JStr why_def
    by (cases "name_match 48 gn") (simp_all only: simp_thms if_True if_False sum.inject)
  obtain y where y: "new_group ke now (Some gn) (Some ms) x = (Inr (), y)"
    and "y = snd (new_group ke now (Some gn) (Some ms) x)"
    by (simp add: n abind_def c refuse_def areturn_def system_note_gui)
  then have "link y = link x \<and> active_user (owner y) = active_user (owner x) \<and>
      user_listbox (owner y) = user_listbox (owner x) \<and>
      (\<forall>v. history (owner y) v = history (owner x) v @ (if v = active_user (owner x) then
        [(now (g_ticks (owner x)), lit ''System'', JStr why),
         (now (Suc (g_ticks (owner x))), lit ''System'', JStr (lit ''Failed to create group chat.''))] else []))"
    by (simp add: n abind_def c refuse_def areturn_def system_note_gui)
  with y show ?thesis by blast
qed

end
