(* ===== verification/Scenario.thy ===== *)
theory Scenario
  imports Security Messaging Gui
begin

text \<open>
  A concrete world for the witnesses: the primitives of \<open>toy_crypto\<close>, a fixed clock, keys of
  16 bytes, three users; and, for the theorems on runs, reachable states with users on line.
\<close>

definition toy_float :: "pystr \<Rightarrow> pyfloat" where
  "toy_float s = FFin (lit ''0.0'')"

definition toy_env :: env where
  "toy_env =
     \<lparr>e_crypto = toy_crypto, e_random = (\<lambda>i n. replicate n 0), e_clock = (\<lambda>i. lit ''2024''),
      e_float = toy_float, e_printable = (\<lambda>c. False), e_private = []\<rparr>"

definition toy_cenv :: cenv where
  "toy_cenv =
     \<lparr>k_crypto = toy_crypto, k_random = (\<lambda>i n. replicate n 0), k_clock = (\<lambda>i. lit ''2024''),
      k_float = toy_float, k_printable = (\<lambda>c. False), k_root = [lit ''media''],
      k_resolve = (\<lambda>p. p), k_mkdir = (\<lambda>p. True), k_writable = (\<lambda>p. True),
      k_read = (\<lambda>p. Some [1, 2, 3]), k_exn = (\<lambda>x. [])\<rparr>"

definition alice :: pystr where "alice = lit ''alice''"
definition bob :: pystr where "bob = lit ''bob''"
definition carol :: pystr where "carol = lit ''carol''"
definition team :: pystr where "team = lit ''team''"

definition key_of :: "nat \<Rightarrow> bytes" where
  "key_of n = replicate 16 (of_nat n)"

definition toy_server :: server where
  "toy_server =
     \<lparr>clients = [(alice, (1, key_of 1)), (bob, (2, key_of 2))], groups = [(team, [alice, bob])],
      sent = [], broken = (\<lambda>c. False), draws = 0, ticks = 0\<rparr>"

text \<open>A client with an open link and a log of the callbacks as its owner.\<close>

type_synonym log = "(json \<times> json \<times> json option) list"

definition log_callbacks :: "log callbacks" where
  "log_callbacks =
     \<lparr>on_message_received = (\<lambda>a b c g. (Inr (), g @ [(a, b, c)])),
      on_user_list = (\<lambda>v g. (Inr (), g))\<rparr>"

definition toy_client :: "pystr \<Rightarrow> nat \<Rightarrow> log client" where
  "toy_client u n =
     \<lparr>username = u, aes_key = key_of n, link = Link True [], session_token = JNull, files = [],
      owner = [], c_draws = 1, c_ticks = 0\<rparr>"

lemma toy_float_ok: "float_ok toy_float"
proof -
  have "parse_number toy_float (lit ''0.0'') = Some (JFloat (FFin (lit ''0.0'')), [])"
    by (simp add: parse_number_def scan_int_def scan_frac_def scan_exp_def is_digit_def toy_float_def
        py_eval)
  then show ?thesis
    by (simp add: float_ok_def float_wf_def toy_float_def is_digit_def) (simp add: py_eval is_digit_def)
qed

lemma toy_env_ok: "env_ok toy_env"
  using toy_crypto_ok toy_float_ok by (simp add: env_ok_def toy_env_def py_eval)

lemma toy_cenv_ok: "cenv_ok toy_cenv" "same_prims toy_cenv toy_env" "no_links toy_cenv"
  using toy_crypto_ok by (simp_all add: cenv_ok_def same_prims_def no_links_def toy_cenv_def toy_env_def py_eval)

lemma toy_names [simp]:
  "name_match 32 alice" "name_match 32 bob" "name_match 32 carol" "name_match 48 team"
  by (simp_all add: name_match_def alice_def bob_def carol_def team_def py_eval is_name_char_def)

lemma toy_distinct [simp]:
  "alice \<noteq> bob" "bob \<noteq> alice" "alice \<noteq> carol" "carol \<noteq> alice" "bob \<noteq> carol" "carol \<noteq> bob"
  by (simp_all add: alice_def bob_def carol_def)

lemma key_of_ok [simp]: "aes_key_ok (key_of n)" "length (key_of n) = 16"
  by (simp_all add: aes_key_ok_def key_of_def)

lemma toy_client_simps [simp]:
  "aes_key (toy_client u n) = key_of n" "link (toy_client u n) = Link True []"
  "username (toy_client u n) = u" "owner (toy_client u n) = []" "files (toy_client u n) = []"
  by (simp_all add: toy_client_def)

lemma toy_server_simps [simp]:
  "dict_get (clients toy_server) alice = Some (1, key_of 1)"
  "dict_get (clients toy_server) bob = Some (2, key_of 2)"
  "dict_get (clients toy_server) carol = None"
  "dict_get (groups toy_server) team = Some [alice, bob]"
  "live_target toy_server (c, key_of n)"
  by (simp_all add: toy_server_def dict_get_def live_target_def)

text \<open>A wrapped key for the witnesses.\<close>

definition toy_wrapped :: bytes where
  "toy_wrapped = 16 # key_of 5 @ replicate 239 0"

lemma toy_wrapped_key:
  "length toy_wrapped = 256"
  "rsa_unwrap (e_crypto toy_env) (e_private toy_env) toy_wrapped = Some (key_of 5)"
  by (simp_all add: toy_wrapped_def toy_env_def toy_crypto_def)

section \<open>Reachable states\<close>

lemma join_possible:
  assumes "reachable e y" and "phase y c = Fresh"
    and "length w = 256" and "rsa_unwrap (e_crypto e) (e_private e) w = Some k"
    and "name_match 32 u" and "dict_get (clients (srv y)) u = None"
  shows "\<exists>y'. reachable e y' \<and> phase y' = (phase y)(c := Active u k) \<and> broken (srv y') = broken (srv y)"
proof -
  let ?s1 = "(srv y)\<lparr>clients := dict_set (clients (srv y)) u (c, k)\<rparr>"
  have w: "live [w]" "length (concat [w]) = 256" "rsa_unwrap (e_crypto e) (e_private e) (concat [w]) = Some k"
    using assms(3,4) by (auto simp: live_def)
  have "handshake e c ([w] @ map of_nat u # []) (srv y) = (Joined u k (concat []), ?s1)"
    by (rule handshake_joins [OF w assms(5,6)])
  let ?y = "y\<lparr>srv := announce e c k ?s1, phase := (phase y)(c := Active u k)\<rparr>"
  from reachable.step [OF assms(1) sys_step.join [OF assms(2) \<open>handshake e c _ _ = _\<close>]]
  have "reachable e ?y" .
  moreover have "broken (announce e c k ?s1) = broken (srv y)"
    using announce_tables [of ?s1 e c k] by (simp add: same_tables_def)
  ultimately show ?thesis by (intro exI [of _ ?y] conjI) simp_all
qed

definition two_online :: "system \<Rightarrow> bool" where
  "two_online y \<longleftrightarrow>
     phase y 1 = Active alice (key_of 1) \<and> phase y 2 = Active bob (key_of 2) \<and> phase y 3 = Fresh \<and>
     broken (srv y) = (\<lambda>_. False)"

lemma toy_wrap: "\<exists>w. length w = 256 \<and> rsa_unwrap (e_crypto toy_env) (e_private toy_env) w = Some (key_of n)"
  using toy_rsa_pair [of "[]" "e_private toy_env"] unfolding rsa_pair_def
  by (metis env.select_convs(1) toy_env_def key_of_ok(2) numeral_le_iff semiring_norm(69,72,76,68,71,78))

lemma toy_reachable: "\<exists>y. reachable toy_env y \<and> two_online y"
proof -
  obtain w1 w2 where w: "length w1 = 256" "rsa_unwrap (e_crypto toy_env) (e_private toy_env) w1 = Some (key_of 1)"
    "length w2 = 256" "rsa_unwrap (e_crypto toy_env) (e_private toy_env) w2 = Some (key_of 2)"
    using toy_wrap by metis
  obtain y1 where y1: "reachable toy_env y1" "phase y1 = (\<lambda>_. Fresh)(1 := Active alice (key_of 1))"
    "broken (srv y1) = (\<lambda>_. False)"
    using join_possible [OF reachable.start _ w(1,2) toy_names(1), of 1]
    by (auto simp: init_system_def init_server_def)
  have "dict_get (clients (srv y1)) bob = None"
  proof (rule ccontr)
    assume "dict_get (clients (srv y1)) bob \<noteq> None"
    then obtain c k where "dict_get (clients (srv y1)) bob = Some (c, k)" by auto
    then have "phase y1 c = Active bob k"
      using registry_okD(2) [OF reachable_registry [OF y1(1)]] by blast
    then show False using y1(2) by (simp split: if_splits)
  qed
  then obtain y2 where "reachable toy_env y2" "phase y2 = (phase y1)(2 := Active bob (key_of 2))"
    "broken (srv y2) = (\<lambda>_. False)"
    using join_possible [OF y1(1) _ w(3,4) toy_names(2), of 2] y1(2,3) by auto
  then show ?thesis using y1(2) by (auto simp: two_online_def)
qed

text \<open>A reachable state in which a frame has been written: the list of users after a login.\<close>

lemma announce_sends:
  assumes "env_ok e" and "fits e (user_list_payload (dict_keys (clients s)))"
    and "live_target s (c, k)"
  shows "\<exists>d \<in> set (sent (announce e c k s)).
    target_of d = (c, k) \<and> d_payload d = user_list_payload (dict_keys (clients s))"
proof -
  let ?p = "user_list_payload (dict_keys (clients s))"
  have "always_ok (send_payload e) ?p s (c, k)"
    using assms by (intro live_always_ok) simp_all
  then obtain v s1 where s1: "send_payload e c k ?p s = (Inr v, s1)"
    "delivered (wrap_payload ?p) [(c, k)] s s1"
    by (rule tr.always_okD)
  then have "\<exists>d \<in> set (sent s1). target_of d = (c, k) \<and> d_payload d = ?p"
    by (auto simp: delivered_def)
  moreover have "prefix (sent s1) (sent (announce e c k s))"
    using broadcast_emits [of e s1] s1(1) by (simp add: announce_def emits_deliveries)
  ultimately show ?thesis by (auto simp: prefix_def)
qed

lemma toy_list_size: "length (dumps (user_list_payload [alice])) < 100"
  by (simp add: user_list_payload_def alice_def py_eval dumps_str_def esc_char_def)

lemma toy_sent:
  "\<exists>y d. reachable toy_env y \<and> d \<in> set (sent (srv y)) \<and> d_payload d = user_list_payload [alice]"
proof -
  obtain w where w: "length w = 256"
    "rsa_unwrap (e_crypto toy_env) (e_private toy_env) w = Some (key_of 1)"
    using toy_wrap by blast
  let ?i = "init_system"
  let ?s1 = "(srv ?i)\<lparr>clients := dict_set (clients (srv ?i)) alice (1, key_of 1)\<rparr>"
  let ?y = "?i\<lparr>srv := announce toy_env 1 (key_of 1) ?s1,
    phase := (phase ?i)(1 := Active alice (key_of 1))\<rparr>"
  have init: "phase ?i 1 = Fresh" "clients (srv ?i) = []" "broken (srv ?i) = (\<lambda>_. False)"
    by (simp_all add: init_system_def init_server_def)
  have "handshake toy_env 1 ([w] @ map of_nat alice # []) (srv ?i) =
      (Joined alice (key_of 1) (concat []), ?s1)"
    by (rule handshake_joins) (use w init in \<open>auto simp: live_def\<close>)
  from reachable.step [OF reachable.start sys_step.join [OF init(1) this]]
  have r: "reachable toy_env ?y" .
  have cl: "dict_keys (clients ?s1) = [alice]" by (simp add: init dict_keys_def)
  have "fits toy_env (user_list_payload (dict_keys (clients ?s1)))"
    unfolding cl fits_def using toy_list_size by (simp add: user_list_payload_ok)
  then obtain d where "d \<in> set (sent (srv ?y))" "d_payload d = user_list_payload [alice]"
    using announce_sends [OF toy_env_ok, of ?s1 1 "key_of 1"] init(3)
    unfolding cl by (auto simp: live_target_def)
  with r show ?thesis by blast
qed

section \<open>Frames of the users\<close>

lemma toy_frame:
  assumes "json_wf toy_float (JObj p)"
  shows "\<exists>b. frame_payload toy_env (key_of n) b = Some p"
proof -
  note r = env_okD(1,3) [OF toy_env_ok]
  have wf: "json_wf (e_float toy_env) (JObj p)" using assms by (simp add: toy_env_def)
  obtain b where "encrypt_message (e_crypto toy_env) (e_random toy_env 0 12) (dumps (JObj p)) (key_of n) = Inr b"
    using seal_total [OF r wf key_of_ok(1)] by blast
  from seal_open(1) [OF r wf this] have "frame_payload toy_env (key_of n) b = Some p"
    by (simp add: frame_payload_def)
  then show ?thesis ..
qed

definition toy_message :: jobject where
  "toy_message = text_request ''message'' ''user'' alice bob (lit ''hi'') JNull"

definition toy_file :: jobject where
  "toy_file = file_request ''message_file'' ''user'' alice bob (lit ''aGk='') (lit ''a.txt'') JNull"

lemma toy_requests_wf: "json_wf toy_float (JObj toy_message)" "json_wf toy_float (JObj toy_file)"
  unfolding toy_message_def toy_file_def
  by (rule text_request_wf file_request_wf; simp add: str_wf_name [of 32])+

lemma toy_file_accepted: "file_accepted toy_env toy_file"
  by (simp add: file_accepted_def toy_file_def file_request_fields check_file_size_JStr)
    (simp add: b64decode_def b64_value_def pad3_def is_safe_transfer_filename_def safe_filename_def Let_def path_basename_def
      replace_char_def clean_part_def strip_by_def is_name_char_def is_dot_us_def lower_ascii_def
      splitext_ext_def BLOCKED_FILE_EXTENSIONS_def py_eval size_limits)

lemma two_online_clients:
  assumes "reachable toy_env y" and "two_online y"
  shows "dict_get (clients (srv y)) alice = Some (1, key_of 1)"
    and "dict_get (clients (srv y)) bob = Some (2, key_of 2)"
    and "live_target (srv y) (c, key_of n)"
  using registry_okD(2) [OF reachable_registry [OF assms(1)]] assms(2)
  by (simp_all add: two_online_def live_target_def)

text \<open>Alice's message, treated in a reachable state, is delivered to Bob.\<close>

lemma toy_message_delivered:
  assumes "dict_get (clients s) bob = Some (2, key_of 2)" and "live_target s (2, key_of 2)"
  shows "\<exists>b d. frame_payload toy_env (key_of 1) b = Some toy_message \<and>
    deliveries s (process_frame toy_env alice 1 (key_of 1) b s) = [d] \<and> target_of d = (2, key_of 2) \<and>
    kind_of (d_payload d) = JStr (lit ''message'')"
proof -
  obtain b where b: "frame_payload toy_env (key_of 1) b = Some toy_message"
    using toy_frame [OF toy_requests_wf(1)] by blast
  let ?q = "JObj (message_payload toy_env (own_payload alice toy_message) s)"
  have "accepts_message toy_env toy_message bob"
    by (simp add: accepts_message_def toy_message_def text_request_fields)
      (simp add: check_message_size_def utf8_encode_ascii py_eval size_limits)
  moreover have "length (dumps (JObj toy_message)) + 400 \<le> MAX_FRAME_SIZE"
    by (simp add: toy_message_def text_request_def alice_def bob_def dumps_str_def esc_char_def py_eval
        size_limits)
  ultimately have rel: "relayed toy_env ?q [(2, key_of 2)] s (process_frame toy_env alice 1 (key_of 1) b s)"
    using assms by (intro relay_message [OF b _ _ toy_env_ok toy_names(1)])
      (simp_all add: toy_message_def text_request_fields)
  then obtain d where d: "deliveries s (process_frame toy_env alice 1 (key_of 1) b s) = [d]"
    "target_of d = (2, key_of 2)"
    using delivered_deliveries [of ?q] unfolding relayed_def by fastforce
  moreover have "d_payload d = ?q"
    using rel delivered_in [of ?q] d(1) by (fastforce simp: relayed_def)
  ultimately show ?thesis using b by (auto simp: toy_message_def text_request_fields)
qed

lemma toy_file_delivered:
  assumes "dict_get (clients s) bob = Some (2, key_of 2)" and "live_target s (2, key_of 2)"
  shows "\<exists>b d. frame_payload toy_env (key_of 1) b = Some toy_file \<and>
    deliveries s (process_frame toy_env alice 1 (key_of 1) b s) = [d] \<and>
    kind_of (d_payload d) = JStr (lit ''message_file'')"
proof -
  obtain b where b: "frame_payload toy_env (key_of 1) b = Some toy_file"
    using toy_frame [OF toy_requests_wf(2)] by blast
  let ?q = "JObj (file_payload toy_env (own_payload alice toy_file) s)"
  have "length (dumps (JObj toy_file)) + 400 \<le> MAX_FRAME_SIZE"
    by (simp add: toy_file_def file_request_def alice_def bob_def dumps_str_def esc_char_def py_eval
        size_limits)
  then have rel: "relayed toy_env ?q [(2, key_of 2)] s (process_frame toy_env alice 1 (key_of 1) b s)"
    using assms by (intro relay_file [OF b _ toy_file_accepted _ _ toy_names(2) toy_env_ok toy_names(1)])
      (simp_all add: toy_file_def file_request_fields)
  then obtain d where d: "deliveries s (process_frame toy_env alice 1 (key_of 1) b s) = [d]"
    using delivered_deliveries [of ?q] unfolding relayed_def by fastforce
  moreover have "d_payload d = ?q"
    using rel delivered_in [of ?q] d(1) by (fastforce simp: relayed_def)
  ultimately show ?thesis using b by (auto simp: toy_file_def file_request_fields)
qed

definition toy_group_message :: jobject where
  "toy_group_message = text_request ''group_message'' ''group'' alice team (lit ''hi'') JNull"

lemma toy_group_targets: "group_targets toy_server team alice = [(2, key_of 2)]"
  by (simp add: group_targets_def group_members_def fanout_targets_Cons)

lemma toy_group_delivered:
  "\<exists>b d. deliveries toy_server (process_frame toy_env alice 1 (key_of 1) b toy_server) = [d] \<and>
    kind_of (d_payload d) = JStr (lit ''group_message'')"
proof -
  have "json_wf toy_float (JObj toy_group_message)"
    unfolding toy_group_message_def
    by (rule text_request_wf) (simp_all add: str_wf_name [of 32] str_wf_name [of 48])
  then obtain b where b: "frame_payload toy_env (key_of 1) b = Some toy_group_message"
    using toy_frame by blast
  let ?q = "JObj (group_message_payload toy_env team (own_payload alice toy_group_message) toy_server)"
  have "length (dumps (JObj toy_group_message)) +
      length (dumps (jget toy_group_message (lit ''payload''))) + 500 \<le> MAX_FRAME_SIZE"
    unfolding toy_group_message_def text_request_fields
    by (simp add: text_request_def alice_def team_def dumps_str_def esc_char_def py_eval size_limits)
  then have rel: "relayed toy_env ?q (group_targets toy_server team alice) toy_server
      (process_frame toy_env alice 1 (key_of 1) b toy_server)"
    by (intro relay_group_message [OF b _ _ toy_names(4) _ toy_env_ok toy_names(1)])
      (simp_all add: toy_group_message_def text_request_fields toy_group_targets in_group_def
        group_members_def)
  then obtain d where d: "deliveries toy_server (process_frame toy_env alice 1 (key_of 1) b toy_server) = [d]"
    using delivered_deliveries [of ?q] unfolding relayed_def toy_group_targets by fastforce
  have "d_payload d = ?q"
    using rel delivered_in [of ?q] d by (fastforce simp: relayed_def)
  then have "kind_of (d_payload d) = JStr (lit ''group_message'')"
    by (simp add: toy_group_message_def text_request_fields)
  with d show ?thesis by blast
qed

section \<open>Witnesses for the client's paths\<close>

theorem client_writes_inside_media_witness:
  "list_all (\<lambda>f. is_relative_to (fst f) (k_root toy_cenv))
    (files (receive_loop toy_cenv log_callbacks [0, 0, 0, 1, 7] (toy_client bob 2)))"
  by (rule client_writes_inside_media) simp

theorem receive_path_shape_witness:
  "\<exists>a b f. build_receive_path toy_cenv alice (JStr (lit ''../x'')) JNull =
      Inr (k_root toy_cenv @ [lit ''user_'' @ a, lit ''from_'' @ b, f]) \<and>
    good_component 80 a \<and> good_component 80 b \<and> good_component 120 f"
  by (rule receive_path_shape [OF toy_cenv_ok(3)])

theorem receive_directories_witness:
  "is_safe_username (JStr (95 # alice)) = Inr True \<and>
    build_receive_path toy_cenv bob (JStr (95 # alice)) (JStr team) = build_receive_path toy_cenv bob (JStr alice) (JStr team) \<and>
    (build_receive_path toy_cenv bob (JStr alice) (JStr team) = build_receive_path toy_cenv bob (JStr carol) (JStr team) \<longleftrightarrow>
     alice = carol)"
  by (rule receive_directories [OF toy_cenv_ok(3)])
    (simp_all add: name_match_def is_name_char_def alice_def carol_def py_eval)

section \<open>Witnesses for the window\<close>

theorem display_follows_history_witness:
  "\<exists>r x. start_gui toy_cenv None (Some bob) = Some (r, x) \<and>
    chat_frame (owner (gui_session toy_cenv (\<lambda>i. []) x [Select [0], Press_send])) =
      map bubble_of (history (owner (gui_session toy_cenv (\<lambda>i. []) x [Select [0], Press_send]))
        (active_user (owner (gui_session toy_cenv (\<lambda>i. []) x [Select [0], Press_send])))) \<and>
    Some bob = Some (g_username (owner (gui_session toy_cenv (\<lambda>i. []) x [Select [0], Press_send])))"
proof -
  have "bob \<noteq> []" by (simp add: bob_def)
  then obtain r x where "start_gui toy_cenv None (Some bob) = Some (r, x)"
    by (cases "connect toy_cenv None (new_client toy_cenv bob (new_gui bob))") (simp add: start_gui_def)
  with display_follows_history [OF this] show ?thesis by blast
qed


theorem user_list_rows_witness:
  "gui_users (JList (map JStr [bob, alice])) (new_gui carol) =
      (Inr (), update_user_list [bob, alice] (new_gui carol)) \<and>
    user_listbox (update_user_list [bob, alice] (new_gui carol)) =
      map (user_row [bob, alice]) (shown_users [bob, alice] (new_gui carol)) \<and>
    set (shown_users [bob, alice] (new_gui carol)) = {alice, bob} \<and>
    (\<forall>gn. 35 # gn \<notin> set (map fst (user_listbox (update_user_list [bob, alice] (new_gui carol)))))"
proof -
  have "list_all (name_match 32) [bob, alice]" "list_all (name_match 32) (known_users (new_gui carol))"
    "odd_users (new_gui carol) = []"
    by (simp_all add: new_gui_def)
  from user_list_rows [OF this] show ?thesis by (auto simp: new_gui_def)
qed

theorem message_row_witness:
  "user_listbox (snd (gui_message (\<lambda>i. []) (JStr bob) JNull None
      (update_user_list [alice] ((new_gui carol)\<lparr>known_users := [bob]\<rparr>)))) =
    user_listbox (update_user_list [alice] ((new_gui carol)\<lparr>known_users := [bob]\<rparr>)) @ [(bob, [])]"
proof -
  let ?g = "(new_gui carol)\<lparr>known_users := [bob]\<rparr>"
  have "list_all (name_match 32) [alice]" "list_all (name_match 32) (known_users ?g)" by simp_all
  moreover have "bob \<in> set (shown_users [alice] ?g)" "bob \<noteq> lit ''System''"
    by (simp_all add: shown_users_set new_gui_def) (simp add: bob_def)
  ultimately show ?thesis using message_row [of "[alice]" ?g bob "\<lambda>i. []" JNull] by simp
qed

theorem new_group_refused_witness:
  "\<exists>x y why. new_group toy_cenv (\<lambda>i. []) (Some team) (Some (lit ''bob,'')) x = (Inr (), y) \<and>
    link y = link x \<and> history (owner y) None = history (owner x) None @
      [([], lit ''System'', JStr why), ([], lit ''System'', JStr (lit ''Failed to create group chat.''))]"
proof -
  let ?x = "new_client toy_cenv alice (new_gui alice)"
  have "\<not> (name_match 48 team \<and> list_all (name_match 32)
      (g_username (owner ?x) # map str_strip (split_acc 44 [] (lit ''bob,''))))"
    by (simp add: py_eval name_match_def str_strip_def strip_by_def)
  moreover have "team \<noteq> []" "lit ''bob,'' \<noteq> []" by (simp_all add: team_def)
  moreover have "active_user (owner ?x) = None" by (simp add: new_client_def new_gui_def)
  ultimately show ?thesis using new_group_refused [of team "lit ''bob,''" ?x toy_cenv "\<lambda>i. []"] by force
qed

end
