(* ===== verification/Concurrent.thy ===== *)
theory Concurrent
  imports Interleave Progress Scenario
begin

text \<open>
  The properties of the server under every schedule of its handler threads: the tables, the log
  and what is written stay as promised, every handler ends, and it treats the frames it receives
  one after the other. That a thread alone is a handler of Server is shown in Threads.
\<close>

section \<open>Invariants under every schedule\<close>

text \<open>C6
  After any schedule, whatever the connections deliver and whichever break, the table of clients
  is exactly the set of the threads between their registration and their locked removal: no
  name twice, every name well-formed, every entry with the name and the key that the bytes of
  its own connection stand for, and no such thread missing, although lookups, sends and other
  threads' removals come between any two steps of a request.\<close>

theorem registry_under_interleaving:
  "distinct (dict_keys (clients (mem (t_exec e sched (t_init inputs))))) \<and>
   list_all (\<lambda>(u, c, k). name_match 32 u \<and> session e (inputs c) = Some (u, k))
     (clients (mem (t_exec e sched (t_init inputs)))) \<and>
   (\<forall>u c k. dict_get (clients (mem (t_exec e sched (t_init inputs)))) u = Some (c, k) \<longleftrightarrow>
     (\<exists>p inp. threads (t_exec e sched (t_init inputs)) c = Serving u k p inp))"
proof -
  note inv = t_invD [OF t_reach [of e inputs sched]]
  have "name_match 32 u \<and> session e (inputs c) = Some (u, k)"
    if "(u, c, k) \<in> set (clients (mem (t_exec e sched (t_init inputs))))" for u c k
    using known_in [OF inv(1) that] known_names [OF inv(1)] that
    by (force simp: owns_def list_all_iff dict_keys_def)
  then show ?thesis
    using inv(1,3) by (auto simp: known_def dict_ok_def dict_keys_def list_all_iff)
qed

text \<open>C15
  Groups under every schedule: each has a valid name and a non-empty, sorted list of valid names
  without duplicates, no name occurs twice, and whatever is scheduled afterwards leaves every
  existing group as it is, since the test for the name and the insertion share one locked
  section.\<close>

theorem groups_under_interleaving:
  "distinct (dict_keys (groups (mem (t_exec e sched (t_init inputs))))) \<and>
   list_all (\<lambda>(g, ms). name_match 48 g \<and> ms \<noteq> [] \<and> sorted ms \<and> distinct ms \<and>
     list_all (name_match 32) ms) (groups (mem (t_exec e sched (t_init inputs)))) \<and>
   dict_get (groups (mem (t_exec e sched (t_init inputs)))) \<subseteq>\<^sub>m
     dict_get (groups (mem (t_exec e (sched @ sched') (t_init inputs))))"
proof -
  note g = t_invD(4) [OF t_reach [of e inputs sched]]
  have "group_ok n ms" if "(n, ms) \<in> set (groups (mem (t_exec e sched (t_init inputs))))" for n ms
    using g dict_get_in that unfolding groups_good_def by metis
  moreover have "distinct (dict_keys (groups (mem (t_exec e sched (t_init inputs)))))"
    using g by (simp add: groups_good_def dict_ok_def dict_keys_def)
  ultimately show ?thesis
    using t_exec_groups [OF t_reach] by (auto simp: list_all_iff group_ok_def)
qed

text \<open>C7
  The interleaved server refines the chat. Forget keys, bytes, frames and the order of the
  tables: each step of each thread, after any schedule, is a login of a free name on a free
  connection, a logout, the creation of a new room by an on-line user who is in it, or changes
  nothing; no interleaving makes anything else visible.\<close>

theorem interleaving_refines_chat:
  "chat_step (abs_mem (mem (t_exec e sched (t_init inputs))))
     (abs_mem (mem (t_exec e (sched @ [ch]) (t_init inputs))))"
  using t_next_refines [OF t_reach] by simp

section \<open>What is written under every schedule\<close>

lemma request_write_legit:
  "request_write e K u c p s d \<Longrightarrow> jget p (lit ''from'') = JStr u \<Longrightarrow> legit u c d"
proof (induction rule: request_write.induct)
  case (rw_invite d g ms m)
  then show ?case by (auto simp: legit_def is_invite_def)
qed (auto simp: legit_def is_reply_def is_forward_def forwarded_kinds_def)

text \<open>C5
  Who writes what, after any schedule. A step of the thread of connection \<open>c\<close> writes lists of
  users, the refusal of \<open>c\<close>'s own handshake, or, while \<open>c\<close> is registered under the name \<open>u\<close>,
  what a request of \<open>u\<close> allows: an answer on \<open>c\<close>; an invitation, message or file with \<open>u\<close> as its
  sender, whatever the frame said, checked for its size, file name and the membership of both
  sides in the group as it stands, and written to a connection whose own handshake carried the
  name of the addressee, even when that user has left meanwhile.\<close>

theorem writes_under_interleaving:
  "emits (\<lambda>d. is_list d \<or> refusal e (owns e inputs) c d \<or>
     (\<exists>u k p. dict_get (clients (mem (t_exec e sched (t_init inputs)))) u = Some (c, k) \<and>
        jget p (lit ''from'') = JStr u \<and>
        request_write e (owns e inputs) u c p (mem (t_exec e sched (t_init inputs))) d \<and>
        (is_reply c d \<or> is_invite u d \<or> is_forward u d)))
     (mem (t_exec e sched (t_init inputs))) (mem (t_exec e (sched @ [Run c]) (t_init inputs)))"
proof -
  have "emits (\<lambda>d. is_list d \<or> refusal e (owns e inputs) c d \<or>
     (\<exists>u k p. dict_get (clients (mem (t_exec e sched (t_init inputs)))) u = Some (c, k) \<and>
        jget p (lit ''from'') = JStr u \<and>
        request_write e (owns e inputs) u c p (mem (t_exec e sched (t_init inputs))) d))
     (mem (t_exec e sched (t_init inputs))) (mem (t_next e (Run c) (t_exec e sched (t_init inputs))))"
    by (rule t_next_writes [OF t_reach])
  then show ?thesis
    using request_write_legit unfolding legit_def [symmetric]
    by (auto elim!: emits_mono) blast
qed

text \<open>C10
  After any schedule every frame in the log is sealed under the key that its own connection's
  handshake delivered, so no connection is ever written to under two keys; and every frame
  within the limit is taken out of the stream, decrypted with that key and parsed back to the
  payload the server meant.\<close>

theorem log_under_interleaving:
  assumes "env_ok e"
  shows "list_all (\<lambda>d. map_option snd (session e (inputs (d_conn d))) = Some (d_key d) \<and>
      (MAX_FRAME_SIZE < length (dumps (d_payload d)) + 28 \<or> readable e d))
    (sent (mem (t_exec e sched (t_init inputs))))"
proof -
  have "map_option snd (session e (inputs (d_conn d))) = Some (d_key d) \<and>
      (MAX_FRAME_SIZE < length (dumps (d_payload d)) + 28 \<or> readable e d)"
    if "d \<in> set (sent (mem (t_exec e sched (t_init inputs))))" for d
  proof -
    have "log_good e (owns e inputs) d"
      using t_invD(5) [OF t_reach] that by (auto simp: list_all_iff)
    then show ?thesis
      using log_key [OF t_reach that] sealed_readable [OF _ assms, of d] assms not_less
      unfolding log_good_def by blast
  qed
  then show ?thesis by (simp add: list_all_iff)
qed

theorem log_under_interleaving_witness:
  "list_all (\<lambda>d. map_option snd (session toy_env [toy_wrapped, map of_nat alice]) = Some (d_key d) \<and>
      (MAX_FRAME_SIZE < length (dumps (d_payload d)) + 28 \<or> readable toy_env d))
    (sent (mem (t_exec toy_env [Run 1, Run 1, Cut 2, Run 1]
      (t_init (\<lambda>c. [toy_wrapped, map of_nat alice])))))"
  using log_under_interleaving [OF toy_env_ok, of "\<lambda>c. [toy_wrapped, map of_nat alice]"
      "[Run 1, Run 1, Cut 2, Run 1]"] by simp

section \<open>Progress\<close>

text \<open>C8
  Every handler ends, where no call of the operating system blocks for ever: what a connection
  delivers is finite here, and each \<open>sendall\<close> returns or raises. If then a thread is scheduled
  again and again, it comes to its end, whatever the other threads do and whichever connections
  break between its steps: from then on it has ended, its connection is closed and no name is
  registered for it. In particular no frame, list or clean-up of other threads, however many,
  keeps its loops from ending.\<close>

theorem every_handler_ends:
  assumes "fair_to c sched"
  shows "\<exists>n. \<forall>i\<ge>n. threads (t_trace e sched (t_init inputs) i) c = Leaving Done \<and>
    broken (mem (t_trace e sched (t_init inputs) i)) c \<and>
    c \<notin> ran (online (abs_mem (mem (t_trace e sched (t_init inputs) i))))"
proof -
  obtain n where n: "threads (t_trace e sched (t_init inputs) n) c = Leaving Done"
    using gets_ended [OF assms] unfolding gets_to_def by blast
  have "threads (t_trace e sched (t_init inputs) i) c = Leaving Done \<and>
      broken (mem (t_trace e sched (t_init inputs) i)) c \<and>
      c \<notin> ran (online (abs_mem (mem (t_trace e sched (t_init inputs) i))))" if "n \<le> i" for i
  proof -
    note s = ended_stays [OF n that]
    from ended_handler [OF s [unfolded t_trace_exec]] show ?thesis
      using s unfolding t_trace_exec by (auto simp: abs_mem_def ran_def)
  qed
  then show ?thesis by blast
qed

lemma alternating_fair: "fair_to 1 (\<lambda>i. Run (i mod 2))"
  unfolding fair_to_def
proof
  fix n :: nat
  show "\<exists>i. n \<le> i \<and> Run (i mod 2) = Run 1" by (rule exI [of _ "Suc (2 * n)"]) simp
qed

theorem every_handler_ends_witness:
  "\<exists>n. threads (t_trace toy_env (\<lambda>i. Run (i mod 2)) (t_init (\<lambda>c. [toy_wrapped, map of_nat alice])) n) 1 =
      Leaving Done \<and>
    broken (mem (t_trace toy_env (\<lambda>i. Run (i mod 2)) (t_init (\<lambda>c. [toy_wrapped, map of_nat alice])) n)) 1"
  using every_handler_ends [OF alternating_fair, of toy_env "\<lambda>c. [toy_wrapped, map of_nat alice]"]
  by blast

text \<open>C9
  Every frame is treated, in order and exactly once. While a thread that is scheduled again and
  again serves its connection, then, whatever happens between its steps, its turns are these and
  no others: first it executes what is left of the program it was in; then, for each frame that
  the connection delivers, in their order, one turn that takes the frame and changes nothing
  shared, and the turns that execute that frame's program to its end, each step on the state the
  others have left; and then it stands idle before what follows the frames.\<close>

theorem every_frame_treated:
  assumes "fair_to c sched" and "list_all frame_ok ds"
    and "threads y c = Serving u k p (concat (map frame_bytes ds) @ rest)"
  shows "\<exists>i n. executes e sched y c 0 p i \<and> treats e sched y c u k i ds n \<and>
    threads (t_trace e sched y n) c = Serving u k Done rest"
proof -
  have "threads (t_trace e sched y 0) c = Serving u k p (concat (map frame_bytes ds) @ rest)"
    by (simp add: assms(3))
  from serving_executes [OF assms(1) this] serving_treats [OF assms(1,2)] show ?thesis by blast
qed

theorem every_frame_treated_witness:
  "\<exists>y i n. executes toy_env (\<lambda>i. Run (i mod 2)) y 1 0 Done i \<and>
    treats toy_env (\<lambda>i. Run (i mod 2)) y 1 alice (key_of 1) i [[1, 2], [3]] n \<and>
    threads (t_trace toy_env (\<lambda>i. Run (i mod 2)) y n) 1 = Serving alice (key_of 1) Done [7]"
proof -
  let ?y = "\<lparr>mem = toy_server,
    threads = (\<lambda>c. Serving alice (key_of 1) Done (concat (map frame_bytes [[1, 2], [3]]) @ [7]))\<rparr>"
  have "list_all frame_ok [[1, 2], [3]]" by (simp add: frame_ok_def size_limits)
  from every_frame_treated [OF alternating_fair this, of ?y alice "key_of 1" Done "[7]" toy_env]
  show ?thesis by auto
qed

end
