(* ===== verification/Eventually.thy ===== *)
theory Eventually
  imports Concurrent
begin

text \<open>
  A message that was sent arrives: the path of theory Spec2Isabelle for direct messages, now
  with the sender's handler as a thread among others, under every schedule that runs it again
  and again. What the thread looked up may be stale when it sends; that the recipient stays on
  line is therefore a hypothesis about the run, and holds when its own thread is not run.
\<close>

section \<open>Along a run\<close>

lemma t_trace_inv: "t_inv e inputs y \<Longrightarrow> t_inv e inputs (t_trace e sched y i)"
  by (simp add: t_trace_exec t_inv_exec)

lemma t_next_log: "t_inv e inputs y \<Longrightarrow> prefix (sent (mem y)) (sent (mem (t_next e ch y)))"
  using t_next_writes by (cases ch) (auto simp: emits_deliveries t_next_def)

lemma t_trace_log:
  assumes "t_inv e inputs y" and "i \<le> j"
  shows "prefix (sent (mem (t_trace e sched y i))) (sent (mem (t_trace e sched y j)))"
  using assms(2)
proof (induction rule: dec_induct)
  case (step n)
  then show ?case using t_next_log [OF t_trace_inv [OF assms(1)]] by (auto intro: prefix_order.trans)
qed simp

text \<open>A user whose thread is not scheduled stays on line.\<close>

lemma stays_available:
  assumes "t_inv e inputs y" and "threads y c = Serving v k p inp" and "\<not> broken (mem y) c"
    and "\<And>i. \<exists>c'. sched i = Run c' \<and> c' \<noteq> c"
  shows "dict_get (clients (mem (t_trace e sched y i))) v = Some (c, k) \<and>
    \<not> broken (mem (t_trace e sched y i)) c"
proof -
  have "threads (t_trace e sched y i) c = Serving v k p inp \<and> \<not> broken (mem (t_trace e sched y i)) c"
  proof (induction i)
    case (Suc i)
    obtain c' where c': "sched i = Run c'" "c' \<noteq> c" using assms(4) by blast
    then show ?case
      using Suc t_next_other [of "sched i" c e] t_next_broken [OF t_trace_inv [OF assms(1)]] by simp
  qed (simp add: assms)
  then show ?thesis using t_invD(3) [OF t_trace_inv [OF assms(1)]] by blast
qed

section \<open>The message is written\<close>

definition available :: "pystr \<Rightarrow> conn \<times> bytes \<Rightarrow> server \<Rightarrow> bool" where
  "available v t s \<longleftrightarrow> dict_get (clients s) v = Some t \<and> live_target s t"

lemma forward_written:
  assumes "fair_to c sched" and "env_ok e" and "fits e (JObj q)"
    and "\<And>i. available v t (mem (t_trace e sched y i))"
    and "threads (t_trace e sched y i) c = Serving u k (forward_prog e v (JObj q)) inp"
  obtains j d where "sent (mem (t_trace e sched y (Suc j))) = sent (mem (t_trace e sched y j)) @ [d]"
    and "target_of d = t" and "d_payload d = JObj q"
proof -
  obtain c' k' where t: "t = (c', k')" by force
  obtain j where j: "t_trace e sched y (Suc j) = set_thread (t_trace e sched y j) c
      (thread_step e c (threads (t_trace e sched y i) c) (mem (t_trace e sched y j)))"
    using own_turn [OF assms(1)] by blast
  have "threads (t_trace e sched y (Suc j)) c = Serving u k (send_prog e c' k' (JObj q) Done) inp"
    unfolding j assms(5) using assms(4) [of j]
    by (simp add: thread_step_def forward_prog_def available_def t)
  moreover obtain l where "t_trace e sched y (Suc l) = set_thread (t_trace e sched y l) c
      (thread_step e c (threads (t_trace e sched y (Suc j)) c) (mem (t_trace e sched y l)))"
    using own_turn [OF assms(1)] by blast
  moreover have "always_ok (send_payload e) (JObj q) (mem (t_trace e sched y l)) (c', k')"
    using assms(2,3,4) by (intro live_always_ok) (simp_all add: available_def t)
  then obtain w s1 where "send_payload e c' k' (JObj q) (mem (t_trace e sched y l)) = (Inr w, s1)"
    "delivered (JObj q) [(c', k')] (mem (t_trace e sched y l)) s1"
    by (auto elim: tr.always_okD)
  moreover from this(2) obtain d where "sent s1 = sent (mem (t_trace e sched y l)) @ [d]"
    "target_of d = t" "d_payload d = JObj q"
    by (auto simp: delivered_def t)
  ultimately show ?thesis
    using that [of l d] by (simp add: thread_step_def send_prog_def)
qed

lemma frame_prog_message:
  assumes "frame_payload e k b = Some p" and "jget p (lit ''type'') = JStr (lit ''message'')"
    and "accepts_message e (own_payload u p) v"
  shows "frame_prog e u c k b =
    Step (\<lambda>s. (forward_prog e v (JObj (message_payload e (own_payload u p) s)), tick s))"
proof -
  have "rbind (decrypt_message (e_crypto e) b k) (loads (e_float e)) = Inr (JObj p)"
    using assms(1) by (auto simp: frame_payload_def split: sum.splits json.splits)
  then have "frame_prog e u c k b = payload_prog e u c k p" by (simp add: frame_prog_def)
  also have "\<dots> = message_prog e u c k (own_payload u p)"
    using assms(2) by (simp add: payload_prog_def own_payload_def)
  also have "\<dots> = Step (\<lambda>s. (forward_prog e v (JObj (message_payload e (own_payload u p) s)), tick s))"
    using assms(3) by (simp add: message_prog_def accepts_message_def str_of_def)
  finally show ?thesis .
qed

lemma message_written:
  assumes "t_inv e inputs y" and "fair_to c sched" and "env_ok e" and "name_match 32 u"
    and "\<And>i. available v t (mem (t_trace e sched y i))"
    and "threads y c = Serving u k p' (concat (map frame_bytes ds) @ frame_bytes b @ rest)"
    and "list_all frame_ok (ds @ [b])"
    and "frame_payload e k b = Some p" and "jget p (lit ''type'') = JStr (lit ''message'')"
    and "accepts_message e p v" and "length (dumps (JObj p)) + 400 \<le> MAX_FRAME_SIZE"
  obtains n d s where "d \<in> set (deliveries (mem y) (mem (t_trace e sched y n)))" and "target_of d = t"
    and "d_payload d = JObj (message_payload e (own_payload u p) s)" and "readable e d"
proof -
  let ?tr = "t_trace e sched y" and ?p = "own_payload u p"
  have acc: "accepts_message e ?p v" using assms(10) by (simp add: accepts_message_def)
  have size: "length (dumps (JObj (message_payload e ?p s))) + 28 \<le> MAX_FRAME_SIZE" for s
    using message_payload_size [OF assms(3), of ?p s] own_size [OF assms(4), of p] assms(11) by simp
  have ok: "payload_ok e (JObj (message_payload e ?p s))" for s
    using forwarded_payload_ok(1) [OF assms(3) frame_payload_ok [OF assms(8,3,4)]]
    by (simp add: own_payload_def)
  have fits: "fits e (JObj (message_payload e ?p s))" for s
    using size [of s] ok [of s] by (simp add: fits_def size_limits)
  have "gets_to e sched y c (Serving u k p' (concat (map frame_bytes ds) @ frame_bytes b @ rest))"
    unfolding gets_to_def by (rule exI [of _ 0]) (simp add: assms(6))
  from gets_frames [OF assms(2) _ this]
  obtain i where i: "threads (?tr i) c = Serving u k Done (frame_bytes b @ rest)"
    using assms(7) by (auto simp: gets_to_def)
  obtain j where j: "?tr (Suc j) = set_thread (?tr j) c (thread_step e c (threads (?tr i) c) (mem (?tr j)))"
    using own_turn [OF assms(2)] by blast
  have "read_frame (frame_bytes b @ rest) = (Inr (Some b), rest)"
    using assms(7) by (simp add: read_frame_frame [OF frame_bytes_frame])
  then have j': "threads (?tr (Suc j)) c = Serving u k (frame_prog e u c k b) rest"
    unfolding j i by (simp add: thread_step_frame)
  obtain l where l: "?tr (Suc l) = set_thread (?tr l) c (thread_step e c (threads (?tr (Suc j)) c) (mem (?tr l)))"
    using own_turn [OF assms(2)] by blast
  have "threads (?tr (Suc l)) c =
      Serving u k (forward_prog e v (JObj (message_payload e ?p (mem (?tr l))))) rest"
    unfolding l j' frame_prog_message [OF assms(8,9) acc] by (simp add: thread_step_def)
  from forward_written [OF assms(2,3) fits assms(5) this]
  obtain n d where d: "sent (mem (?tr (Suc n))) = sent (mem (?tr n)) @ [d]" "target_of d = t"
    "d_payload d = JObj (message_payload e ?p (mem (?tr l)))" by metis
  have "prefix (sent (mem y)) (sent (mem (?tr n)))"
    using t_trace_log [OF assms(1), of 0 n] by simp
  then have new: "d \<in> set (deliveries (mem y) (mem (?tr (Suc n))))"
    by (auto simp: d(1) deliveries_def prefix_def simp del: t_trace.simps)
  have "log_good e (owns e inputs) d"
    using t_invD(5) [OF t_trace_inv [OF assms(1), of sched "Suc n"]] unfolding d(1) by simp
  then have "readable e d"
    using sealed_readable [OF _ assms(3)] size ok d(3) by (auto simp: log_good_def)
  then show ?thesis using that new d(2,3) by blast
qed

section \<open>From client to client, under every schedule\<close>

text \<open>C4
  A message arrives, whatever is scheduled. Let a client send a text that passes its own size
  check, and let its bytes lie anywhere in what the sender's connection still delivers, behind
  any frames of it, while its handler is in the midst of anything. If the handler is scheduled
  again and again, then, however the other handlers run between its steps and whichever other
  connections break, a delivery is written to the connection of the addressee, if that stays on
  line and unbroken; and the addressee's client, given its bytes, hands its owner exactly that
  text, under the name the sender is registered with. Each \<open>sendall\<close> is one step here, as in
  Threads; Writes shows what becomes of frames whose pieces interleave.\<close>

theorem message_arrives:
  fixes cbs :: "'a callbacks" and cbr :: "'b callbacks" and xs ys :: "'a client" and xr :: "'b client"
  assumes "env_ok e" and "cenv_ok ks" and "same_prims ks e" and "same_prims kr e"
    and "link xs = Link True out" and "aes_key_ok (aes_key xs)" and "str_wf (username xs)"
    and "name_match 32 v" and "list_all scalar_value m"
    and "check_message_size (dumps (JObj (text_request ''message'' ''user'' (username xs) v m
      (c_stamp ks xs)))) = Inr True"
    and "send_message ks cbs v m xs = (r, ys)" and "link ys = Link True (out @ bs)"
    and "y = t_exec e past (t_init inputs)"
    and "threads y c = Serving u (aes_key xs) p (concat (map frame_bytes ds) @ bs @ rest)"
    and "list_all frame_ok ds" and "fair_to c sched"
    and "\<And>i. available v t (mem (t_trace e sched y i))" and "aes_key xr = snd t"
  shows "\<exists>n d. d \<in> set (deliveries (mem y) (mem (t_trace e sched y n))) \<and> target_of d = t \<and>
    receive_loop kr cbr (d_bytes d) xr = snd (notify cbr (JStr u) (JStr m) (Some (JStr u)) xr)"
proof -
  let ?p = "text_request ''message'' ''user'' (username xs) v m (c_stamp ks xs)"
  have wf: "json_wf (k_float ks) (JObj ?p)"
    using assms(7,8,9) c_stamp_ok(1) [OF assms(2)]
    by (intro text_request_wf) (simp_all add: str_wf_name scalar_str_wf)
  note size = text_request_size [OF assms(9) wf assms(10)]
  obtain enc z where w: "send_text ks cbs (dumps (JObj ?p)) (c_tick xs) = (Inr True, z)"
    "wrote ks (JObj ?p) enc (c_tick xs) z"
    using send_text_writes [OF assms(2) _ _ wf assms(10), of "c_tick xs" out cbs] assms(5,6)
    by (auto simp: c_tick_def)
  note w2 = wrote_tick [OF w(2)]
  have "ys = z" using w(1) assms(8,11) by (simp add: send_message_def)
  then have bs: "bs = frame_bytes enc" using w2 assms(5,12) by (auto simp: wrote_def)
  have inv: "t_inv e inputs y" unfolding assms(13) by (rule t_reach)
  have u: "name_match 32 u"
    using knownD(2) [OF t_invD(1) [OF inv]] t_invD(3) [OF inv] assms(14) by blast
  have pl: "frame_payload e (aes_key xs) enc = Some ?p" "frame_ok enc"
    using w2 assms(3) by (auto simp: wrote_def same_prims_def frame_payload_def)
  have acc: "accepts_message e ?p v"
    using size(2) assms(8) by (simp add: accepts_message_def text_request_fields)
  have "length (dumps (JObj ?p)) + 400 \<le> MAX_FRAME_SIZE" using size(1) by (simp add: size_limits)
  moreover have "list_all frame_ok (ds @ [enc])" using assms(15) pl(2) by simp
  ultimately obtain n d s where d: "d \<in> set (deliveries (mem y) (mem (t_trace e sched y n)))" "target_of d = t"
    "d_payload d = JObj (message_payload e (own_payload u ?p) s)" "readable e d"
    using message_written [OF inv assms(16,1) u assms(17) assms(14) [unfolded bs] _ pl(1)
      text_request_fields(1) acc] by metis
  have "aes_key xr = d_key d" using d(2) assms(18) by (auto simp: target_of_def)
  from receive_one [OF d(4,3) this assms(4), of cbr]
  have "receive_loop kr cbr (d_bytes d) xr = snd (notify cbr (JStr u) (JStr m) (Some (JStr u)) xr)"
    by (simp add: dispatch_message text_request_fields)
  then show ?thesis using d(1,2) by blast
qed

text \<open>
  Two clients of the same name table: alice's connection carries her key, her name and one frame,
  bob's his key and name; from then on only alice's handler runs.
\<close>

lemma toy_logins:
  fixes b :: bytes
  defines "inputs \<equiv> (\<lambda>c :: nat. if c = 1 then [toy_wrapped, map of_nat alice, b] else [toy_wrapped, map of_nat bob])"
  defines "y \<equiv> t_exec toy_env [Run 1, Run 2] (t_init inputs)"
  shows "threads y 1 = Serving alice (key_of 5) (announce_prog toy_env 1 (key_of 5) Done) b"
    and "threads y 2 = Serving bob (key_of 5) (announce_prog toy_env 2 (key_of 5) Done) []"
    and "broken (mem y) = (\<lambda>_. False)"
proof -
  have w: "live [toy_wrapped]" "length (concat [toy_wrapped]) = 256"
    "rsa_unwrap (e_crypto toy_env) (e_private toy_env) (concat [toy_wrapped]) = Some (key_of 5)"
    using toy_wrapped_key by (auto simp: live_def toy_wrapped_def)
  have h: "handshake toy_env c (toy_wrapped # map of_nat u # segs) s =
      (Joined u (key_of 5) (concat segs), s\<lparr>clients := dict_set (clients s) u (c, key_of 5)\<rparr>)"
    if "name_match 32 u" "dict_get (clients s) u = None" for u c s segs
    using handshake_joins [OF w that, of c segs] by simp
  have "threads y 1 = Serving alice (key_of 5) (announce_prog toy_env 1 (key_of 5) Done) b \<and>
      threads y 2 = Serving bob (key_of 5) (announce_prog toy_env 2 (key_of 5) Done) [] \<and>
      broken (mem y) = (\<lambda>_. False)"
    using toy_names(1,2) toy_distinct(1)
    by (simp add: y_def inputs_def t_init_def t_next_Run thread_step_def set_thread_def init_server_def h
        dict_get_def)
  then show "threads y 1 = Serving alice (key_of 5) (announce_prog toy_env 1 (key_of 5) Done) b"
    and "threads y 2 = Serving bob (key_of 5) (announce_prog toy_env 2 (key_of 5) Done) []"
    and "broken (mem y) = (\<lambda>_. False)" by blast+
qed

theorem message_arrives_witness:
  "\<exists>ys b y n d. send_message toy_cenv log_callbacks bob (lit ''hi'') (toy_client alice 5) = (Inr True, ys) \<and>
    link ys = Link True ([] @ b) \<and> threads y 1 = Serving alice (key_of 5) (announce_prog toy_env 1 (key_of 5) Done) b \<and>
    d \<in> set (deliveries (mem y) (mem (t_trace toy_env (\<lambda>i. Run 1) y n))) \<and> target_of d = (2, key_of 5) \<and>
    receive_loop toy_cenv log_callbacks (d_bytes d) (toy_client bob 5) =
      snd (notify log_callbacks (JStr alice) (JStr (lit ''hi'')) (Some (JStr alice)) (toy_client bob 5))"
proof -
  let ?p = "text_request ''message'' ''user'' (username (toy_client alice 5)) bob (lit ''hi'')
    (c_stamp toy_cenv (toy_client alice 5))"
  have size: "check_message_size (dumps (JObj ?p)) = Inr True"
    by (simp add: text_request_def c_stamp_def toy_cenv_def toy_client_def alice_def bob_def py_eval
        dumps_str_def esc_char_def check_message_size_def utf8_encode_ascii size_limits)
  obtain ys b where send: "send_message toy_cenv log_callbacks bob (lit ''hi'') (toy_client alice 5) = (Inr True, ys)"
    "link ys = Link True ([] @ b)"
  proof -
    have "json_wf (k_float toy_cenv) (JObj ?p)"
      using c_stamp_ok(1) [OF toy_cenv_ok(1)] str_wf_name [OF toy_names(1)] str_wf_name [OF toy_names(2)]
      by (intro text_request_wf) (simp_all add: py_eval scalar_value_def is_surrogate_def scalar_str_wf)
    from send_text_writes [OF toy_cenv_ok(1) _ _ this size, of "c_tick (toy_client alice 5)" "[]" log_callbacks]
    obtain enc z where "send_text toy_cenv log_callbacks (dumps (JObj ?p)) (c_tick (toy_client alice 5)) = (Inr True, z)"
      "wrote toy_cenv (JObj ?p) enc (c_tick (toy_client alice 5)) z"
      by (auto simp: c_tick_def)
    with wrote_tick [OF this(2)] show ?thesis
      using that toy_names(2) by (auto simp: send_message_def wrote_def)
  qed
  define inputs where "inputs = (\<lambda>c :: nat. if c = 1 then [toy_wrapped, map of_nat alice, b]
    else [toy_wrapped, map of_nat bob])"
  define y where "y = t_exec toy_env [Run 1, Run 2] (t_init inputs)"
  note log = toy_logins [of b, folded inputs_def, folded y_def]
  have "available bob (2, key_of 5) (mem (t_trace toy_env (\<lambda>i. Run 1) y i))" for i
    using stays_available [OF t_reach [of toy_env inputs "[Run 1, Run 2]", folded y_def] log(2), of "\<lambda>i. Run 1" i]
      log(3) by (auto simp: available_def live_target_def)
  then have "\<exists>n d. d \<in> set (deliveries (mem y) (mem (t_trace toy_env (\<lambda>i. Run 1) y n))) \<and>
      target_of d = (2, key_of 5) \<and> receive_loop toy_cenv log_callbacks (d_bytes d) (toy_client bob 5) =
        snd (notify log_callbacks (JStr alice) (JStr (lit ''hi'')) (Some (JStr alice)) (toy_client bob 5))"
    using log(1) send size y_def toy_names(2)
    by (intro message_arrives [where ds = "[]" and rest = "[]" and ks = toy_cenv and cbs = log_callbacks
          and xs = "toy_client alice 5" and v = bob and ys = ys and out = "[]" and bs = b and inputs = inputs
          and past = "[Run 1, Run 2]" and p = "announce_prog toy_env 1 (key_of 5) Done" and r = "Inr True"])
      (simp_all add: toy_env_ok toy_cenv_ok str_wf_name [OF toy_names(1)] py_eval scalar_value_def
        is_surrogate_def fair_to_def, blast)
  then show ?thesis using send log(1) by blast
qed

end
