(* ===== verification/Race.thy ===== *)
theory Race
  imports Concurrent
begin

text \<open>
  A race between two broadcasts of the list of users: the names and targets are read under the
  lock, the frames are sent after it. What the loser leaves behind stays until somebody logs in
  or out, because no request of a user ever makes the server send a list; that is shown first,
  for the programs of all requests.
\<close>

section \<open>Requests send no list of users\<close>

definition no_list :: "json \<Rightarrow> bool" where
  "no_list v \<longleftrightarrow> kind_of v \<noteq> JStr (lit ''user_list'')"

text \<open>A program none of whose steps changes the clients or sends a list.\<close>

definition silent_step :: "server \<Rightarrow> server \<Rightarrow> bool" where
  "silent_step s s' \<longleftrightarrow>
     clients s' = clients s \<and> broken s' = broken s \<and> emits (\<lambda>d. no_list (d_payload d)) s s'"

inductive silent :: "prog \<Rightarrow> bool" where
  silent_done: "silent Done"
| silent_Step: "(\<And>s. silent_step s (snd (f s)) \<and> silent (fst (f s))) \<Longrightarrow> silent (Step f)"

inductive_simps silent_StepD: "silent (Step f)"

lemma silent_same [simp]: "silent_step s s" "silent_step s (tick s)" "silent_step s (s\<lparr>groups := g\<rparr>)"
  by (simp_all add: silent_step_def emits_refl tick_def)

lemma send_silent: "no_list (wrap_payload p) \<Longrightarrow> silent_step s (snd (send_payload e c k p s))"
proof -
  assume n: "no_list (wrap_payload p)"
  obtain r s' where r: "send_payload e c k p s = (r, s')" by force
  have "\<exists>ts. delivered (wrap_payload p) ts s s'"
    using r tr.send_done tr.send_failed by (cases r) blast+
  then show ?thesis
    using n r by (auto simp: silent_step_def delivered_def same_tables_def emits_def list_all_iff)
qed

lemma silent_send: "no_list (wrap_payload p) \<Longrightarrow> silent q \<Longrightarrow> silent (send_prog e c k p q)"
  unfolding send_prog_def
proof (rule silent_Step)
  fix s
  assume a: "no_list (wrap_payload p)" "silent q"
  obtain r s' where r: "send_payload e c k p s = (r, s')" by force
  then show "silent_step s (snd (case send_payload e c k p s of (Inl x, s') \<Rightarrow> (Done, s') | (Inr u, s') \<Rightarrow> (q, s'))) \<and>
      silent (fst (case send_payload e c k p s of (Inl x, s') \<Rightarrow> (Done, s') | (Inr u, s') \<Rightarrow> (q, s')))"
    using send_silent [OF a(1), of s e c k] a(2) by (cases r) (simp_all add: silent_done)
qed

lemma error_no_list: "no_list (wrap_payload (error_payload m))"
  by (simp add: no_list_def kind_of_def error_payload_def wrap_payload_def jget_def dict_get_Cons py_eval)

lemma silent_error: "silent (error_prog e c k m)"
  unfolding error_prog_def by (rule silent_send [OF error_no_list silent_done])

lemma silent_members: "no_list (wrap_payload p) \<Longrightarrow> silent q \<Longrightarrow> silent (members_prog e u p ms q)"
  by (induction ms) (auto intro!: silent_Step silent_send split: option.splits)

lemma silent_forward: "no_list (wrap_payload p) \<Longrightarrow> silent (forward_prog e v p)"
  unfolding forward_prog_def by (auto intro!: silent_Step silent_send silent_done split: option.splits)

lemma request_no_list:
  "no_list (wrap_payload (invite_payload g ms))" "no_list (wrap_payload (created_payload g))"
  "jget p (lit ''type'') \<noteq> JStr (lit ''user_list'') \<Longrightarrow> no_list (wrap_payload (JObj (group_message_payload e g p s)))"
  "jget p (lit ''type'') \<noteq> JStr (lit ''user_list'') \<Longrightarrow> no_list (wrap_payload (JObj (message_payload e p s)))"
  "jget p (lit ''type'') \<noteq> JStr (lit ''user_list'') \<Longrightarrow> no_list (wrap_payload (JObj (file_payload e p s)))"
  by (simp_all add: no_list_def kind_of_def wrap_payload_def invite_payload_def created_payload_def
      group_message_payload_def message_payload_def file_payload_def jget_def dict_get_Cons py_eval)

lemma silent_create_group: "silent (create_group_prog e u c k p)"
  unfolding create_group_prog_def Let_def
  by (auto intro!: silent_Step silent_error silent_members silent_send silent_done request_no_list
      split: sum.splits bool.splits)

lemma silent_group_message:
  "jget p (lit ''type'') \<noteq> JStr (lit ''user_list'') \<Longrightarrow> silent (group_message_prog e u c k p)"
  unfolding group_message_prog_def Let_def
  by (auto intro!: silent_Step silent_error silent_members silent_done request_no_list
      split: sum.splits bool.splits)

lemma silent_message:
  "jget p (lit ''type'') \<noteq> JStr (lit ''user_list'') \<Longrightarrow> silent (message_prog e u c k p)"
  unfolding message_prog_def Let_def
  by (auto intro!: silent_Step silent_error silent_forward silent_done request_no_list
      split: sum.splits bool.splits)

lemma silent_file:
  "jget p (lit ''type'') \<noteq> JStr (lit ''user_list'') \<Longrightarrow> silent (file_prog e u c k p)"
  unfolding file_prog_def Let_def
  by (auto intro!: silent_Step silent_error silent_members silent_forward silent_done request_no_list
      split: sum.splits bool.splits)

lemma silent_frame: "silent (frame_prog e u c k d)"
  unfolding frame_prog_def payload_prog_def Let_def
  by (auto intro!: silent_create_group silent_group_message silent_message silent_file silent_done
      simp: py_eval split: sum.splits json.splits)

section \<open>While nobody comes or goes\<close>

definition serving :: "tsystem \<Rightarrow> conn \<Rightarrow> bool" where
  "serving y c \<longleftrightarrow> (case threads y c of Serving u k p inp \<Rightarrow> True | _ \<Rightarrow> False)"

definition silent_thread :: "pystr \<Rightarrow> bytes \<Rightarrow> thread \<Rightarrow> bool" where
  "silent_thread u k t \<longleftrightarrow> (\<exists>p inp. t = Serving u k p inp \<and> silent p)"

lemma leaving_next: "threads y c = Leaving p \<Longrightarrow> \<exists>p'. threads (t_next e ch y) c = Leaving p'"
  by (cases "ch = Run c") (auto simp: t_next_Run t_next_other thread_step_def split: prog.splits)

lemma leaving_exec: "threads y c = Leaving p \<Longrightarrow> \<not> serving (t_exec e further y) c"
proof (induction further arbitrary: y p)
  case (Cons ch further)
  then show ?case using leaving_next [of y c p e ch] by auto
qed (simp add: serving_def)

lemma silent_thread_step:
  assumes "silent_thread u k (threads y c)"
  shows "(\<exists>p. threads (t_next e (Run c) y) c = Leaving p) \<or>
    silent_thread u k (threads (t_next e (Run c) y) c) \<and> silent_step (mem y) (mem (t_next e (Run c) y))"
proof -
  obtain p inp where p: "threads y c = Serving u k p inp" "silent p"
    using assms by (auto simp: silent_thread_def)
  show ?thesis
  proof (cases p)
    case Done
    obtain o' r where "read_frame inp = (o', r)" by force
    then show ?thesis
      using p(1) Done silent_frame
      by (cases o') (auto simp: t_next_Run thread_step_def silent_thread_def split: option.splits)
  next
    case (Step f)
    then show ?thesis
      using p by (simp add: t_next_Run thread_step_def silent_thread_def silent_StepD)
  qed
qed

lemma silent_step_trans: "silent_step s s1 \<Longrightarrow> silent_step s1 s2 \<Longrightarrow> silent_step s s2"
  by (auto simp: silent_step_def intro: emits_trans)

lemma silent_pair:
  assumes "c1 \<noteq> c2"
  shows "set further \<subseteq> {Run c1, Run c2} \<Longrightarrow> silent_thread u k1 (threads y c1) \<Longrightarrow>
    silent_thread v k2 (threads y c2) \<Longrightarrow> serving (t_exec e further y) c1 \<Longrightarrow>
    serving (t_exec e further y) c2 \<Longrightarrow> silent_step (mem y) (mem (t_exec e further y))"
proof (induction further arbitrary: y)
  case (Cons ch further)
  let ?z = "t_next e ch y"
  have stay: "\<nexists>p. threads ?z c = Leaving p" if "c = c1 \<or> c = c2" for c
    using Cons.prems(4,5) leaving_exec [of ?z c _ e further] that by auto
  consider "ch = Run c1" | "ch = Run c2" using Cons.prems(1) by auto
  then have "silent_step (mem y) (mem ?z) \<and> silent_thread u k1 (threads ?z c1) \<and> silent_thread v k2 (threads ?z c2)"
  proof cases
    case 1
    then show ?thesis
      using silent_thread_step [OF Cons.prems(2), of e] stay [of c1] Cons.prems(3) assms
      by (simp add: t_next_other)
  next
    case 2
    then show ?thesis
      using silent_thread_step [OF Cons.prems(3), of e] stay [of c2] Cons.prems(2) assms
      by (simp add: t_next_other)
  qed
  then show ?case
    using Cons.IH [of ?z] Cons.prems silent_step_trans by auto
qed simp

text \<open>The lists of users sent to a connection.\<close>

definition lists_sent :: "conn \<Rightarrow> server \<Rightarrow> json list" where
  "lists_sent c s = filter (\<lambda>v. \<not> no_list v) (map d_payload (filter (\<lambda>d. d_conn d = c) (sent s)))"

lemma silent_lists: "silent_step s s' \<Longrightarrow> lists_sent c s' = lists_sent c s"
  by (auto simp: silent_step_def emits_def lists_sent_def list_all_iff filter_empty_conv)

lemma list_is_list: "\<not> no_list (user_list_payload us)"
  by (simp add: no_list_def kind_of_def user_list_payload_def jget_def dict_get_Cons)

section \<open>A race\<close>

text \<open>A send that succeeds.\<close>

lemma live_send:
  assumes "env_ok e" and "fits e (user_list_payload us)" and "live_target s (c, k)"
  shows "\<exists>f. send_payload e c k (user_list_payload us) s =
    (Inr (), s\<lparr>draws := Suc (draws s), sent := sent s @
      [\<lparr>d_conn = c, d_key = k, d_payload = user_list_payload us, d_bytes = f\<rparr>]\<rparr>)"
proof -
  have "always_ok (send_payload e) (user_list_payload us) s (c, k)"
    using assms by (intro live_always_ok) simp_all
  then obtain v s1 where "send_payload e c k (user_list_payload us) s = (Inr v, s1)"
    by (rule tr.always_okD)
  then show ?thesis
    by (auto simp: send_payload_result split: sum.splits if_splits)
qed

lemma names_fit:
  assumes "list_all (name_match 32) us" and "length us \<le> 2"
  shows "fits e (user_list_payload us)"
proof -
  have n: "length (dumps_str u) \<le> 34" if "name_match 32 u" for u
    using that length_dumps_name [OF that] by (simp add: name_match_def)
  consider "us = []" | u where "us = [u]" "name_match 32 u"
    | u v where "us = [u, v]" "name_match 32 u" "name_match 32 v"
    using assms by (cases us; cases "tl us") auto
  then have "length (dumps (user_list_payload us)) \<le> 200"
  proof cases
    case 1
    then show ?thesis by (simp add: user_list_payload_def dumps_str_def esc_char_def py_eval)
  next
    case (2 u)
    then show ?thesis
      using n [of u] by (simp add: user_list_payload_def dumps_str_def esc_char_def py_eval)
  next
    case (3 u v)
    then show ?thesis
      using n [of u] n [of v] by (simp add: user_list_payload_def dumps_str_def esc_char_def py_eval)
  qed
  then show ?thesis using assms(1) by (simp add: fits_def user_list_payload_ok)
qed

text \<open>The steps of a thread that announces its user.\<close>

lemma step_send:
  assumes "threads y c = Serving u k (try_send_prog e c' k' (user_list_payload us) q) inp"
    and "env_ok e" and "list_all (name_match 32) us" and "length us \<le> 2" and "live_target (mem y) (c', k')"
  shows "threads (t_next e (Run c) y) c = Serving u k q inp"
    and "clients (mem (t_next e (Run c) y)) = clients (mem y)"
    and "broken (mem (t_next e (Run c) y)) = broken (mem y)"
    and "lists_sent c'' (mem (t_next e (Run c) y)) =
      lists_sent c'' (mem y) @ (if c'' = c' then [user_list_payload us] else [])"
  using live_send [OF assms(2) names_fit [OF assms(3,4)] assms(5)] assms(1)
  by (auto simp: t_next_Run thread_step_def try_send_prog_def lists_sent_def list_is_list)

lemma step_look:
  assumes "threads y c = Serving u k (announce_prog e c k q) inp"
  shows "threads (t_next e (Run c) y) c = Serving u k (try_send_prog e c k
      (user_list_payload (dict_keys (clients (mem y)))) (broadcast_prog e q)) inp"
    and "mem (t_next e (Run c) y) = mem y"
  using assms by (simp_all add: t_next_Run thread_step_def announce_prog_def)

lemma step_snapshot:
  assumes "threads y c = Serving u k (broadcast_prog e q) inp"
  shows "threads (t_next e (Run c) y) c = Serving u k (each_prog e
      (user_list_payload (dict_keys (clients (mem y)))) (map snd (clients (mem y))) q) inp"
    and "mem (t_next e (Run c) y) = mem y"
  using assms by (simp_all add: t_next_Run thread_step_def broadcast_prog_def)

lemma step_join:
  assumes "threads y c = Connecting (w # map of_nat u # segs)" and "length w = 256"
    and "rsa_unwrap (e_crypto e) (e_private e) w = Some k" and "name_match 32 u"
    and "dict_get (clients (mem y)) u = None"
  shows "threads (t_next e (Run c) y) c = Serving u k (announce_prog e c k Done) (concat segs)"
    and "mem (t_next e (Run c) y) = (mem y)\<lparr>clients := dict_set (clients (mem y)) u (c, k)\<rparr>"
proof -
  have "live [w]" "length (concat [w]) = 256"
    "rsa_unwrap (e_crypto e) (e_private e) (concat [w]) = Some k"
    using assms(2,3) by (auto simp: live_def)
  from handshake_joins [OF this assms(4,5), of c segs]
  show "threads (t_next e (Run c) y) c = Serving u k (announce_prog e c k Done) (concat segs)"
    and "mem (t_next e (Run c) y) = (mem y)\<lparr>clients := dict_set (clients (mem y)) u (c, k)\<rparr>"
    using assms(1) by (simp_all add: t_next_Run thread_step_def)
qed

lemma names_after:
  "dict_get cl u = None \<Longrightarrow> dict_set cl u t = cl @ [(u, t)]"
  by (induction cl) (auto simp: dict_get_Cons split: if_splits)

text \<open>
  A login up to the moment its broadcast has read names and targets: handshake, look, own list,
  snapshot.
\<close>

lemma login_to_snapshot:
  fixes e c y
  defines "y' \<equiv> t_exec e (replicate 4 (Run c)) y"
  assumes "threads y c = Connecting (w # map of_nat u # segs)" and "length w = 256"
    and "rsa_unwrap (e_crypto e) (e_private e) w = Some k" and "aes_key_ok k" and "env_ok e"
    and "dict_get (clients (mem y)) u = None" and "list_all (name_match 32) (u # dict_keys (clients (mem y)))"
    and "length (clients (mem y)) \<le> 1" and "\<not> broken (mem y) c"
  shows "threads y' c = Serving u k (each_prog e (user_list_payload (dict_keys (clients (mem y)) @ [u]))
      (map snd (clients (mem y)) @ [(c, k)]) Done) (concat segs)"
    and "clients (mem y') = clients (mem y) @ [(u, (c, k))]" and "broken (mem y') = broken (mem y)"
    and "c' \<noteq> c \<Longrightarrow> threads y' c' = threads y c'"
    and "lists_sent c'' (mem y') = lists_sent c'' (mem y) @
      (if c'' = c then [user_list_payload (dict_keys (clients (mem y)) @ [u])] else [])"
proof -
  let ?us = "dict_keys (clients (mem y)) @ [u]" and ?cl = "clients (mem y) @ [(u, (c, k))]"
  define y1 where "y1 = t_next e (Run c) y"
  define y2 where "y2 = t_next e (Run c) y1"
  define y3 where "y3 = t_next e (Run c) y2"
  have names: "list_all (name_match 32) ?us" "length ?us \<le> 2"
    using assms(8,9) by (simp_all add: dict_keys_def)
  have s1: "threads y1 c = Serving u k (announce_prog e c k Done) (concat segs)"
    "clients (mem y1) = ?cl" "broken (mem y1) = broken (mem y)"
    "lists_sent c'' (mem y1) = lists_sent c'' (mem y)" for c''
    using step_join [OF assms(2-4) _ assms(7)] assms(8) names_after [OF assms(7)]
    by (simp_all add: y1_def lists_sent_def)
  have s2: "threads y2 c = Serving u k (try_send_prog e c k (user_list_payload ?us) (broadcast_prog e Done)) (concat segs)"
    "clients (mem y2) = ?cl" "broken (mem y2) = broken (mem y)"
    "lists_sent c'' (mem y2) = lists_sent c'' (mem y)" for c''
    using step_look [OF s1(1)] s1 by (simp_all add: y2_def dict_keys_def)
  have "live_target (mem y2) (c, k)" using assms(5,10) s2(3) by (simp add: live_target_def)
  from step_send [OF s2(1) assms(6) names this]
  have s3: "threads y3 c = Serving u k (broadcast_prog e Done) (concat segs)"
    "clients (mem y3) = ?cl" "broken (mem y3) = broken (mem y)"
    "lists_sent c'' (mem y3) = lists_sent c'' (mem y) @ (if c'' = c then [user_list_payload ?us] else [])" for c''
    using s2 by (simp_all add: y3_def)
  have y': "y' = t_next e (Run c) y3"
    by (simp add: y'_def y1_def y2_def y3_def numeral_eq_Suc)
  show "threads y' c = Serving u k (each_prog e (user_list_payload ?us)
      (map snd (clients (mem y)) @ [(c, k)]) Done) (concat segs)"
    and "clients (mem y') = ?cl" and "broken (mem y') = broken (mem y)"
    using step_snapshot [OF s3(1)] s3 by (simp_all add: y' dict_keys_def)
  show "c' \<noteq> c \<Longrightarrow> threads y' c' = threads y c'"
    by (simp add: y'_def numeral_eq_Suc t_next_other)
  show "lists_sent c'' (mem y') = lists_sent c'' (mem y) @
      (if c'' = c then [user_list_payload ?us] else [])"
    using step_snapshot(2) [OF s3(1)] s3(4) by (simp add: y')
qed

text \<open>
  Both log in; the first has read its snapshot when the second one comes, and sends it last.
\<close>

definition overtaking :: "conn \<Rightarrow> conn \<Rightarrow> choice list" where
  "overtaking c1 c2 =
     replicate 4 (Run c1) @ replicate 4 (Run c2) @ [Run c2, Run c2, Run c1]"

lemma overtaken:
  fixes e u v c1 c2 k1 k2 inputs
  defines "y \<equiv> t_exec e (overtaking c1 c2) (t_init inputs)"
  assumes "env_ok e" and "length w1 = 256" and "length w2 = 256"
    and "rsa_unwrap (e_crypto e) (e_private e) w1 = Some k1" and "aes_key_ok k1"
    and "rsa_unwrap (e_crypto e) (e_private e) w2 = Some k2" and "aes_key_ok k2"
    and "name_match 32 u" and "name_match 32 v" and "u \<noteq> v" and "c1 \<noteq> c2"
    and "inputs c1 = w1 # map of_nat u # segs1" and "inputs c2 = w2 # map of_nat v # segs2"
  shows "threads y c1 = Serving u k1 Done (concat segs1)" and "threads y c2 = Serving v k2 Done (concat segs2)"
    and "clients (mem y) = [(u, (c1, k1)), (v, (c2, k2))]" and "broken (mem y) = (\<lambda>_. False)"
    and "lists_sent c1 (mem y) = map user_list_payload [[u], [u, v], [u]]"
    and "lists_sent c2 (mem y) = map user_list_payload [[u, v], [u, v]]"
proof -
  let ?y0 = "t_init inputs" and ?l1 = "[(u, (c1, k1))]" and ?l2 = "[(u, (c1, k1)), (v, (c2, k2))]"
  define y1 where "y1 = t_exec e (replicate 4 (Run c1)) ?y0"
  define y2 where "y2 = t_exec e (replicate 4 (Run c2)) y1"
  define y3 where "y3 = t_next e (Run c2) y2"
  define y4 where "y4 = t_next e (Run c2) y3"
  define y5 where "y5 = t_next e (Run c1) y4"
  have other: "threads (t_next e (Run c) y) c' = threads y c'" if "c' \<noteq> c" for c c' y
    using that by (simp add: t_next_other)
  have live: "live_target s (c1, k1)" "live_target s (c2, k2)" if "broken s = (\<lambda>_. False)" for s :: server
    using that assms(6,8) by (simp_all add: live_target_def)
  have init: "threads ?y0 c1 = Connecting (w1 # map of_nat u # segs1)"
    "threads ?y0 c2 = Connecting (w2 # map of_nat v # segs2)"
    "clients (mem ?y0) = []" "broken (mem ?y0) = (\<lambda>_. False)" "lists_sent c (mem ?y0) = []" for c
    using assms(13,14) by (simp_all add: t_init_def init_server_def lists_sent_def)
  have s1: "threads y1 c1 = Serving u k1 (try_send_prog e c1 k1 (user_list_payload [u]) Done) (concat segs1)"
    "clients (mem y1) = ?l1" "broken (mem y1) = (\<lambda>_. False)"
    "threads y1 c2 = Connecting (w2 # map of_nat v # segs2)"
    "lists_sent c1 (mem y1) = [user_list_payload [u]]" "lists_sent c2 (mem y1) = []"
    using login_to_snapshot [OF init(1) assms(3,5,6,2)] init assms(9,12)
    by (simp_all add: y1_def dict_keys_def)
  have s2: "threads y2 c2 = Serving v k2 (try_send_prog e c1 k1 (user_list_payload [u, v])
      (try_send_prog e c2 k2 (user_list_payload [u, v]) Done)) (concat segs2)"
    "clients (mem y2) = ?l2" "broken (mem y2) = (\<lambda>_. False)" "threads y2 c1 = threads y1 c1"
    "lists_sent c1 (mem y2) = [user_list_payload [u]]" "lists_sent c2 (mem y2) = [user_list_payload [u, v]]"
    using login_to_snapshot [OF s1(4) assms(4,7,8,2)] s1 assms(9-12)
    by (simp_all add: y2_def dict_keys_def dict_get_Cons)
  have s3: "threads y3 c2 = Serving v k2 (try_send_prog e c2 k2 (user_list_payload [u, v]) Done) (concat segs2)"
    "clients (mem y3) = ?l2" "broken (mem y3) = (\<lambda>_. False)" "threads y3 c1 = threads y1 c1"
    "lists_sent c1 (mem y3) = map user_list_payload [[u], [u, v]]"
    "lists_sent c2 (mem y3) = [user_list_payload [u, v]]"
    using step_send [OF s2(1) assms(2)] s2 live assms(9,10,12) other by (simp_all add: y3_def)
  have s4: "threads y4 c2 = Serving v k2 Done (concat segs2)"
    "clients (mem y4) = ?l2" "broken (mem y4) = (\<lambda>_. False)" "threads y4 c1 = threads y1 c1"
    "lists_sent c1 (mem y4) = map user_list_payload [[u], [u, v]]"
    "lists_sent c2 (mem y4) = map user_list_payload [[u, v], [u, v]]"
    using step_send [OF s3(1) assms(2)] s3 live assms(9,10,12) other by (simp_all add: y4_def)
  have y: "y = y5"
    by (simp add: y_def overtaking_def y1_def y2_def y3_def y4_def y5_def)
  show "threads y c1 = Serving u k1 Done (concat segs1)" "threads y c2 = Serving v k2 Done (concat segs2)"
    "clients (mem y) = ?l2" "broken (mem y) = (\<lambda>_. False)"
    "lists_sent c1 (mem y) = map user_list_payload [[u], [u, v], [u]]"
    "lists_sent c2 (mem y) = map user_list_payload [[u, v], [u, v]]"
    using step_send [OF s4(4) [unfolded s1(1)] assms(2)] s4 live assms(9,12) other
    by (simp_all add: y y5_def)
qed

text \<open>C11
  A broadcast can overtake another. The names and targets of a broadcast are read under the lock
  but sent after it. There is a schedule of two logins after which both threads stand idle before
  what their clients send next, both users are registered and both connections take writes, and
  yet the last list of users the first one got is the list without the second: its own broadcast,
  whose names were read before the second login, is sent after the broadcast of that login. And it
  stays so: whatever frames the two clients send from then on, and however their two threads run,
  as long as neither of them leaves, both are on line, no further list is sent, and the first
  user's last list lacks the second user.\<close>

theorem stale_user_list:
  assumes "env_ok e" and "length w1 = 256" and "length w2 = 256"
    and "rsa_unwrap (e_crypto e) (e_private e) w1 = Some k1" and "aes_key_ok k1"
    and "rsa_unwrap (e_crypto e) (e_private e) w2 = Some k2" and "aes_key_ok k2"
    and "name_match 32 u" and "name_match 32 v" and "u \<noteq> v" and "c1 \<noteq> c2"
    and "inputs c1 = w1 # map of_nat u # segs1" and "inputs c2 = w2 # map of_nat v # segs2"
    and "y = t_exec e (overtaking c1 c2) (t_init inputs)"
    and "set further \<subseteq> {Run c1, Run c2}"
    and "serving (t_exec e further y) c1" and "serving (t_exec e further y) c2"
  shows "threads y c1 = Serving u k1 Done (concat segs1) \<and> threads y c2 = Serving v k2 Done (concat segs2) \<and>
    clients (mem (t_exec e further y)) = [(u, (c1, k1)), (v, (c2, k2))] \<and>
    broken (mem (t_exec e further y)) = (\<lambda>_. False) \<and>
    lists_sent c1 (mem (t_exec e further y)) = map user_list_payload [[u], [u, v], [u]] \<and>
    lists_sent c2 (mem (t_exec e further y)) = map user_list_payload [[u, v], [u, v]]"
proof -
  note o = overtaken [OF assms(1-13), folded assms(14)]
  have "silent_step (mem y) (mem (t_exec e further y))"
    using silent_pair [OF assms(11,15) _ _ assms(16,17), of u k1 v k2] o(1,2)
    by (simp add: silent_thread_def silent_done)
  from this silent_lists [OF this] show ?thesis
    using o by (simp add: silent_step_def)
qed

text \<open>After the race a frame of the first user arrives and its thread takes it.\<close>

theorem stale_user_list_witness:
  "\<exists>inputs y. inputs = (\<lambda>c. [toy_wrapped, map of_nat (if c = 1 then alice else bob), frame_bytes [1]]) \<and>
    y = t_exec toy_env [Run 1] (t_exec toy_env (overtaking 1 2) (t_init inputs)) \<and>
    clients (mem y) = [(alice, (1, key_of 5)), (bob, (2, key_of 5))] \<and>
    lists_sent 1 (mem y) = map user_list_payload [[alice], [alice, bob], [alice]]"
proof -
  let ?inputs = "\<lambda>c :: nat. [toy_wrapped, map of_nat (if c = 1 then alice else bob), frame_bytes [1]]"
  note h = toy_env_ok toy_wrapped_key(1) toy_wrapped_key(1) toy_wrapped_key(2) key_of_ok(1)
    toy_wrapped_key(2) key_of_ok(1) toy_names(1,2) toy_distinct(1)
  let ?y = "t_exec toy_env (overtaking 1 2) (t_init ?inputs)"
  note o = overtaken [OF h, of 1 2 ?inputs "[frame_bytes [1]]" "[frame_bytes [1]]", simplified]
  have "frame_ok [1]" by (simp add: frame_ok_def size_limits)
  then have "read_frame (frame_bytes [1]) = (Inr (Some [1]), [])"
    using read_frame_frame [OF frame_bytes_frame, of "[1]" "[]"] by simp
  then have "serving (t_exec toy_env [Run 1] ?y) 1" "serving (t_exec toy_env [Run 1] ?y) 2"
    using o(1,2) by (simp_all add: serving_def t_next_Run thread_step_def)
  from stale_user_list [OF h _ _ _ refl _ this, of "[frame_bytes [1]]" "[frame_bytes [1]]"]
  show ?thesis by auto
qed

end
