(* ===== verification/Writes.thy ===== *)
theory Writes
  imports Scenario
begin

text \<open>
  Several threads writing to one connection. \<open>send_payload\<close> hands a whole frame to \<open>sendall\<close>,
  but \<open>sendall\<close> repeats \<open>send\<close> until everything is taken, and nothing keeps another handler's
  \<open>sendall\<close> on the same connection out between two of those calls: \<open>state_lock\<close> is not held
  while a frame is written, and connections have no lock of their own. Server and Threads take
  a \<open>sendall\<close> as one step; here it is the list of the pieces that single calls of \<open>send\<close> take,
  and what reaches the peer is some interleaving of the pieces of all threads.
\<close>

section \<open>Pieces and interleavings\<close>

definition pieces_of :: "bytes \<Rightarrow> bytes list \<Rightarrow> bool" where
  "pieces_of data ps \<longleftrightarrow> concat ps = data \<and> [] \<notin> set ps"

text \<open>Each thread's own pieces stay in order.\<close>

inductive merges :: "'a list list \<Rightarrow> 'a list \<Rightarrow> bool" where
  mg_end: "list_all (\<lambda>xs. xs = []) xss \<Longrightarrow> merges xss []"
| mg_take: "i < length xss \<Longrightarrow> xss ! i = x # xs \<Longrightarrow> merges (xss[i := xs]) zs \<Longrightarrow> merges xss (x # zs)"

text \<open>
  What a connection may carry when thread \<open>i\<close> writes frames with the bodies \<open>bss ! i\<close> to it.
\<close>

definition on_wire :: "bytes list list \<Rightarrow> bytes \<Rightarrow> bool" where
  "on_wire bss stream \<longleftrightarrow>
     (\<exists>qss chunks. list_all2 (list_all2 (\<lambda>b. pieces_of (frame_bytes b))) bss qss \<and>
        merges (map concat qss) chunks \<and> stream = concat chunks)"

lemma merges_map:
  "merges yss ys \<Longrightarrow> yss = map (map f) xss \<Longrightarrow> \<exists>zs. ys = map f zs \<and> merges xss zs"
proof (induction yss ys arbitrary: xss rule: merges.induct)
  case (mg_end yss)
  then have "list_all (\<lambda>xs. xs = []) xss" by (auto simp: list_all_iff)
  then show ?case by (intro exI [of _ "[]"]) (simp add: merges.mg_end)
next
  case (mg_take i yss y ys zs)
  then have i: "i < length xss" "map f (xss ! i) = y # ys" by auto
  then obtain x xs where x: "xss ! i = x # xs" "y = f x" "ys = map f xs" by auto
  have "yss[i := ys] = map (map f) (xss[i := xs])"
    using mg_take.prems x by (simp add: map_update)
  then obtain ws where "zs = map f ws" "merges (xss[i := xs]) ws" using mg_take.IH by blast
  then show ?case
    using merges.mg_take [OF i(1) x(1)] x(2) by (intro exI [of _ "x # ws"]) simp
qed

lemma merges_all: "merges xss zs \<Longrightarrow> list_all (list_all P) xss \<Longrightarrow> list_all P zs"
proof (induction rule: merges.induct)
  case (mg_take i xss x xs zs)
  then have "list_all P (x # xs)" by (metis list_all_length)
  moreover have "list_all (list_all P) (xss[i := xs])"
    using mg_take.prems \<open>list_all P (x # xs)\<close>
    by (auto simp: list_all_iff dest!: set_update_subset_insert [THEN subsetD])
  ultimately show ?case using mg_take.IH by simp
qed simp

section \<open>Whole frames\<close>

text \<open>C30
  Frames written in one piece stay readable. When each \<open>sendall\<close> is taken in one call, then,
  however the threads are scheduled, the connection carries whole frames: the reader takes from
  the stream exactly the bodies the threads wrote, those of each thread in its own order, and
  nothing else.\<close>

theorem whole_frames_readable:
  assumes "list_all (list_all frame_ok) bss" and "merges (map (map frame_bytes) bss) chunks"
  shows "\<exists>ds. merges bss ds \<and> decode_all read_frame1 (concat chunks) = Some ds \<and>
    on_wire bss (concat chunks)"
proof -
  obtain ds where ds: "chunks = map frame_bytes ds" "merges bss ds"
    using merges_map [OF assms(2) refl] by blast
  have "decode_all read_frame1 (concat chunks) = Some ds"
    unfolding ds(1) by (rule fr.decode_all_concat [OF merges_all [OF ds(2) assms(1)]])
  moreover have "list_all2 (list_all2 (\<lambda>b. pieces_of (frame_bytes b))) bss (map (map (\<lambda>b. [frame_bytes b])) bss)"
    using assms(1) fr.enc_nonempty
    by (fastforce simp: list_all2_map2 list.rel_map list_all_iff pieces_of_def intro!: list.rel_refl_strong)
  moreover have "map concat (map (map (\<lambda>b. [frame_bytes b])) bss) = map (map frame_bytes) bss"
    by (simp add: concat_map_singleton)
  ultimately show ?thesis
    using ds(2) assms(2) unfolding on_wire_def by metis
qed

theorem whole_frames_readable_witness:
  "\<exists>ds. merges [[[1], [2]], [[3]]] ds \<and>
    decode_all read_frame1 (frame_bytes [1] @ frame_bytes [3] @ frame_bytes [2]) = Some ds \<and>
    on_wire [[[1], [2]], [[3]]] (frame_bytes [1] @ frame_bytes [3] @ frame_bytes [2])"
proof -
  have m: "merges (map (map frame_bytes) [[[1], [2]], [[3]]])
      [frame_bytes [1], frame_bytes [3], frame_bytes [2]]"
    by (rule mg_take [of 0], simp, simp, rule mg_take [of 1], simp, simp,
        rule mg_take [of 0], simp, simp, rule mg_end) simp
  have "list_all (list_all frame_ok) [[[1], [2]], [[3]]]" by (simp add: frame_ok_def size_limits)
  from whole_frames_readable [OF this m] show ?thesis by simp
qed

section \<open>A torn frame\<close>

lemma small_header:
  assumes "frame_ok d"
  shows "\<exists>a b c. frame_bytes d = [0, a, b, c] @ d \<and>
    unat a * 2 ^ 16 + unat b * 2 ^ 8 + unat c = length d"
proof -
  obtain h where h: "frame d = Inr (h @ d)" "length h = 4" "unpack_be32 h = Inr (length d)"
    using frame_of_ok [OF frame_ok_small [OF assms]] by blast
  then obtain z a b c where abc: "h = [z, a, b, c]"
    by (auto simp: unpack_be32_def split: list.splits)
  have sum: "unat z * 2 ^ 24 + unat a * 2 ^ 16 + unat b * 2 ^ 8 + unat c = length d"
    using h(3) by (simp add: abc unpack_be32_def)
  moreover have "length d \<le> 8388608" using assms by (simp add: frame_ok_def MAX_FRAME_SIZE_def)
  ultimately have "unat z = 0" by simp
  then show ?thesis
    using sum h(1) by (auto simp: abc frame_bytes_def unat_eq_zero)
qed

text \<open>The stream: all of the first frame but its last byte, the second frame, that byte.\<close>

definition torn :: "bytes \<Rightarrow> bytes \<Rightarrow> bytes" where
  "torn d1 d2 = butlast (frame_bytes d1) @ frame_bytes d2 @ [last d1]"

lemma torn_on_wire:
  assumes "frame_ok d1" and "frame_ok d2" and "d1 \<noteq> []"
  shows "on_wire [[d1], [d2]] (torn d1 d2)"
proof -
  let ?a = "butlast (frame_bytes d1)"
  obtain h where h: "frame_bytes d1 = h @ d1" "length h = 4" using small_header [OF assms(1)] by auto
  then have a: "?a @ [last d1] = frame_bytes d1" "?a \<noteq> []"
    using assms(3) by (auto simp: butlast_append)
  let ?qss = "[[[?a, [last d1]]], [[frame_bytes d2]]]"
  have "list_all2 (list_all2 (\<lambda>b. pieces_of (frame_bytes b))) [[d1], [d2]] ?qss"
    using a fr.enc_nonempty [OF assms(2)] by (auto simp: pieces_of_def)
  moreover have "merges (map concat ?qss) [?a, frame_bytes d2, [last d1]]"
    by (rule mg_take [of 0], simp, simp, rule mg_take [of 1], simp, simp,
        rule mg_take [of 0], simp, simp, rule mg_end) simp
  ultimately show ?thesis
    unfolding on_wire_def torn_def by (intro exI [of _ ?qss] exI [of _ "[?a, frame_bytes d2, [last d1]]"]) simp
qed

lemma torn_first:
  assumes "frame_ok d1" and "frame_ok d2" and "d1 \<noteq> []"
  shows "read_frame (torn d1 d2) = (Inr (Some (butlast d1 @ [0])), tl (frame_bytes d2) @ [last d1])"
proof -
  obtain a b c where h2: "frame_bytes d2 = [0, a, b, c] @ d2" using small_header [OF assms(2)] by auto
  obtain h where h: "frame d1 = Inr (h @ d1)" "length h = 4" "unpack_be32 h = Inr (length d1)"
    using frame_of_ok [OF frame_ok_small [OF assms(1)]] by blast
  have "frame (butlast d1 @ [0]) = Inr (h @ butlast d1 @ [0])"
    using h(1) assms(3) by (cases "pack_be32 (length d1)") (auto simp: frame_def)
  moreover have "frame_ok (butlast d1 @ [0])" using assms(1,3) by (simp add: frame_ok_def)
  ultimately have "read_frame ((h @ butlast d1 @ [0]) @ r) = (Inr (Some (butlast d1 @ [0])), r)" for r
    by (rule read_frame_frame)
  moreover have "torn d1 d2 = (h @ butlast d1 @ [0]) @ tl (frame_bytes d2) @ [last d1]"
  proof -
    have "frame_bytes d1 = h @ d1" using h(1) by (simp add: frame_bytes_def)
    then show ?thesis using assms(3) by (simp add: torn_def h2 butlast_append)
  qed
  ultimately show ?thesis by simp
qed

section \<open>Any interleaving\<close>

text \<open>The bodies a reader takes from a stream until it has to stop.\<close>

function bodies_of :: "bytes \<Rightarrow> bytes list" where
  "bodies_of s = (case read_frame s of (Inr (Some d), r) \<Rightarrow> d # bodies_of r | _ \<Rightarrow> [])"
  by pat_completeness auto
termination
  by (relation "measure length") (auto intro: read_frame_shorter [OF sym])

declare bodies_of.simps [simp del]

lemma bodies_step: "read_frame s = (Inr (Some d), r) \<Longrightarrow> bodies_of s = d # bodies_of r"
  by (subst bodies_of.simps) simp

lemma bodies_stop: "(\<And>d r. read_frame s \<noteq> (Inr (Some d), r)) \<Longrightarrow> bodies_of s = []"
  by (subst bodies_of.simps) (auto split: prod.splits sum.splits option.splits)

lemma unpack_pack: "unpack_be32 h = Inr n \<Longrightarrow> pack_be32 n = Inr h"
proof -
  assume u: "unpack_be32 h = Inr n"
  then obtain a b c d where h: "h = [a, b, c, d]"
    and n: "n = unat a * 2 ^ 24 + unat b * 2 ^ 16 + unat c * 2 ^ 8 + unat d"
    by (auto simp: unpack_be32_def split: list.splits)
  note less = unat_byte_less [of a] unat_byte_less [of b] unat_byte_less [of c] unat_byte_less [of d]
  have n1: "n = (unat a * 65536 + unat b * 256 + unat c) * 256 + unat d" using n by simp
  have digit: "(m * 256 + l) div 256 = m" "(m * 256 + l) mod 256 = l" if "l < 256" for m l :: nat
    using that by simp_all
  have "n div 256 = unat a * 65536 + unat b * 256 + unat c" "n mod 256 = unat d"
    unfolding n1 using digit [OF less(4)] by blast+
  moreover from this(1) have n2: "n div 256 = (unat a * 256 + unat b) * 256 + unat c" by simp
  then have "n div 256 div 256 = unat a * 256 + unat b" "n div 256 mod 256 = unat c"
    using digit [OF less(3)] by metis+
  moreover from this(1) have "n div 256 div 256 div 256 = unat a" "n div 256 div 256 mod 256 = unat b"
    using digit [OF less(2)] by metis+
  moreover have "n div 2 ^ 16 = n div 256 div 256" "n div 2 ^ 24 = n div 256 div 256 div 256"
    by (simp_all add: div_mult2_eq [symmetric])
  ultimately have d: "n div 2 ^ 24 mod 256 = unat a" "n div 2 ^ 16 mod 256 = unat b"
    "n div 2 ^ 8 mod 256 = unat c" "n mod 256 = unat d"
    using less(1) by (simp_all add: mod_less)
  have w: "of_nat m = x" if "m mod 256 = unat x" for m and x :: byte
    using that by (simp add: word_unat_eq_iff unat_of_nat_mod)
  show ?thesis
    using unpack_be32_bound [OF u] w [OF d(1)] w [OF d(2)] w [OF d(3)] w [OF d(4)]
    by (simp add: pack_be32_def h)
qed

lemma read_frame_bytes:
  assumes "read_frame s = (Inr (Some d), r)"
  shows "s = frame_bytes d @ r" and "frame_ok d"
proof -
  obtain n where n: "unpack_be32 (take 4 s) = Inr n" "d = take n (drop 4 s)" "r = drop n (drop 4 s)"
    "length d = n"
    using assms by (auto simp: read_frame_def Let_def min_def split: if_splits sum.splits)
  then have a: "unpack_be32 (take 4 s) = Inr (length d)" "drop 4 s = d @ r"
    by (simp_all only: append_take_drop_id)
  have "frame_bytes d = take 4 s @ d" using unpack_pack [OF a(1)] by (simp add: frame_bytes_def frame_def)
  then show "s = frame_bytes d @ r" using append_take_drop_id [of 4 s] a(2) by simp
  show "frame_ok d" using read_frame_size [OF assms] by (simp add: frame_ok_def)
qed

lemma bodies_bytes: "\<exists>r. s = concat (map frame_bytes (bodies_of s)) @ r \<and> list_all frame_ok (bodies_of s)"
proof (induction s rule: measure_induct_rule [of length])
  case (less s)
  show ?case
  proof (cases "\<exists>d r. read_frame s = (Inr (Some d), r)")
    case True
    then obtain d r where d: "read_frame s = (Inr (Some d), r)" by blast
    then show ?thesis
      using less.IH [OF read_frame_shorter [OF d]] read_frame_bytes [OF d] by (auto simp: bodies_step)
  next
    case False
    then have "bodies_of s = []" by (intro bodies_stop) blast
    then show ?thesis by simp
  qed
qed

lemma length_frame_bytes: "frame_ok d \<Longrightarrow> length (frame_bytes d) = length d + 4"
  using small_header by fastforce

text \<open>A list of bodies in which two occur, no longer than their frames, is these two.\<close>

lemma two_bodies:
  fixes bs :: "bytes list"
  assumes "d1 \<in> set bs" and "d2 \<in> set bs" and "d1 \<noteq> d2"
    and "sum_list (map (\<lambda>d. length d + 4) bs) \<le> (length d1 + 4) + (length d2 + 4)"
  shows "bs = [d1, d2] \<or> bs = [d2, d1]"
proof -
  have two: "xs = [] \<and> ys = [] \<and> zs = []"
    if "sum_list (map (\<lambda>d. length d + 4) (xs @ a # ys @ b # zs)) \<le> (length a + 4) + (length b + 4)"
    for xs ys zs and a b :: bytes
    using that by (cases xs; cases ys; cases zs) auto
  obtain xs ys where bs: "bs = xs @ d1 # ys" using assms(1) by (meson split_list)
  then consider "d2 \<in> set xs" | "d2 \<in> set ys" using assms(2,3) by auto
  then show ?thesis
  proof cases
    case 1
    then obtain us vs where "xs = us @ d2 # vs" by (meson split_list)
    then show ?thesis using two [of us d2 vs d1 ys] assms(4) bs by simp
  next
    case 2
    then obtain us vs where "ys = us @ d2 # vs" by (meson split_list)
    then show ?thesis using two [of xs d1 us d2 vs] assms(4) bs by simp
  qed
qed

lemma merges_length:
  "merges xss zs \<Longrightarrow> length (concat zs) = sum_list (map (\<lambda>xs. length (concat xs)) xss)"
proof (induction rule: merges.induct)
  case (mg_end xss)
  then have "map (\<lambda>xs. length (concat xs)) xss = map (\<lambda>xs. 0) xss"
    by (intro map_cong refl) (auto simp: list_all_iff)
  then show ?case by (simp add: sum_list_0)
next
  case (mg_take i xss x xs zs)
  let ?f = "\<lambda>xs. length (concat xs)"
  have "sum_list (map ?f (xss[i := xs])) = sum_list (map ?f xss) + ?f xs - ?f (xss ! i)"
    using mg_take.hyps(1) by (simp add: map_update sum_list_update)
  moreover have "?f (xss ! i) \<le> sum_list (map ?f xss)"
    by (rule member_le_sum_list) (simp_all add: mg_take.hyps(1))
  moreover have "length (concat zs) = sum_list (map ?f (xss[i := xs]))" by (rule mg_take.IH)
  moreover have "?f (xss ! i) = length x + ?f xs" using mg_take.hyps(2) by simp
  moreover have "length (concat (x # zs)) = length x + length (concat zs)" by simp
  ultimately show ?case by linarith
qed

lemma on_wire_length:
  assumes "on_wire [[d1], [d2]] s" and "frame_ok d1" and "frame_ok d2"
  shows "length s = (length d1 + 4) + (length d2 + 4)"
proof -
  obtain qss chunks where q: "list_all2 (list_all2 (\<lambda>b. pieces_of (frame_bytes b))) [[d1], [d2]] qss"
    "merges (map concat qss) chunks" "s = concat chunks"
    using assms(1) unfolding on_wire_def by blast
  then obtain p1 p2 where p: "qss = [[p1], [p2]]" "pieces_of (frame_bytes d1) p1" "pieces_of (frame_bytes d2) p2"
    by (auto simp: list_all2_Cons1)
  then show ?thesis
    using merges_length [OF q(2)] length_frame_bytes assms(2,3) q(3) by (simp add: pieces_of_def)
qed


section \<open>What the client does with bodies it cannot open\<close>

lemma key_kept [simp]:
  "aes_key (snd (notify cb a m v x)) = aes_key x" "aes_key (snd (notify_users cb us x)) = aes_key x"
  "aes_key (close_link x) = aes_key x"
  by (simp_all add: notify_def notify_users_def close_link_def split: prod.splits link.splits)

lemma go_on_key: "(\<And>x. aes_key (snd (m x)) = aes_key x) \<Longrightarrow> aes_key (snd (go_on m x)) = aes_key x"
  by simp

lemma receive_file_key: "aes_key (snd (receive_file ke cb p x)) = aes_key x"
  unfolding receive_file_def Let_def
  by (simp split: sum.splits json.splits)

lemma receive_frame_key: "aes_key (snd (receive_frame ke cb d x)) = aes_key x"
  unfolding receive_frame_def dispatch_def Let_def
  by (simp add: receive_file_key split: sum.splits json.splits)

lemma unpack_short: "unpack_be32 (take 4 s) = Inl er \<Longrightarrow> drop 4 s = []"
proof (rule ccontr)
  assume u: "unpack_be32 (take 4 s) = Inl er" and "drop 4 s \<noteq> []"
  then have "length (take 4 s) = 4" by simp
  moreover have "\<exists>a b c d. xs = [a, b, c, d]" if "length xs = 4" for xs :: bytes
    using that by (auto simp: numeral_eq_Suc length_Suc_conv)
  ultimately obtain a b c d where "take 4 s = [a, b, c, d]" by blast
  then show False using u by (simp add: unpack_be32_def)
qed

lemma receive_loop_stop:
  assumes "\<And>d r. read_frame s \<noteq> (Inr (Some d), r)"
  shows "receive_loop ke cb s x = x"
proof (cases "unpack_be32 (take 4 s)")
  case (Inl er)
  then show ?thesis using unpack_short [OF Inl] by (subst receive_loop.simps) simp
next
  case (Inr n)
  have "s \<noteq> []" using Inr by (auto simp: unpack_be32_def)
  then have "MAX_FRAME_SIZE < n \<or> length (take n (drop 4 s)) < n"
    using assms [of "take n (drop 4 s)" "drop n (drop 4 s)"] Inr
    by (cases "MAX_FRAME_SIZE < n"; cases "length (take n (drop 4 s)) < n") (simp_all add: read_frame_def Let_def)
  then show ?thesis using Inr by (subst receive_loop.simps) (auto simp: Let_def)
qed

lemma decrypt_no_OSError: "decrypt_message cr d k = Inl er \<Longrightarrow> er \<noteq> OSError"
  by (auto simp: decrypt_message_def Let_def utf8_decode_def split: if_splits option.splits)

text \<open>
  A loop whose reader meets, besides some bodies, only such as do not open does what it would do
  on the frames of those bodies alone.
\<close>

lemma receive_loop_opened:
  "list_all (\<lambda>d. P d \<or> isl (decrypt_message (k_crypto ke) d (aes_key x))) (bodies_of s) \<Longrightarrow>
   receive_loop ke cb s x = receive_loop ke cb (concat (map frame_bytes (filter P (bodies_of s)))) x"
proof (induction s arbitrary: x rule: measure_induct_rule [of length])
  case (less s)
  show ?case
  proof (cases "\<exists>d r. read_frame s = (Inr (Some d), r)")
    case False
    then have "bodies_of s = []" "receive_loop ke cb s x = x"
      by (auto intro!: bodies_stop receive_loop_stop)
    then show ?thesis by simp
  next
    case True
    then obtain d r where d: "read_frame s = (Inr (Some d), r)" by blast
    let ?t = "concat (map frame_bytes (filter P (bodies_of r)))"
    have b: "bodies_of s = d # bodies_of r" by (rule bodies_step [OF d])
    have ih: "receive_loop ke cb r y = receive_loop ke cb ?t y" if "aes_key y = aes_key x" for y
      using less.IH [OF read_frame_shorter [OF d], of y] less.prems that by (simp add: b)
    obtain v y where v: "receive_frame ke cb d x = (v, y)" by force
    then have y: "aes_key y = aes_key x" using receive_frame_key [of ke cb d x] by simp
    show ?thesis
    proof (cases "P d")
      case True
      have "read_frame (frame_bytes d @ ?t) = (Inr (Some d), ?t)"
        using read_frame_bytes(2) [OF d] by (simp add: read_frame_frame [OF frame_bytes_frame])
      then show ?thesis
        using True v ih [OF y] receive_loop_frame [OF d, of ke cb x]
        by (simp add: b receive_loop_frame split: sum.splits verdict.splits)
    next
      case False
      then obtain er where er: "decrypt_message (k_crypto ke) d (aes_key x) = Inl er"
        using less.prems by (auto simp: b isl_def)
      then have "receive_frame ke cb d x = (Inl er, x)" by (simp add: receive_frame_def rbind_def)
      then show ?thesis
        using False decrypt_no_OSError [OF er] ih [of x] receive_loop_frame [OF d, of ke cb x]
        by (simp add: b)
    qed
  qed
qed

lemma concat_replicate_map: "list_all (\<lambda>b. b = d) bs \<Longrightarrow> concat (map f bs) = concat (replicate (length bs) (f d))"
  by (induction bs) auto

text \<open>C31
  Interleaved frames lose a message. Two threads write one frame each to a client, and each
  \<open>sendall\<close> is taken in any number of pieces. Whenever the pieces reach the connection in an order
  that does not come to one frame after the other, the client's reader does not take both bodies
  from the stream: at least one is lost. Provided that, of the bodies it does take, only the two
  that were sealed open, which is what authenticated encryption is for, its receive loop does
  nothing but what it would do on frames of the other one alone.\<close>

theorem interleaved_frames_lose:
  assumes "frame_ok d1" and "frame_ok d2" and "d1 \<noteq> d2" and "on_wire [[d1], [d2]] stream"
    and "stream \<noteq> frame_bytes d1 @ frame_bytes d2" and "stream \<noteq> frame_bytes d2 @ frame_bytes d1"
    and "list_all (\<lambda>d. d = d1 \<or> d = d2 \<or> isl (decrypt_message (k_crypto ke) d (aes_key x))) (bodies_of stream)"
  shows "\<exists>lost other n. {lost, other} = {d1, d2} \<and> lost \<notin> set (bodies_of stream) \<and>
    receive_loop ke cb stream x = receive_loop ke cb (concat (replicate n (frame_bytes other))) x"
proof -
  obtain r where r: "stream = concat (map frame_bytes (bodies_of stream)) @ r" "list_all frame_ok (bodies_of stream)"
    using bodies_bytes by blast
  have len: "length (concat (map frame_bytes bs)) = sum_list (map (\<lambda>d. length d + 4) bs)"
    if "list_all frame_ok bs" for bs
    using that by (induction bs) (auto simp: length_frame_bytes)
  have total: "sum_list (map (\<lambda>d. length d + 4) (bodies_of stream)) + length r = (length d1 + 4) + (length d2 + 4)"
    using arg_cong [OF r(1), of length] len [OF r(2)] on_wire_length [OF assms(4,1,2)] by simp
  have "\<not> (d1 \<in> set (bodies_of stream) \<and> d2 \<in> set (bodies_of stream))"
  proof
    assume both: "d1 \<in> set (bodies_of stream) \<and> d2 \<in> set (bodies_of stream)"
    then have "bodies_of stream = [d1, d2] \<or> bodies_of stream = [d2, d1]"
      using total by (intro two_bodies [OF _ _ assms(3)]) simp_all
    then have "stream = frame_bytes d1 @ frame_bytes d2 \<or> stream = frame_bytes d2 @ frame_bytes d1"
      using total r(1) by auto
    then show False using assms(5,6) by blast
  qed
  then have "\<exists>lost other. {lost, other} = {d1, d2} \<and> lost \<notin> set (bodies_of stream)"
    by (cases "d1 \<in> set (bodies_of stream)") blast+
  then obtain lost other where l: "{lost, other} = {d1, d2}" "lost \<notin> set (bodies_of stream)" by blast
  let ?bs = "filter (\<lambda>d. d = d1 \<or> d = d2) (bodies_of stream)"
  have "d = other" if "d \<in> set ?bs" for d
  proof -
    have "d \<in> {lost, other}" "d \<noteq> lost" using that l by auto
    then show ?thesis by blast
  qed
  then have "concat (map frame_bytes ?bs) = concat (replicate (length ?bs) (frame_bytes other))"
    by (intro concat_replicate_map) (auto simp: list_all_iff)
  moreover have "receive_loop ke cb stream x = receive_loop ke cb (concat (map frame_bytes ?bs)) x"
    using assms(7) by (intro receive_loop_opened) (simp add: disj_assoc)
  ultimately have "receive_loop ke cb stream x =
      receive_loop ke cb (concat (replicate (length ?bs) (frame_bytes other))) x" by simp
  with l show ?thesis by blast
qed

lemma torn_rest:
  assumes "frame_ok d2" and "d2 \<noteq> []"
  shows "read_frame (tl (frame_bytes d2) @ [z]) \<noteq> (Inr (Some d), r)"
proof -
  obtain a b c where h2: "frame_bytes d2 = [0, a, b, c] @ d2"
    "unat a * 2 ^ 16 + unat b * 2 ^ 8 + unat c = length d2"
    using small_header [OF assms(1)] by blast
  obtain y ys where d2: "d2 = y # ys" using assms(2) by (cases d2) auto
  have "length (ys @ [z]) < unat a * 2 ^ 24 + unat b * 2 ^ 16 + unat c * 2 ^ 8 + unat y"
    using h2(2) by (simp add: d2)
  moreover have "tl (frame_bytes d2) @ [z] = [a, b, c, y] @ ys @ [z]" unfolding h2(1) by (simp add: d2)
  ultimately show ?thesis by (simp add: read_frame_def unpack_be32_def Let_def)
qed

lemma torn_bodies:
  assumes "frame_ok d1" and "frame_ok d2" and "d1 \<noteq> []" and "d2 \<noteq> []"
  shows "bodies_of (torn d1 d2) = [butlast d1 @ [0]]"
  using bodies_step [OF torn_first [OF assms(1-3)]] bodies_stop [of "tl (frame_bytes d2) @ [last d1]"]
    torn_rest [OF assms(2,4)] by metis

text \<open>The worst case: a frame cut before its last byte takes the other one with it.\<close>

lemma torn_write_loses_both:
  assumes "frame_ok d1" and "frame_ok d2" and "d1 \<noteq> []" and "d2 \<noteq> []"
    and "isl (decrypt_message (k_crypto ke) (butlast d1 @ [0]) (aes_key x))"
  shows "on_wire [[d1], [d2]] (torn d1 d2)" and "receive_loop ke cb (torn d1 d2) x = x"
  using torn_on_wire [OF assms(1-3)] assms(5)
    receive_loop_opened [of "\<lambda>_. False" ke x "torn d1 d2" cb] torn_bodies [OF assms(1-4)]
  by simp_all

theorem interleaved_frames_lose_witness:
  "\<exists>d1 d2 lost other n. d1 = replicate 12 0 @ [123, 125] @ replicate 16 1 \<and> d2 = [5, 6] \<and>
    decrypt_message toy_crypto d1 (key_of 1) = Inr (lit ''{}'') \<and> {lost, other} = {d1, d2} \<and>
    receive_loop toy_cenv log_callbacks (torn d1 d2) (toy_client bob 1) =
      receive_loop toy_cenv log_callbacks (concat (replicate n (frame_bytes other))) (toy_client bob 1)"
proof -
  let ?d = "replicate 12 0 @ [123, 125] @ replicate 16 (1 :: byte)" and ?e = "[5, 6] :: bytes"
  have opens: "decrypt_message toy_crypto ?d (key_of 1) = Inr (lit ''{}'')"
    by (simp add: decrypt_message_def toy_crypto_def toy_tag_def key_of_def aes_key_ok_def
        utf8_decode_ascii [of "[123, 125]", simplified] numeral_eq_Suc py_eval)
  have fails: "decrypt_message (k_crypto toy_cenv) (butlast ?d @ [0]) (aes_key (toy_client bob 1)) = Inl InvalidTag"
    by (simp add: decrypt_message_def toy_cenv_def toy_crypto_def toy_tag_def key_of_def
        aes_key_ok_def numeral_eq_Suc)
  have ok: "frame_ok ?d" "frame_ok ?e" by (simp_all add: frame_ok_def size_limits)
  have b: "bodies_of (torn ?d ?e) = [butlast ?d @ [0]]" by (rule torn_bodies [OF ok]) simp_all
  have first: "hd (bodies_of (frame_bytes d @ r)) = d" if "frame_ok d" for d r
    using bodies_step [OF read_frame_frame [OF frame_bytes_frame [OF that] that], of r] by simp
  have "torn ?d ?e \<noteq> frame_bytes ?d @ frame_bytes ?e" "torn ?d ?e \<noteq> frame_bytes ?e @ frame_bytes ?d"
    using first [OF ok(1), of "frame_bytes ?e"] first [OF ok(2), of "frame_bytes ?d"] b
    by (auto simp: numeral_eq_Suc)
  moreover have ne: "?d \<noteq> ?e" by (simp add: numeral_eq_Suc)
  ultimately obtain lost other n where "{lost, other} = {?d, ?e}"
    "receive_loop toy_cenv log_callbacks (torn ?d ?e) (toy_client bob 1) =
      receive_loop toy_cenv log_callbacks (concat (replicate n (frame_bytes other))) (toy_client bob 1)"
    using interleaved_frames_lose [OF ok ne torn_on_wire [OF ok], of toy_cenv "toy_client bob 1" log_callbacks] fails
    unfolding b by auto
  then show ?thesis using opens by blast
qed

end
