(* ===== verification/Proxy.thy ===== *)
theory Proxy
  imports Scenario
begin

text \<open>
  The two demonstrations of \<open>demos/\<close>: the proxy of \<open>mitm_key_replacement_demo.py\<close>, which
  stands between a client and the server and replaces the server's public key, and the
  fixed-size read of \<open>handshake_desync_demo.py\<close>. A socket is the segments that will arrive
  on it and the bytes written to it, as in Framing.
\<close>

section \<open>The proxy\<close>

text \<open>\<open>recv_exact\<close>: the loop of \<open>recv_exact_socket\<close> with \<open>ConnectionError\<close>, an \<open>OSError\<close>.\<close>

definition recv_exact :: "segments \<Rightarrow> nat \<Rightarrow> bytes result \<times> segments" where
  "recv_exact segs n =
     (case recv_loop n [] segs of
        (Inl er, segs') \<Rightarrow> (Inl OSError, segs')
      | (Inr bs, segs') \<Rightarrow> (Inr bs, segs'))"

lemma recv_length: "recv n segs = (chunk, segs') \<Longrightarrow> length (concat segs) = length chunk + length (concat segs')"
  by (auto simp: recv_def split: list.splits if_splits)

lemma recv_loop_length:
  "recv_loop n chunks segs = (Inr bs, segs') \<Longrightarrow>
   length chunks + length (concat segs) = length bs + length (concat segs') \<and> n \<le> length bs"
proof (induction n chunks segs rule: recv_loop.induct)
  case (1 n chunks segs)
  obtain chunk rest where r: "recv (n - length chunks) segs = (chunk, rest)" by force
  show ?case
  proof (cases "length chunks < n \<and> chunk \<noteq> []")
    case True
    then have "recv_loop n (chunks @ chunk) rest = (Inr bs, segs')"
      using "1.prems" by (subst (asm) recv_loop.simps) (simp add: r)
    then show ?thesis using "1.IH" [OF _ r [symmetric] refl] True recv_length [OF r] by auto
  qed (use "1.prems" r in \<open>subst (asm) recv_loop.simps, auto split: if_splits\<close>)
qed

lemma recv_exact_shorter:
  "recv_exact segs n = (Inr bs, segs') \<Longrightarrow> length (concat segs') + n \<le> length (concat segs)"
  using recv_loop_length [of n "[]" segs bs segs']
  by (auto simp: recv_exact_def split: prod.splits sum.splits)

lemma recv_exact_take:
  assumes "live segs" and "n \<le> length (concat segs)"
  shows "\<exists>segs'. recv_exact segs n = (Inr (take n (concat segs)), segs') \<and>
    concat segs' = drop n (concat segs) \<and> live segs'"
  using recv_loop_spec(1) [OF assms(1), of "[]" n] assms(2) by (auto simp: recv_exact_def)

text \<open>\<open>_forward_server_to_client\<close>: the bytes it writes to the client.\<close>

function forward_frames :: "segments \<Rightarrow> bytes" where
  "forward_frames ss =
     (case recv_exact ss 4 of
        (Inl er, ss1) \<Rightarrow> []
      | (Inr header, ss1) \<Rightarrow>
          (case unpack_be32 header of
             Inl er \<Rightarrow> []
           | Inr frame_len \<Rightarrow>
               (case recv_exact ss1 frame_len of
                  (Inl er, ss2) \<Rightarrow> []
                | (Inr fr, ss2) \<Rightarrow> header @ fr @ forward_frames ss2)))"
  by pat_completeness auto
termination
  by (relation "measure (\<lambda>ss. length (concat ss))")
    (auto dest!: sym [THEN recv_exact_shorter])

declare forward_frames.simps [simp del]

text \<open>\<open>KeyReplacementProxy\<close> while \<open>_run\<close> runs.\<close>

record proxy =
  to_victim :: bytes
  to_server :: bytes
  captured_payload :: "json option"
  captured :: bool
  proxy_error :: "exn option"

definition new_proxy :: proxy where
  "new_proxy =
     \<lparr>to_victim = [], to_server = [], captured_payload = None, captured = False, proxy_error = None\<rparr>"

text \<open>An exception anywhere ends the run: it is kept, and the waiting main thread is woken.\<close>

definition proxy_fail :: "exn \<Rightarrow> proxy \<Rightarrow> proxy" where
  "proxy_fail er p = p\<lparr>proxy_error := Some er, captured := True\<rparr>"

definition attempt :: "'a result \<Rightarrow> proxy \<Rightarrow> ('a \<Rightarrow> proxy) \<Rightarrow> proxy" where
  "attempt r p f = (case r of Inl er \<Rightarrow> proxy_fail er p | Inr a \<Rightarrow> f a)"

lemma attempt_simps [simp]: "attempt (Inr a) p f = f a" "attempt (Inl er) p f = proxy_fail er p"
  by (simp_all add: attempt_def)

definition rsa_open :: "crypto \<Rightarrow> bytes \<Rightarrow> bytes \<Rightarrow> bytes result" where
  "rsa_open cr priv c = (case rsa_unwrap cr priv c of None \<Rightarrow> Inl ValueError | Some m \<Rightarrow> Inr m)"

text \<open>
  \<open>_run\<close> once both sockets are open: \<open>vs\<close> is what arrives from the victim, \<open>ss\<close> from the
  server, \<open>(pem, priv)\<close> the attacker's key pair. The forwarding thread only writes to the
  victim, so what it writes is added where it is started.
\<close>

definition proxy_run ::
  "crypto \<Rightarrow> (pystr \<Rightarrow> pyfloat) \<Rightarrow> bytes \<Rightarrow> bytes \<Rightarrow> bytes \<Rightarrow> segments \<Rightarrow> segments \<Rightarrow> proxy" where
  "proxy_run cr fl pem priv expected_username vs ss =
     (let (r1, ss1) = recv_exact ss 4
      in attempt (rbind r1 unpack_be32) new_proxy (\<lambda>real_key_len.
     let (r2, ss2) = recv_exact ss1 real_key_len
      in attempt r2 new_proxy (\<lambda>real_public_key.
         attempt (frame pem) new_proxy (\<lambda>hello.
     let p1 = new_proxy\<lparr>to_victim := hello\<rparr>; (r3, vs1) = recv_exact vs 256
      in attempt r3 p1 (\<lambda>encrypted_aes_key.
         attempt (rsa_open cr priv encrypted_aes_key) p1 (\<lambda>aes_key.
         attempt (rsa_wrap cr real_public_key aes_key) p1 (\<lambda>rewrapped.
     let p2 = p1\<lparr>to_server := rewrapped\<rparr>; (r4, vs2) = recv_exact vs1 (length expected_username)
      in attempt r4 p2 (\<lambda>username.
         if username \<noteq> expected_username then proxy_fail ValueError p2
         else
     (let p3 = p2\<lparr>to_server := rewrapped @ username, to_victim := hello @ forward_frames ss2\<rparr>;
          (r5, vs3) = recv_exact vs2 4
      in attempt r5 p3 (\<lambda>header.
         attempt (unpack_be32 header) p3 (\<lambda>frame_len.
     let (r6, vs4) = recv_exact vs3 frame_len
      in attempt r6 p3 (\<lambda>fr.
         attempt (rbind (decrypt_message cr fr aes_key) (loads fl)) p3 (\<lambda>v.
           p3\<lparr>captured_payload := Some v, captured := True,
              to_server := rewrapped @ username @ header @ fr\<rparr>)))))))))))))"

text \<open>
  The verdict of \<open>main\<close> on the payload the proxy captured: \<open>captured_payload or {}\<close> has the
  message the victim sent under \<open>payload\<close>; a value that is not a dict has no \<open>get\<close>.
\<close>

definition mitm_passes :: "proxy \<Rightarrow> pystr \<Rightarrow> bool" where
  "mitm_passes p message \<longleftrightarrow>
     captured p \<and> proxy_error p = None \<and>
     (case captured_payload p of
        Some (JObj q) \<Rightarrow> jget q (lit ''payload'') = JStr message
      | _ \<Rightarrow> False)"

section \<open>The fixed-size read\<close>

text \<open>
  \<open>handshake_desync_demo.main\<close>, with the loader of the key as a parameter: the declared length
  of the key, the number of bytes the read took, the bytes of the next frame among them, and
  what is left for the frame reader. The demo passes when the whole frame was taken.
\<close>

definition handshake_desync ::
  "(bytes \<Rightarrow> bool) \<Rightarrow> bytes \<Rightarrow> bytes \<Rightarrow> (nat \<times> nat \<times> bytes \<times> bytes) result" where
  "handshake_desync load_ok public_key next_payload =
     rbind (frame next_payload) (\<lambda>next_frame.
     rbind (frame public_key) (\<lambda>hello.
       (let (first_read, rest) = recv 4096 [hello @ next_frame]
        in if \<not> load_ok first_read then Inl ValueError
           else rmap (\<lambda>declared_key_len.
                  (declared_key_len, length first_read, drop (4 + declared_key_len) first_read,
                   fst (recv 4 rest)))
                (unpack_be32 (take 4 first_read)))))"

definition desync_passes :: "(bytes \<Rightarrow> bool) \<Rightarrow> bytes \<Rightarrow> bytes \<Rightarrow> bool" where
  "desync_passes load_ok public_key next_payload =
     (case (handshake_desync load_ok public_key next_payload, frame next_payload) of
        (Inr (declared, taken, swallowed, remaining), Inr next_frame) \<Rightarrow>
          swallowed = next_frame \<and> remaining = []
      | _ \<Rightarrow> False)"

section \<open>A run of the proxy\<close>

lemma recv_exact_prefix:
  assumes "live segs" and "concat segs = a @ b"
  obtains segs' where "recv_exact segs (length a) = (Inr a, segs')" and "concat segs' = b" and "live segs'"
  using recv_exact_take [OF assms(1), of "length a"] assms(2) by auto

lemma proxy_run_captures:
  assumes "live ss" and "concat ss = hd0 @ real_pem @ rest" and "length hd0 = 4"
    and "unpack_be32 hd0 = Inr (length real_pem)" and "frame pem = Inr hello"
    and "live vs" and "concat vs = w @ name @ header @ fr" and "length w = 256"
    and "rsa_unwrap cr priv w = Some k" and "rsa_wrap cr real_pem k = Inr w'"
    and "length header = 4" and "unpack_be32 header = Inr (length fr)"
    and "rbind (decrypt_message cr fr k) (loads fl) = Inr v"
  shows "captured_payload (proxy_run cr fl pem priv name vs ss) = Some v \<and>
    captured (proxy_run cr fl pem priv name vs ss) \<and>
    proxy_error (proxy_run cr fl pem priv name vs ss) = None \<and>
    to_server (proxy_run cr fl pem priv name vs ss) = w' @ name @ header @ fr \<and>
    (\<exists>ss'. concat ss' = rest \<and> to_victim (proxy_run cr fl pem priv name vs ss) = hello @ forward_frames ss')"
proof -
  obtain ss1 where s1: "recv_exact ss 4 = (Inr hd0, ss1)" "concat ss1 = real_pem @ rest" "live ss1"
    by (rule recv_exact_prefix [OF assms(1,2)]) (simp add: assms(3))
  obtain ss2 where s2: "recv_exact ss1 (length real_pem) = (Inr real_pem, ss2)" "concat ss2 = rest"
    by (rule recv_exact_prefix [OF s1(3,2)]) simp
  obtain vs1 where v1: "recv_exact vs 256 = (Inr w, vs1)" "concat vs1 = name @ header @ fr" "live vs1"
    by (rule recv_exact_prefix [OF assms(6,7)]) (simp add: assms(8))
  obtain vs2 where v2: "recv_exact vs1 (length name) = (Inr name, vs2)" "concat vs2 = header @ fr" "live vs2"
    by (rule recv_exact_prefix [OF v1(3,2)]) simp
  obtain vs3 where v3: "recv_exact vs2 4 = (Inr header, vs3)" "concat vs3 = fr @ []" "live vs3"
    by (rule recv_exact_prefix [OF v2(3,2)]) (simp add: assms(11))
  obtain vs4 where v4: "recv_exact vs3 (length fr) = (Inr fr, vs4)"
    by (rule recv_exact_prefix [OF v3(3,2)]) simp
  have "proxy_run cr fl pem priv name vs ss =
      \<lparr>to_victim = hello @ forward_frames ss2, to_server = w' @ name @ header @ fr,
       captured_payload = Some v, captured = True, proxy_error = None\<rparr>"
    using assms(4,5,9,10,12,13)
    by (simp add: proxy_run_def new_proxy_def rsa_open_def s1(1) s2(1) v1(1) v2(1) v3(1) v4)
  then show ?thesis using s2(2) by auto
qed

lemma frame_split:
  assumes "frame d = Inr f"
  shows "\<exists>h. f = h @ d \<and> length h = 4 \<and> unpack_be32 h = Inr (length d)"
proof -
  have "length d < 2 ^ 32"
    using assms by (auto simp: frame_def pack_be32_def split: if_splits)
  then show ?thesis using frame_of_ok [of d] assms by auto
qed

end
