(* ===== verification/Runner.thy ===== *)
theory Runner
  imports Proxy
begin

text \<open>
  The programs around the demonstrations: \<open>demos/run_all.py\<close>, which runs both as subprocesses
  and reports, and \<open>main\<close> of \<open>demos/mitm_key_replacement_demo.py\<close>, which sets up a server, the
  proxy of theory Proxy and a client, and takes everything down again. What the operating system
  answers (exit codes, output, clocks, whether a port takes a connection) is a parameter.
\<close>

section \<open>The report\<close>

record demo =
  number :: pystr
  title :: pystr
  script :: pystr

definition DEMOS :: "demo list" where
  "DEMOS =
     [\<lparr>number = lit ''01'', title = lit ''Unauthenticated key exchange'',
       script = lit ''demos/mitm_key_replacement_demo.py''\<rparr>,
      \<lparr>number = lit ''02'', title = lit ''Handshake desynchronisation'',
       script = lit ''demos/handshake_desync_demo.py''\<rparr>]"

text \<open>
  \<open>subprocess.run(..., timeout=60, check=False)\<close>: the exit code with both outputs, or what it
  raises: \<open>TimeoutExpired\<close>, or \<open>OSError\<close> when the interpreter cannot be started.
\<close>

datatype run_error = TimeoutExpired | NotStarted exn

type_synonym run_outcome = "run_error + (int \<times> pystr \<times> pystr)"

definition rstrip :: "pystr \<Rightarrow> pystr" where
  "rstrip s = rev (dropWhile is_space (rev s))"

definition run_demo ::
  "(demo \<Rightarrow> run_outcome) \<Rightarrow> (demo \<Rightarrow> pystr) \<Rightarrow> demo \<Rightarrow> pystr list \<times> (run_error + bool)" where
  "run_demo run elapsed d =
     (case run d of
        Inl x \<Rightarrow> ([], Inl x)
      | Inr (returncode, stdout, stderr) \<Rightarrow>
          (let passed = (returncode = 0)
           in ([[], lit ''['' @ number d @ lit ''] '' @ title d,
                lit ''Command: python '' @ script d, replicate 72 45,
                (if rstrip stdout = [] then lit ''(no stdout)'' else rstrip stdout)] @
               (if str_strip stderr \<noteq> [] then [[], lit ''[stderr]'', rstrip stderr] else []) @
               [replicate 72 45,
                lit ''Result: '' @ (if passed then lit ''PASS'' else lit ''FAIL'') @ lit '' ('' @
                elapsed d @ lit ''s)''],
               Inr passed)))"

text \<open>The list comprehension of \<open>main\<close>: an exception of one demo ends it.\<close>

fun run_each ::
  "(demo \<Rightarrow> run_outcome) \<Rightarrow> (demo \<Rightarrow> pystr) \<Rightarrow> demo list \<Rightarrow> pystr list \<times> (run_error + bool list)" where
  "run_each run elapsed [] = ([], Inr [])"
| "run_each run elapsed (d # ds) =
     (case run_demo run elapsed d of
        (out, Inl x) \<Rightarrow> (out, Inl x)
      | (out, Inr b) \<Rightarrow>
          (case run_each run elapsed ds of
             (out', Inl x) \<Rightarrow> (out @ out', Inl x)
           | (out', Inr bs) \<Rightarrow> (out @ out', Inr (b # bs))))"

datatype run_exit = Returned | SystemExit nat | RunRaised run_error

definition run_all ::
  "(demo \<Rightarrow> run_outcome) \<Rightarrow> (demo \<Rightarrow> pystr) \<Rightarrow> pystr list \<times> run_exit" where
  "run_all run elapsed =
     (let header = [lit ''GuardedIM Local Vulnerability Demo Report'',
            lit ''Scope: localhost and in-process sockets only; no third-party targets.'']
      in case run_each run elapsed DEMOS of
           (out, Inl x) \<Rightarrow> (header @ out, RunRaised x)
         | (out, Inr results) \<Rightarrow>
             (let passed = length (filter id results); total = length results;
                  lines = header @ out @ [[], replicate 72 61,
                    lit ''Summary: '' @ int_str (int passed) @ lit ''/'' @ int_str (int total) @
                    lit '' demos passed.'']
              in if passed = total then (lines @ [lit ''Overall result: PASS''], Returned)
                 else (lines @ [lit ''Overall result: FAIL''], SystemExit 1)))"

definition demo_ok :: "run_outcome \<Rightarrow> bool" where
  "demo_ok r \<longleftrightarrow> (\<exists>so se. r = Inr (0, so, se))"

lemma filter_all_length: "length (filter P xs) = length xs \<longleftrightarrow> list_all P xs"
proof (induction xs)
  case (Cons x xs)
  then show ?case
    using le_imp_less_Suc [OF length_filter_le [of P xs]]
    by (auto simp del: length_filter_le)
qed simp

lemma run_demo_result:
  "snd (run_demo run el d) = (case run d of Inl x \<Rightarrow> Inl x | Inr (rc, so, se) \<Rightarrow> Inr (rc = 0))"
  by (simp add: run_demo_def Let_def split: sum.splits prod.splits)

lemma run_each_result:
  "snd (run_each run el ds) =
     (if list_all (\<lambda>d. \<not> isl (run d)) ds then Inr (map (\<lambda>d. demo_ok (run d)) ds)
      else Inl (projl (run (hd (dropWhile (\<lambda>d. \<not> isl (run d)) ds)))))"
proof (induction ds)
  case (Cons d ds)
  obtain out r where r: "run_demo run el d = (out, r)" by force
  obtain out' r' where r': "run_each run el ds = (out', r')" by force
  have "r = (case run d of Inl x \<Rightarrow> Inl x | Inr (rc, so, se) \<Rightarrow> Inr (rc = 0))"
    using run_demo_result [of run el d] r by simp
  then show ?case
    using Cons.IH r r' by (cases "run d") (auto simp: demo_ok_def split: sum.splits)
qed simp

text \<open>
  The verdict of the runner. It returns exactly when every demo ran and exited with 0, ends with
  exit code 1 when all ran and one did not, and otherwise with the exception of the first one
  that could not be run to its end; so \<open>Overall result: PASS\<close> is printed last exactly in the
  first case.\<close>

lemma run_all_verdict:
  "snd (run_all run el) =
     (if list_all (\<lambda>d. demo_ok (run d)) DEMOS then Returned
      else if list_all (\<lambda>d. \<not> isl (run d)) DEMOS then SystemExit 1
      else RunRaised (projl (run (hd (dropWhile (\<lambda>d. \<not> isl (run d)) DEMOS)))))"
proof (cases "list_all (\<lambda>d. \<not> isl (run d)) DEMOS")
  case True
  obtain out where r: "run_each run el DEMOS = (out, Inr (map (\<lambda>d. demo_ok (run d)) DEMOS))"
    using run_each_result [of run el DEMOS] True by (metis prod.collapse)
  show ?thesis
    using True by (simp add: run_all_def r Let_def filter_map comp_def filter_all_length list.pred_map)
next
  case False
  obtain out where r: "run_each run el DEMOS =
      (out, Inl (projl (run (hd (dropWhile (\<lambda>d. \<not> isl (run d)) DEMOS)))))"
    using run_each_result [of run el DEMOS] False by (metis prod.collapse)
  have "\<not> list_all (\<lambda>d. demo_ok (run d)) DEMOS"
  proof
    assume "list_all (\<lambda>d. demo_ok (run d)) DEMOS"
    then have "list_all (\<lambda>d. \<not> isl (run d)) DEMOS"
      by (rule list.pred_mono_strong) (auto simp: demo_ok_def)
    then show False using False by contradiction
  qed
  then show ?thesis using False by (simp add: run_all_def r)
qed

section \<open>Waiting for the server\<close>

text \<open>
  \<open>wait_for_port\<close>: \<open>now n\<close> is the clock, in milliseconds, when the \<open>n\<close>-th test of the loop reads
  it, \<open>probe n\<close> whether the connection attempted after it succeeds. A clock that stands still
  would keep the loop going for ever.
\<close>

partial_function (option) wait_loop ::
  "(nat \<Rightarrow> nat) \<Rightarrow> (nat \<Rightarrow> bool) \<Rightarrow> nat \<Rightarrow> nat \<Rightarrow> unit result option" where
  "wait_loop now probe deadline n =
     (if now n < deadline
      then if probe n then Some (Inr ()) else wait_loop now probe deadline (Suc n)
      else Some (Inl OSError))"

definition wait_for_port :: "(nat \<Rightarrow> nat) \<Rightarrow> (nat \<Rightarrow> bool) \<Rightarrow> nat \<Rightarrow> unit result option" where
  "wait_for_port now probe start = wait_loop now probe (start + 5000) 0"

lemma wait_loop_ends:
  assumes "\<And>n. now n + 100 \<le> now (Suc n)"
  shows "wait_loop now probe deadline n =
    Some (if \<exists>m\<ge>n. now m < deadline \<and> probe m then Inr () else Inl OSError)"
proof (induction "deadline - now n" arbitrary: n rule: less_induct)
  case less
  have mono: "now n \<le> now m" if "n \<le> m" for m
    using that
  proof (induction rule: dec_induct)
    case (step m)
    then show ?case using assms [of m] by simp
  qed simp
  show ?case
  proof (cases "now n < deadline \<and> \<not> probe n")
    case True
    then have "deadline - now (Suc n) < deadline - now n" using assms [of n] by linarith
    from less.hyps [OF this] have "wait_loop now probe deadline n =
        Some (if \<exists>m\<ge>Suc n. now m < deadline \<and> probe m then Inr () else Inl OSError)"
      using True by (subst wait_loop.simps) simp
    moreover have "(\<exists>m\<ge>Suc n. now m < deadline \<and> probe m) \<longleftrightarrow> (\<exists>m\<ge>n. now m < deadline \<and> probe m)"
      using True by (metis Suc_leD Suc_leI le_neq_implies_less)
    ultimately show ?thesis by simp
  next
    case False
    then consider "deadline \<le> now n" | "now n < deadline" "probe n" by linarith
    then show ?thesis
    proof cases
      case 1
      then have "wait_loop now probe deadline n = Some (Inl OSError)"
        by (subst wait_loop.simps) simp
      moreover have "\<not> now m < deadline" if "n \<le> m" for m using mono [OF that] 1 by simp
      ultimately show ?thesis by auto
    next
      case 2
      then show ?thesis by (subst wait_loop.simps) auto
    qed
  qed
qed

section \<open>The session of the proxy demonstration\<close>

text \<open>
  What \<open>main\<close> touches: the environment variables of the process, the temporary directory of the
  server's keys, the server process with its output pipe, the proxy's listener and the client's
  connection.
\<close>

record lab =
  environ :: "pystr \<rightharpoonup> pystr"
  keys_dir :: bool
  server_runs :: bool
  pipe_open :: bool
  proxy_made :: bool
  listener_open :: bool
  alice_made :: bool
  alice_open :: bool
  printed :: "pystr list"

text \<open>
  What the calls of \<open>main\<close> answer, in their order: \<open>w_listener\<close> and \<open>w_socket\<close> say whether a
  start of the proxy that took too long, or a \<open>connect\<close> that raised, left its socket open;
  \<open>w_sent\<close> is what \<open>send_message\<close> returns or raises, \<open>w_print\<close> what printing a line does; the
  two last fields are \<open>wait(timeout=5)\<close> after \<open>terminate\<close> and after \<open>kill\<close>.
\<close>

record mitm_world =
  w_started :: "unit result"
  w_listening :: "unit result"
  w_ready :: bool
  w_listener :: bool
  w_connect :: "unit result"
  w_socket :: bool
  w_sent :: "bool result"
  w_captured :: bool
  w_proxy :: proxy
  w_print :: "pystr \<Rightarrow> unit result"
  w_terminated :: bool
  w_killed :: bool

datatype mitm_exit = Passed | Exits pystr | Raises exn | RaisesTimeoutExpired

definition server_environ :: "(pystr \<rightharpoonup> pystr) \<Rightarrow> nat \<Rightarrow> pystr \<Rightarrow> (pystr \<rightharpoonup> pystr)" where
  "server_environ env port dir =
     env(lit ''IP_ADDRESS'' \<mapsto> lit ''127.0.0.1'', lit ''PORT'' \<mapsto> int_str (int port),
       lit ''GUARDEDIM_KEYS_DIR'' \<mapsto> dir)"

text \<open>\<open>print\<close>, line by line; a line that cannot be written to the console raises.\<close>

fun say :: "(pystr \<Rightarrow> unit result) \<Rightarrow> pystr list \<Rightarrow> lab \<Rightarrow> unit result \<times> lab" where
  "say out [] l = (Inr (), l)"
| "say out (x # xs) l =
     (case out x of
        Inl er \<Rightarrow> (Inl er, l)
      | Inr _ \<Rightarrow> say out xs (l\<lparr>printed := printed l @ [x]\<rparr>))"

definition mitm_head :: "pystr list" where
  "mitm_head =
     [lit ''[demo] Challenge 01: unauthenticated key exchange'',
      lit ''[demo] proxy replaced the server public key during the initial handshake'']"

definition mitm_fields :: "(nat \<Rightarrow> bool) \<Rightarrow> jobject \<Rightarrow> pystr list" where
  "mitm_fields pr q =
     [lit ''[demo] captured payload type: '' @ py_str pr (jget q (lit ''type'')),
      lit ''[demo] captured sender: '' @ py_str pr (jget q (lit ''from'')),
      lit ''[demo] captured recipient: '' @ py_str pr (jget q (lit ''to'')),
      lit ''[demo] captured plaintext: '' @ py_str pr (jget q (lit ''payload''))]"

definition mitm_verdict :: "pystr list" where
  "mitm_verdict =
     [lit ''[demo] PASS: a local MITM proxy decrypted the message after replacing the RSA key.'',
      lit ''[demo] Mitigation: authenticate the server key with certificate validation, fingerprint pinning, or another authenticated key exchange.'']"

text \<open>The messages and the verdict, on \<open>proxy.captured_payload or {}\<close>.\<close>

definition mitm_report :: "(nat \<Rightarrow> bool) \<Rightarrow> pystr \<Rightarrow> mitm_world \<Rightarrow> lab \<Rightarrow> mitm_exit \<times> lab" where
  "mitm_report pr message w l =
     (let captured = (case captured_payload (w_proxy w) of
            Some v \<Rightarrow> if truthy v then v else JObj [] | None \<Rightarrow> JObj [])
      in case captured of
           JObj q \<Rightarrow>
             (case say (w_print w) (mitm_head @ mitm_fields pr q) l of
                (Inl er, l1) \<Rightarrow> (Raises er, l1)
              | (Inr _, l1) \<Rightarrow>
                  if jget q (lit ''payload'') \<noteq> JStr message
                  then (Exits (lit ''[demo] expected the proxy to decrypt Alice's plaintext message''), l1)
                  else (case say (w_print w) mitm_verdict l1 of
                          (Inl er, l2) \<Rightarrow> (Raises er, l2)
                        | (Inr _, l2) \<Rightarrow> (Passed, l2)))
         | _ \<Rightarrow>
             (case say (w_print w) mitm_head l of
                (Inl er, l1) \<Rightarrow> (Raises er, l1)
              | (Inr _, l1) \<Rightarrow> (Raises AttributeError, l1)))"

text \<open>The \<open>try\<close> block.\<close>

definition mitm_body ::
  "(nat \<Rightarrow> bool) \<Rightarrow> pystr \<Rightarrow> nat \<Rightarrow> mitm_world \<Rightarrow> lab \<Rightarrow> mitm_exit \<times> lab" where
  "mitm_body pr message proxy_port w l =
     (case w_listening w of
        Inl x \<Rightarrow> (Raises x, l)
      | Inr _ \<Rightarrow>
          (let l1 = l\<lparr>proxy_made := True, listener_open := w_ready w \<or> w_listener w\<rparr>
           in if \<not> w_ready w then (Raises OSError, l1)
              else
                (let l2 = l1\<lparr>environ := (environ l1)(lit ''IP_ADDRESS'' \<mapsto> lit ''127.0.0.1'',
                       lit ''PORT'' \<mapsto> int_str (int proxy_port)), alice_made := True\<rparr>
                 in case w_connect w of
                      Inl x \<Rightarrow> (Raises x, l2\<lparr>alice_open := w_socket w\<rparr>)
                    | Inr _ \<Rightarrow>
                        (let l3 = l2\<lparr>alice_open := True\<rparr>
                         in case w_sent w of
                              Inl x \<Rightarrow> (Raises x, l3)
                            | Inr ok \<Rightarrow>
                                if \<not> ok
                                then (Exits (lit ''[demo] client refused to send demo message''), l3)
                                else if \<not> w_captured w then (Raises OSError, l3)
                                else case proxy_error (w_proxy w) of
                                       Some x \<Rightarrow> (Raises x, l3)
                                     | None \<Rightarrow> mitm_report pr message w l3))))"

text \<open>One \<open>if old is None: pop, else: assign\<close>.\<close>

definition put_back :: "pystr \<Rightarrow> pystr option \<Rightarrow> lab \<Rightarrow> lab" where
  "put_back k old l =
     (case old of
        None \<Rightarrow> l\<lparr>environ := (environ l)(k := None)\<rparr>
      | Some v \<Rightarrow> l\<lparr>environ := (environ l)(k \<mapsto> v)\<rparr>)"

text \<open>The \<open>finally\<close> block; an exception of its own replaces the exit of the body.\<close>

definition mitm_finally ::
  "pystr option \<Rightarrow> pystr option \<Rightarrow> mitm_world \<Rightarrow> mitm_exit \<times> lab \<Rightarrow> mitm_exit \<times> lab" where
  "mitm_finally old_ip old_port w xl =
     (let l1 = (if alice_made (snd xl) then (snd xl)\<lparr>alice_open := False\<rparr> else snd xl);
          l2 = (if proxy_made l1 then l1\<lparr>listener_open := False\<rparr> else l1);
          l3 = put_back (lit ''PORT'') old_port (put_back (lit ''IP_ADDRESS'') old_ip l2)
      in if w_terminated w \<or> w_killed w
         then (fst xl, l3\<lparr>server_runs := False, pipe_open := False\<rparr>)
         else (RaisesTimeoutExpired, l3))"

text \<open>\<open>main\<close>, inside \<open>with TemporaryDirectory()\<close>.\<close>

definition mitm_main ::
  "(nat \<Rightarrow> bool) \<Rightarrow> nat \<Rightarrow> mitm_world \<Rightarrow> lab \<Rightarrow> mitm_exit \<times> lab" where
  "mitm_main pr proxy_port w l =
     (let l1 = l\<lparr>keys_dir := True\<rparr>;
          (x, l2) =
            (case w_started w of
               Inl er \<Rightarrow> (Raises er, l1)
             | Inr _ \<Rightarrow>
                 mitm_finally (environ l1 (lit ''IP_ADDRESS'')) (environ l1 (lit ''PORT'')) w
                   (mitm_body pr (lit ''local MITM demo message'') proxy_port w
                      (l1\<lparr>server_runs := True, pipe_open := True\<rparr>)))
      in (x, l2\<lparr>keys_dir := False\<rparr>))"

section \<open>Properties\<close>

text \<open>
  Waiting ends. When each round of the loop takes at least the 100 ms it sleeps, \<open>wait_for_port\<close>
  returns after at most 50 rounds: at once when a connection is taken before the deadline,
  otherwise with \<open>TimeoutError\<close>, an \<open>OSError\<close>.\<close>

lemma wait_for_port_ends:
  assumes "\<And>n. now n + 100 \<le> now (Suc n)" and "start \<le> now 0"
  shows "wait_for_port now probe start =
    Some (if \<exists>m<50. now m < start + 5000 \<and> probe m then Inr () else Inl OSError)"
proof -
  have late: "start + 100 * m \<le> now m" for m
  proof (induction m)
    case (Suc m)
    then show ?case using assms(1) [of m] by simp
  qed (simp add: assms(2))
  have "m < 50" if "now m < start + 5000" for m using late [of m] that by linarith
  then have "(\<exists>m\<ge>0. now m < start + 5000 \<and> probe m) \<longleftrightarrow> (\<exists>m<50. now m < start + 5000 \<and> probe m)"
    by auto
  then show ?thesis
    unfolding wait_for_port_def wait_loop_ends [of now, OF assms(1)] by simp
qed

lemma put_back_fields [simp]:
  "environ (put_back k old l) = (environ l)(k := old)" "keys_dir (put_back k old l) = keys_dir l"
  "server_runs (put_back k old l) = server_runs l" "pipe_open (put_back k old l) = pipe_open l"
  "listener_open (put_back k old l) = listener_open l" "alice_open (put_back k old l) = alice_open l"
  "printed (put_back k old l) = printed l"
  by (cases old; simp add: put_back_def)+

lemma say_lab: "say out ls l = (r, l1) \<Longrightarrow> \<exists>p. l1 = l\<lparr>printed := p\<rparr>"
proof (induction ls arbitrary: l)
  case Nil
  then show ?case by (intro exI [of _ "printed l"]) simp
next
  case (Cons x ls)
  show ?case
  proof (cases "out x")
    case (Inl er)
    then show ?thesis using Cons.prems by (intro exI [of _ "printed l"]) simp
  next
    case (Inr u)
    then show ?thesis using Cons.IH [of "l\<lparr>printed := printed l @ [x]\<rparr>"] Cons.prems by simp
  qed
qed

lemma say_all: "isl (fst (say out ls l)) \<longleftrightarrow> \<not> list_all (\<lambda>x. out x = Inr ()) ls"
  by (induction ls arbitrary: l) (auto split: sum.splits)

text \<open>What the body of the session leaves for the \<open>finally\<close> block.\<close>

definition tidy_able :: "lab \<Rightarrow> lab \<Rightarrow> bool" where
  "tidy_able l l' \<longleftrightarrow>
     (\<forall>k. k \<noteq> lit ''IP_ADDRESS'' \<longrightarrow> k \<noteq> lit ''PORT'' \<longrightarrow> environ l' k = environ l k) \<and>
     (listener_open l' \<longrightarrow> proxy_made l') \<and> (alice_open l' \<longrightarrow> alice_made l') \<and>
     server_runs l' = server_runs l"

lemma mitm_report_lab: "\<exists>p. snd (mitm_report pr m w l) = l\<lparr>printed := p\<rparr>"
proof -
  have "\<exists>p. l = l\<lparr>printed := p\<rparr>" by (intro exI [of _ "printed l"]) simp
  then show ?thesis
    unfolding mitm_report_def Let_def
    by (auto split: json.splits prod.splits sum.splits dest!: say_lab)
qed

lemma mitm_report_fields:
  "environ (snd (mitm_report pr m w l)) = environ l"
  "server_runs (snd (mitm_report pr m w l)) = server_runs l"
  "proxy_made (snd (mitm_report pr m w l)) = proxy_made l"
  "listener_open (snd (mitm_report pr m w l)) = listener_open l"
  "alice_made (snd (mitm_report pr m w l)) = alice_made l"
  "alice_open (snd (mitm_report pr m w l)) = alice_open l"
  using mitm_report_lab [of pr m w l] by auto

lemma mitm_body_tidy:
  assumes "\<not> listener_open l" and "\<not> alice_open l"
  shows "tidy_able l (snd (mitm_body pr m port w l))"
  using assms by (auto simp: tidy_able_def mitm_body_def mitm_report_fields Let_def
      split: sum.splits option.splits)

definition all_printed :: "mitm_world \<Rightarrow> pystr list \<Rightarrow> bool" where
  "all_printed w ls \<longleftrightarrow> list_all (\<lambda>x. w_print w x = Inr ()) ls"

lemma say_cases:
  obtains l1 where "say (w_print w) ls l = (Inr (), l1)" "all_printed w ls"
  | er l1 where "say (w_print w) ls l = (Inl er, l1)" "\<not> all_printed w ls"
  using say_all [of "w_print w" ls l]
  by (cases "say (w_print w) ls l"; cases "fst (say (w_print w) ls l)") (auto simp: all_printed_def)

lemma report_object:
  "fst (case say (w_print w) (mitm_head @ mitm_fields pr q) l of
     (Inl er, l1) \<Rightarrow> (Raises er, l1)
   | (Inr _, l1) \<Rightarrow>
       if jget q (lit ''payload'') \<noteq> JStr m then (Exits t, l1)
       else (case say (w_print w) mitm_verdict l1 of (Inl er, l2) \<Rightarrow> (Raises er, l2) | (Inr _, l2) \<Rightarrow> (Passed, l2))) =
   Passed \<longleftrightarrow>
   jget q (lit ''payload'') = JStr m \<and> all_printed w (mitm_head @ mitm_fields pr q @ mitm_verdict)"
proof (cases rule: say_cases [of w "mitm_head @ mitm_fields pr q" l])
  case (1 l1)
  then show ?thesis
    by (cases rule: say_cases [of w mitm_verdict l1]) (auto simp: all_printed_def)
qed (auto simp: all_printed_def)

lemma mitm_report_passed:
  "fst (mitm_report pr m w l) = Passed \<longleftrightarrow>
   (\<exists>q. captured_payload (w_proxy w) = Some (JObj q) \<and> jget q (lit ''payload'') = JStr m \<and>
     all_printed w (mitm_head @ mitm_fields pr q @ mitm_verdict))"
proof -
  have e: "jget [] (lit ''payload'') = JNull" by (simp add: jget_def dict_get_def)
  have other: "fst (case say (w_print w) mitm_head l of
      (Inl er, l1) \<Rightarrow> (Raises er, l1) | (Inr _, l1) \<Rightarrow> (Raises AttributeError, l1)) \<noteq> Passed"
    by (auto split: prod.splits sum.splits)
  show ?thesis
  proof (cases "captured_payload (w_proxy w)")
    case None
    then show ?thesis unfolding mitm_report_def Let_def by (simp add: report_object e)
  next
    case (Some v)
    then show ?thesis
    proof (cases v)
      case (JObj q)
      then show ?thesis
        unfolding mitm_report_def Let_def using Some e
        by (cases "q = []") (simp_all add: report_object)
    qed (simp_all add: mitm_report_def Let_def report_object e other del: truthy.simps)
  qed
qed

lemma mitm_finally_fields:
  "environ (snd (mitm_finally ip po w (x, l))) =
    (environ l)(lit ''IP_ADDRESS'' := ip, lit ''PORT'' := po)"
  "listener_open (snd (mitm_finally ip po w (x, l))) \<longleftrightarrow> listener_open l \<and> \<not> proxy_made l"
  "alice_open (snd (mitm_finally ip po w (x, l))) \<longleftrightarrow> alice_open l \<and> \<not> alice_made l"
  "server_runs (snd (mitm_finally ip po w (x, l))) \<longleftrightarrow>
    server_runs l \<and> \<not> w_terminated w \<and> \<not> w_killed w"
  "fst (mitm_finally ip po w (x, l)) =
    (if w_terminated w \<or> w_killed w then x else RaisesTimeoutExpired)"
  by (simp_all add: mitm_finally_def Let_def)

definition new_lab :: "(pystr \<rightharpoonup> pystr) \<Rightarrow> lab" where
  "new_lab env =
     \<lparr>environ = env, keys_dir = False, server_runs = False, pipe_open = False, proxy_made = False,
      listener_open = False, alice_made = False, alice_open = False, printed = []\<rparr>"

text \<open>
  Who talks to whom: the server process finds the free port in its environment and its keys in
  the temporary directory; the client that \<open>main\<close> makes finds the proxy's port in its own.
\<close>

lemma demo_addresses:
  assumes "decimals_ok dec" and "port < 65536" and "proxy_port < 65536"
  shows "env_address dec (server_environ env port dir) = Inr (lit ''127.0.0.1'', int port)"
    and "key_paths base_dir (server_environ env port dir) =
      (os_path_join dir (lit ''private_key.pem''), os_path_join dir (lit ''public_key.pem''))"
    and "w_listening w = Inr () \<Longrightarrow> w_ready w \<Longrightarrow>
      env_address dec (environ (snd (mitm_body pr m proxy_port w l))) = Inr (lit ''127.0.0.1'', int proxy_port)"
proof -
  have p: "py_int dec (int_str (int n)) = Inr (int n)" if "n < 65536" for n
  proof (rule py_int_int_str [OF assms(1)])
    have "length (dec_nat n) \<le> 5" using length_dec_nat [of n 5] that by simp
    then show "length (dec_nat (nat \<bar>int n\<bar>)) \<le> max_int_digits" by (simp add: max_int_digits_def)
  qed
  have ne: "lit ''PORT'' \<noteq> lit ''IP_ADDRESS''" "lit ''GUARDEDIM_KEYS_DIR'' \<noteq> lit ''PORT''"
    "lit ''GUARDEDIM_KEYS_DIR'' \<noteq> lit ''IP_ADDRESS''"
    by (simp_all add: py_eval)
  show "env_address dec (server_environ env port dir) = Inr (lit ''127.0.0.1'', int port)"
    using p [OF assms(2)] ne by (simp add: env_address_def getenv_def server_environ_def rbind_def)
  show "key_paths base_dir (server_environ env port dir) =
      (os_path_join dir (lit ''private_key.pem''), os_path_join dir (lit ''public_key.pem''))"
    by (simp add: key_paths_def getenv_def server_environ_def)
  assume "w_listening w = Inr ()" and "w_ready w"
  then have "environ (snd (mitm_body pr m proxy_port w l)) = (environ l)(lit ''IP_ADDRESS'' \<mapsto> lit ''127.0.0.1'',
      lit ''PORT'' \<mapsto> int_str (int proxy_port))"
    by (auto simp: mitm_body_def Let_def mitm_report_fields split: sum.splits option.splits)
  then show "env_address dec (environ (snd (mitm_body pr m proxy_port w l))) =
      Inr (lit ''127.0.0.1'', int proxy_port)"
    using p [OF assms(3)] ne by (simp add: env_address_def getenv_def rbind_def)
qed

text \<open>C40
  The proxy demonstration passes exactly when it should, and tidies up. Whatever the server
  process, the ports, the client and the proxy do, the session ends with the environment
  variables of the process exactly as they were, its directory of keys removed, the proxy's
  listener and the client's connection closed, and the server's process ended, unless it
  survives both the termination and the kill within their five seconds, in which case that is
  what \<open>main\<close> reports instead of its verdict. It passes exactly when everything started, the
  client's \<open>send_message\<close> returned \<open>True\<close> (it may also refuse, or raise when the proxy has closed
  the connection), the proxy, without an error, captured an object with the client's very
  message, and every line of the report could be printed.\<close>

theorem mitm_session:
  "environ (snd (mitm_main pr port w (new_lab env))) = env \<and>
   \<not> keys_dir (snd (mitm_main pr port w (new_lab env))) \<and>
   \<not> listener_open (snd (mitm_main pr port w (new_lab env))) \<and>
   \<not> alice_open (snd (mitm_main pr port w (new_lab env))) \<and>
   (server_runs (snd (mitm_main pr port w (new_lab env))) \<longleftrightarrow>
     w_started w = Inr () \<and> \<not> w_terminated w \<and> \<not> w_killed w) \<and>
   (fst (mitm_main pr port w (new_lab env)) = Passed \<longleftrightarrow>
     w_started w = Inr () \<and> w_listening w = Inr () \<and> w_ready w \<and> w_connect w = Inr () \<and> w_sent w = Inr True \<and>
     w_captured w \<and> proxy_error (w_proxy w) = None \<and>
     (\<exists>q. captured_payload (w_proxy w) = Some (JObj q) \<and>
       jget q (lit ''payload'') = JStr (lit ''local MITM demo message'') \<and>
       all_printed w (mitm_head @ mitm_fields pr q @ mitm_verdict)) \<and>
     (w_terminated w \<or> w_killed w))"
proof (cases "w_started w")
  case (Inl x)
  then show ?thesis by (simp add: mitm_main_def new_lab_def)
next
  case (Inr u)
  let ?l = "(new_lab env)\<lparr>keys_dir := True, server_runs := True, pipe_open := True\<rparr>"
  let ?m = "lit ''local MITM demo message''"
  obtain x l2 where b: "mitm_body pr ?m port w ?l = (x, l2)" by force
  have t: "tidy_able ?l l2"
  proof -
    have "tidy_able ?l (snd (mitm_body pr ?m port w ?l))"
      by (rule mitm_body_tidy) (simp_all add: new_lab_def)
    then show ?thesis unfolding b snd_conv .
  qed
  have passed: "x = Passed \<longleftrightarrow> w_listening w = Inr () \<and> w_ready w \<and> w_connect w = Inr () \<and> w_sent w = Inr True \<and>
      w_captured w \<and> proxy_error (w_proxy w) = None \<and>
      (\<exists>q. captured_payload (w_proxy w) = Some (JObj q) \<and> jget q (lit ''payload'') = JStr ?m \<and>
        all_printed w (mitm_head @ mitm_fields pr q @ mitm_verdict))"
    using arg_cong [OF b, of fst] mitm_report_passed
    by (auto simp: mitm_body_def Let_def split: sum.splits option.splits if_splits)
  let ?F = "mitm_finally (env (lit ''IP_ADDRESS'')) (env (lit ''PORT'')) w (x, l2)"
  have m: "mitm_main pr port w (new_lab env) = (fst ?F, (snd ?F)\<lparr>keys_dir := False\<rparr>)"
    using b by (simp add: mitm_main_def Inr new_lab_def case_prod_unfold Let_def)
  have "environ (snd ?F) = env"
    using t unfolding mitm_finally_fields by (auto simp: tidy_able_def new_lab_def fun_eq_iff)
  moreover have "\<not> listener_open (snd ?F)" "\<not> alice_open (snd ?F)"
    "server_runs (snd ?F) \<longleftrightarrow> \<not> w_terminated w \<and> \<not> w_killed w"
    using t unfolding mitm_finally_fields by (auto simp: tidy_able_def new_lab_def)
  moreover have "fst ?F = Passed \<longleftrightarrow> x = Passed \<and> (w_terminated w \<or> w_killed w)"
    unfolding mitm_finally_fields by simp
  ultimately show ?thesis
    unfolding m passed Inr by simp
qed

end
