(* ===== verification/Widgets.thy ===== *)
theory Widgets
  imports Scenario
begin

text \<open>
  The wiring of the window: what \<open>setup_widgets\<close> and \<open>__init__\<close> of \<open>client/chat_gui.py\<close> bind to
  which widget, the states of the buttons, and how Tk turns what happens on a widget into a
  method of theory Gui: a bound event always runs its handler, a button runs its command unless
  it is disabled, and an event with nothing bound does nothing.
\<close>

section \<open>The wiring\<close>

datatype widget = User_listbox | Chat_frame | Entry | Send_button | Upload_button | New_group_button | Window

datatype handler = Switch_user | Send | Upload | New_group_dialog | On_close

text \<open>\<open>bind("<<ListboxSelect>>", self.switch_user)\<close>.\<close>

definition listbox_binding :: "widget \<times> string \<times> handler option" where
  "listbox_binding = (User_listbox, ''<<ListboxSelect>>'', Some Switch_user)"

text \<open>
  \<open>bind("<Configure>", self.chat_canvas.configure(...))\<close>: the argument is the value of the call,
  which is \<open>None\<close>; with it Tk only looks the binding up, and nothing is bound.
\<close>

definition chat_frame_binding :: "widget \<times> string \<times> handler option" where
  "chat_frame_binding = (Chat_frame, ''<Configure>'', None)"

definition entry_binding :: "widget \<times> string \<times> handler option" where
  "entry_binding = (Entry, ''<Return>'', Some Send)"

definition close_protocol :: "widget \<times> string \<times> handler option" where
  "close_protocol = (Window, ''WM_DELETE_WINDOW'', Some On_close)"

text \<open>The three buttons with their commands; the states are the fields of the window.\<close>

definition button_commands :: "(widget \<times> string \<times> handler) list" where
  "button_commands =
     [(Send_button, ''Send'', Send), (Upload_button, ''Upload'', Upload),
      (New_group_button, ''New Group'', New_group_dialog)]"

definition bound :: "widget \<Rightarrow> string \<Rightarrow> handler option" where
  "bound w ev =
     (case filter (\<lambda>(w', ev', h). w' = w \<and> ev' = ev)
        [listbox_binding, chat_frame_binding, entry_binding, close_protocol] of
        (_, _, h) # _ \<Rightarrow> h
      | [] \<Rightarrow> None)"

definition enabled :: "widget \<Rightarrow> gui \<Rightarrow> bool" where
  "enabled w g =
     (if w = Send_button then send_on g else if w = Upload_button then upload_on g
      else w = New_group_button)"

text \<open>
  What Tk delivers: an event on a widget (with the rows selected when it is delivered), a click
  with the mouse, text typed into the entry. The dialogs a handler opens answer with the three
  last components.
\<close>

datatype ui_event =
    Event widget string "nat list"
  | Click widget "pystr option" "pystr option" pystr
  | Typed pystr

fun run_handler ::
  "cenv \<Rightarrow> (nat \<Rightarrow> pystr) \<Rightarrow> handler \<Rightarrow> nat list \<Rightarrow> pystr option \<Rightarrow> pystr option \<Rightarrow> pystr \<Rightarrow>
   gui client \<Rightarrow> gui client" where
  "run_handler ke now Switch_user sel gn ms path x = gui_step ke now x (Select sel)"
| "run_handler ke now Send sel gn ms path x = gui_step ke now x Press_send"
| "run_handler ke now Upload sel gn ms path x = gui_step ke now x (Pick_file path)"
| "run_handler ke now New_group_dialog sel gn ms path x = gui_step ke now x (New_group gn ms)"
| "run_handler ke now On_close sel gn ms path x = gui_step ke now x Close_window"

definition ui_step :: "cenv \<Rightarrow> (nat \<Rightarrow> pystr) \<Rightarrow> ui_event \<Rightarrow> gui client \<Rightarrow> gui client" where
  "ui_step ke now ev x =
     (case ev of
        Event w name sel \<Rightarrow>
          (case bound w name of
             None \<Rightarrow> x
           | Some h \<Rightarrow> run_handler ke now h sel None None [] x)
      | Click w gn ms path \<Rightarrow>
          if \<not> enabled w (owner x) then x
          else (case filter (\<lambda>(w', label, h). w' = w) button_commands of
                  (_, _, h) # _ \<Rightarrow> run_handler ke now h [] gn ms path x
                | [] \<Rightarrow> x)
      | Typed t \<Rightarrow> gui_step ke now x (Type_text t))"

text \<open>A session: acts on the widgets and bytes for the receive thread, in any order.\<close>

fun ui_session ::
  "cenv \<Rightarrow> (nat \<Rightarrow> pystr) \<Rightarrow> (ui_event + bytes) list \<Rightarrow> gui client \<Rightarrow> gui client" where
  "ui_session ke now [] x = x"
| "ui_session ke now (Inl ev # evs) x = ui_session ke now evs (ui_step ke now ev x)"
| "ui_session ke now (Inr bs # evs) x = ui_session ke now evs (gui_step ke now x (Arrive bs))"

text \<open>Every act on a widget is nothing, or one of the steps of a session of Gui.\<close>

lemma run_handler_step: "\<exists>e. run_handler ke now h sel gn ms path x = gui_step ke now x e"
  by (cases h) (simp_all only: run_handler.simps, blast+)

lemma ui_step_gui: "ui_step ke now ev x = x \<or> (\<exists>e. ui_step ke now ev x = gui_step ke now x e)"
proof (cases ev)
  case (Event w name sel)
  then show ?thesis
    using run_handler_step by (cases "bound w name") (simp_all add: ui_step_def)
next
  case (Click w gn ms path)
  then show ?thesis
    using run_handler_step by (auto simp: ui_step_def split: list.splits)
next
  case (Typed t)
  then have "ui_step ke now ev x = gui_step ke now x (Type_text t)"
    by (simp only: ui_step_def ui_event.case)
  then show ?thesis by blast
qed

section \<open>Controls\<close>

text \<open>What only the user's own acts change.\<close>

definition same_controls :: "gui \<Rightarrow> gui \<Rightarrow> bool" where
  "same_controls g g' \<longleftrightarrow>
     send_on g' = send_on g \<and> upload_on g' = upload_on g \<and> g_title g' = g_title g \<and>
     active_user g' = active_user g \<and> g_username g' = g_username g"

lemma controls_fields [simp]:
  "send_on (update_chat_display g) = send_on g" "upload_on (update_chat_display g) = upload_on g"
  "g_title (update_chat_display g) = g_title g"
  "send_on (add_note u n g) = send_on g" "upload_on (add_note u n g) = upload_on g"
  "g_title (add_note u n g) = g_title g"
  by (simp_all add: update_chat_display_def add_note_def)

lemma same_controls_message: "same_controls g (snd (gui_message now u m sender g))"
  unfolding gui_message_def Let_def by (auto simp: same_controls_def split: sum.splits)

lemma same_controls_users: "same_controls g (snd (gui_users v g))"
  by (auto simp: gui_users_def list_users_def know_users_def same_controls_def Let_def split: json.splits)

interpretation gc: callback_contract "gui_callbacks now" same_controls for now
  by unfold_locales
    (auto simp: gui_callbacks_def same_controls_message same_controls_users, auto simp: same_controls_def)

definition controls_ok :: "gui \<Rightarrow> bool" where
  "controls_ok g \<longleftrightarrow>
     send_on g = upload_on g \<and> (send_on g \<longrightarrow> (\<exists>u. active_user g = Some u \<and> u \<noteq> []))"

definition controls_keep :: "gui \<Rightarrow> gui \<Rightarrow> bool" where
  "controls_keep g g' \<longleftrightarrow> (controls_ok g \<longrightarrow> controls_ok g')"

lemma same_controls_keep: "same_controls g g' \<Longrightarrow> controls_keep g g'"
  by (simp add: same_controls_def controls_keep_def controls_ok_def)

interpretation gk: callback_contract "gui_callbacks now" controls_keep for now
  by unfold_locales
    (simp add: controls_keep_def, simp add: controls_keep_def,
     rule same_controls_keep [OF gc.message_step], rule same_controls_keep [OF gc.users_step])

lemma open_group_controls:
  "send_on (open_group gn g) = send_on g" "upload_on (open_group gn g) = upload_on g"
  "g_title (open_group gn g) = g_title g" "active_user (open_group gn g) = Some (35 # gn)"
  by (simp_all add: open_group_def Let_def)

lemma open_group_controls_keep: "controls_keep g (open_group gn g)"
  by (simp add: controls_keep_def controls_ok_def open_group_controls)

lemma note_own_controls: "same_controls g (note_own now m g)"
  by (simp add: note_own_def same_controls_def)

lemma owner_controls:
  "(\<And>g. controls_keep g (f g)) \<Longrightarrow> owner_steps controls_keep (on_owner f)"
  by (simp add: owner_steps_def on_owner_def)

lemma gui_step_controls: "controls_keep (owner x) (owner (gui_step ke now x ev))"
proof (cases ev)
  case (Arrive bs)
  then show ?thesis using gk.receive_loop_step by simp
next
  case (Select sel)
  then show ?thesis
    by (auto simp: on_owner_def switch_user_def Let_def controls_keep_def controls_ok_def split: list.splits)
next
  case (Type_text t)
  then show ?thesis by (simp add: on_owner_def type_text_def controls_keep_def controls_ok_def)
next
  case Press_send
  have s: "owner_steps controls_keep (abind m (\<lambda>ok. on_owner (\<lambda>g.
      (if ok then note_own now t g else g)\<lparr>entry_field := []\<rparr>)))"
    if "owner_steps controls_keep m" for m t
  proof (intro gk.abind_steps owner_controls that)
    fix ok :: bool and g
    have "controls_keep g (if ok then note_own now t g else g)"
      using same_controls_keep [OF note_own_controls] gk.same by simp
    then show "controls_keep g ((if ok then note_own now t g else g)\<lparr>entry_field := []\<rparr>)"
      by (simp add: controls_keep_def controls_ok_def)
  qed
  show ?thesis
    unfolding Press_send gui_step.simps gui_send_def Let_def
    using gk.same by (auto split: option.splits intro!: gk.steps_at [OF s] gk.send_steps)
next
  case (New_group gn ms)
  have s: "owner_steps controls_keep (abind (create_group ke (gui_callbacks now) n l)
      (\<lambda>ok. if ok then on_owner (open_group n) else system_note (gui_callbacks now) t))" for n l t
    by (intro gk.abind_steps gk.send_steps) (auto intro: owner_controls open_group_controls_keep gk.note_steps)
  show ?thesis
    unfolding New_group gui_step.simps new_group_def Let_def using gk.same
    by (auto split: option.splits intro: gk.steps_at [OF s] gk.steps_at [OF gk.note_steps(1)])
next
  case (Pick_file path)
  show ?thesis
    unfolding Pick_file gui_step.simps upload_def using gk.same
    by (auto split: option.splits intro!: gk.steps_at gk.abind_steps gk.send_steps gk.areturn_steps)
next
  case Close_window
  then show ?thesis
    using gk.same by (simp add: on_close_def disconnect_def close_link_def split: link.splits)
qed

lemma ui_step_controls: "controls_keep (owner x) (owner (ui_step ke now ev x))"
  using ui_step_gui [of ke now ev x] gui_step_controls gk.same by metis

lemma ui_session_controls: "controls_keep (owner x) (owner (ui_session ke now evs x))"
proof (induction evs arbitrary: x)
  case Nil
  show ?case using gk.same by simp
next
  case (Cons ev evs)
  show ?case
  proof (cases ev)
    case (Inl act)
    show ?thesis
      unfolding Inl ui_session.simps by (rule gk.chain [OF ui_step_controls Cons.IH])
  next
    case (Inr bs)
    show ?thesis
      unfolding Inr ui_session.simps by (rule gk.chain [OF gui_step_controls Cons.IH])
  qed
qed

section \<open>Properties\<close>

text \<open>C39
  The buttons and the selected conversation. In every session, whatever arrives and whatever the
  user does with the widgets, Send and Upload are enabled together, and only while a conversation
  is selected; while they are disabled, clicking them does nothing. But selecting is not the only
  way to a conversation: when the dialog of New Group succeeds while they are disabled, the new
  group is the selected conversation, yet both buttons stay disabled and the title of the window
  stays as it was, although the Return key in the entry sends to the group.\<close>

theorem buttons_and_conversation:
  assumes "start_gui ke dial name = Some (r, x0)" and "x = ui_session ke now evs x0"
    and "\<not> send_on (owner x)" and "gn \<noteq> []" and "ms \<noteq> []"
    and "create_group ke (gui_callbacks now) gn (g_username (owner x) # map str_strip (split_acc 44 [] ms)) x =
      (Inr True, y)"
    and "z = ui_step ke now (Click New_group_button (Some gn) (Some ms) []) x"
  shows "send_on (owner (ui_session ke now evs' x0)) = upload_on (owner (ui_session ke now evs' x0)) \<and>
    (send_on (owner (ui_session ke now evs' x0)) \<longrightarrow>
      (\<exists>u. active_user (owner (ui_session ke now evs' x0)) = Some u \<and> u \<noteq> [])) \<and>
    active_user (owner z) = Some (35 # gn) \<and> g_title (owner z) = g_title (owner x) \<and>
    ui_step ke now (Click Send_button a b path) z = z \<and>
    ui_step ke now (Click Upload_button a b path) z = z \<and>
    ui_step ke now (Event Entry ''<Return>'' sel) z = snd (gui_send ke now z)"
proof -
  obtain u where "owner x0 = new_gui u" using start_gui_owner [OF assms(1)] by blast
  then have "controls_ok (owner x0)" by (simp add: new_gui_def controls_ok_def)
  then have ok: "controls_ok (owner (ui_session ke now evs x0))" for evs
    using ui_session_controls [of x0 ke now evs] by (simp add: controls_keep_def)
  have "\<not> length (g_username (owner x) # map str_strip (split_acc 44 [] ms)) < 2"
    using split_acc_some [of 44 "[]" ms] by (simp add: Suc_le_eq not_less)
  then have z: "z = y\<lparr>owner := open_group gn (owner y)\<rparr>"
    using assms(4-7) by (simp add: ui_step_def enabled_def button_commands_def new_group_def Let_def
        abind_def on_owner_def)
  have "owner_steps same_controls (create_group ke (gui_callbacks now) gn
      (g_username (owner x) # map str_strip (split_acc 44 [] ms)))" by (rule gc.send_steps)
  from owner_stepsD [OF this assms(6)] have c: "same_controls (owner x) (owner y)" .
  have off: "\<not> send_on (owner z)" "\<not> upload_on (owner z)"
    using assms(2,3) ok [of evs] c
    by (simp_all add: z open_group_controls same_controls_def controls_ok_def)
  have "ui_step ke now (Event Entry ''<Return>'' sel) z = snd (gui_send ke now z)"
    by (simp add: ui_step_def bound_def listbox_binding_def chat_frame_binding_def entry_binding_def
        close_protocol_def)
  moreover have "ui_step ke now (Click Send_button a b path) z = z"
    "ui_step ke now (Click Upload_button a b path) z = z"
    using off by (simp_all add: ui_step_def enabled_def)
  ultimately show ?thesis
    using ok [of evs'] c by (simp add: controls_ok_def z open_group_controls same_controls_def)
qed

text \<open>
  The scroll region of the conversation is computed once, before there is any message: the event that
  should recompute it is bound to nothing.
\<close>

lemma configure_does_nothing: "ui_step ke now (Event Chat_frame ''<Configure>'' sel) x = x"
  by (simp add: ui_step_def bound_def listbox_binding_def chat_frame_binding_def entry_binding_def
      close_protocol_def)

lemma toy_group_creation:
  assumes "username x = alice" and "link x = Link True out" and "aes_key_ok (aes_key x)"
  shows "\<exists>y. create_group toy_cenv cb team [alice, bob] x = (Inr True, y)"
proof -
  let ?v = "JObj (group_request alice team [alice, bob] (c_stamp toy_cenv x))"
  have "json_wf (k_float toy_cenv) ?v"
    using str_wf_name [OF toy_names(1)] str_wf_name [OF toy_names(2)] str_wf_name [OF toy_names(4)]
      c_stamp_ok(1) [OF toy_cenv_ok(1)]
    by (simp add: group_request_def dict_ok_def)
  moreover have "length (dumps ?v) + 28 \<le> MAX_FRAME_SIZE"
    by (simp add: group_request_def c_stamp_def toy_cenv_def alice_def bob_def team_def py_eval
        dumps_str_def esc_char_def size_limits)
  ultimately obtain enc y where "send_encrypted toy_cenv (dumps ?v) (c_tick x) = (Inr (), y)"
    using send_encrypted_writes [OF toy_cenv_ok(1), of "c_tick x" out ?v] assms(2,3)
    by (auto simp: c_tick_def)
  then show ?thesis
    using assms(1) by (simp add: create_group_def abind_def areturn_def)
qed

theorem buttons_and_conversation_witness:
  "\<exists>r x0 z. start_gui toy_cenv (Some [[9]]) (Some alice) = Some (r, x0) \<and>
    z = ui_step toy_cenv (\<lambda>i. []) (Click New_group_button (Some team) (Some bob) []) x0 \<and>
    active_user (owner z) = Some (35 # team) \<and>
    ui_step toy_cenv (\<lambda>i. []) (Click Send_button None None []) z = z"
proof -
  let ?c = "new_client toy_cenv alice (new_gui alice)"
  have k: "length (aes_key ?c) \<le> 190" "aes_key_ok (aes_key ?c)"
    by (simp_all add: new_client_def generate_aes_key_def toy_cenv_def aes_key_ok_def)
  have "rsa_pair (k_crypto toy_cenv) [9] []" by (simp add: toy_cenv_def toy_rsa_pair)
  then obtain w where w: "connect toy_cenv (Some [[9]]) ?c =
      (Inr [], ?c\<lparr>link := Link True (w @ map of_nat (username ?c))\<rparr>)"
    using connect_writes [of ?c toy_cenv "[9]" "[]" "[]"] k(1) by (auto simp: new_client_def)
  define x0 where "x0 = ?c\<lparr>link := Link True (w @ map of_nat (username ?c))\<rparr>"
  have s: "start_gui toy_cenv (Some [[9]]) (Some alice) = Some (Inr [], x0)"
    using w by (simp add: start_gui_def x0_def alice_def)
  have o: "owner x0 = new_gui alice" "username x0 = alice"
    by (simp_all add: x0_def new_client_def)
  obtain y where y: "create_group toy_cenv (gui_callbacks (\<lambda>i. [])) team [alice, bob] x0 = (Inr True, y)"
    using toy_group_creation [of x0] k(2) o(2) by (auto simp: x0_def)
  have "g_username (owner x0) # map str_strip (split_acc 44 [] bob) = [alice, bob]"
    by (simp add: o new_gui_def bob_def py_eval str_strip_def strip_by_def is_space_def)
  with y have "create_group toy_cenv (gui_callbacks (\<lambda>i. [])) team
      (g_username (owner x0) # map str_strip (split_acc 44 [] bob)) x0 = (Inr True, y)" by simp
  from buttons_and_conversation [OF s, of x0 "\<lambda>i. []" "[]", OF _ _ _ _ this refl, of "[]" None None "[]" "[]"]
  show ?thesis
    using s by (simp add: o new_gui_def team_def bob_def)
qed

end
