(* ===== verification/Startup.thy ===== *)
theory Startup
  imports Framing Environ
begin

text \<open>
  The start of \<open>server/server.py\<close>: the two key files, \<open>generate_keys\<close>, and \<open>main\<close> with its
  accept loop. Key generation is the parameter \<open>keygen\<close>, the pair of PEM texts a call returns;
  \<open>load_ok\<close> is whether \<open>load_pem_private_key\<close> accepts a text. A private key is represented
  by its PEM text. The address comes from the environment, as in Environ; \<open>free\<close> is whether a
  port can be bound.
\<close>

record key_files =
  private_file :: "bytes option"
  public_file :: "bytes option"

text \<open>
  \<open>generate_keys\<close>. The two files are written one after the other; \<open>written\<close> says how many of
  the two writes happen, the second being lost when the process is stopped between them.
\<close>

definition generate_keys :: "bytes \<times> bytes \<Rightarrow> nat \<Rightarrow> key_files \<Rightarrow> key_files" where
  "generate_keys keygen written d =
     (let d1 = (if 1 \<le> written then d\<lparr>private_file := Some (fst keygen)\<rparr> else d)
      in if 2 \<le> written then d1\<lparr>public_file := Some (snd keygen)\<rparr> else d1)"

text \<open>
  The connections that are accepted, each with whether its greeting can be written: those that
  were greeted and got a thread, with the bytes written to them, and the exception that ended
  the loop. No exception is caught in the loop.
\<close>

fun accept_loop :: "bytes \<Rightarrow> (nat \<times> bool) list \<Rightarrow> (nat \<times> bytes) list \<times> exn option" where
  "accept_loop public_key [] = ([], None)"
| "accept_loop public_key ((c, up) # cs) =
     (case frame public_key of
        Inl x \<Rightarrow> ([], Some x)
      | Inr hello \<Rightarrow>
          if \<not> up then ([], Some OSError)
          else (let (greeted, stop) = accept_loop public_key cs in ((c, hello) # greeted, stop)))"

text \<open>\<open>server.bind((IP, PORT))\<close>.\<close>

definition bind_address :: "(pystr \<Rightarrow> int \<Rightarrow> bool) \<Rightarrow> pystr \<Rightarrow> int \<Rightarrow> unit result" where
  "bind_address free ip port =
     (if port < 0 \<or> 65535 < port then Inl OverflowError
      else if free ip port then Inr () else Inl OSError)"

text \<open>
  \<open>main\<close>: \<open>Keys_only\<close> after \<open>--gen-keys\<close>, \<open>Failed\<close> when the port is no number, the private key does
  not load or the address cannot be bound, otherwise the address, the private key the handlers
  get, the greetings, and how the loop ended.
\<close>

datatype main_outcome =
  Keys_only | Failed exn | Served "pystr \<times> int" bytes "(nat \<times> bytes) list" "exn option"

definition server_main ::
  "bytes \<times> bytes \<Rightarrow> (bytes \<Rightarrow> bool) \<Rightarrow> (nat \<Rightarrow> nat option) \<Rightarrow> environment \<Rightarrow> (pystr \<Rightarrow> int \<Rightarrow> bool) \<Rightarrow>
   bool \<Rightarrow> (nat \<times> bool) list \<Rightarrow> key_files \<Rightarrow> main_outcome \<times> key_files" where
  "server_main keygen load_ok dec env free generate_keys_flag cs d =
     (if generate_keys_flag then (Keys_only, generate_keys keygen 2 d)
      else
        (let d1 = (if private_file d = None \<or> public_file d = None then generate_keys keygen 2 d else d)
         in case env_address dec env of
              Inl x \<Rightarrow> (Failed x, d1)
            | Inr (ip, port) \<Rightarrow>
                (case private_file d1 of
                   None \<Rightarrow> (Failed OSError, d1)
                 | Some private_key \<Rightarrow>
                     if \<not> load_ok private_key then (Failed ValueError, d1)
                     else (case bind_address free ip port of
                             Inl x \<Rightarrow> (Failed x, d1)
                           | Inr _ \<Rightarrow>
                               (case public_file d1 of
                                  None \<Rightarrow> (Failed OSError, d1)
                                | Some public_key \<Rightarrow>
                                    (let (greeted, stop) = accept_loop public_key cs
                                     in (Served (ip, port) private_key greeted stop, d1)))))))"

lemma accept_loop_greets:
  assumes "frame pk = Inr hello"
  shows "accept_loop pk cs =
    (map (\<lambda>c. (fst c, hello)) (takeWhile snd cs), if list_all snd cs then None else Some OSError)"
proof (induction cs)
  case (Cons c cs)
  then show ?case using assms by (cases c) auto
qed simp

text \<open>The two files belong together, when both are there.\<close>

definition files_paired :: "(bytes \<Rightarrow> bytes \<Rightarrow> bool) \<Rightarrow> key_files \<Rightarrow> bool" where
  "files_paired pair d \<longleftrightarrow>
     (\<forall>k p. private_file d = Some k \<longrightarrow> public_file d = Some p \<longrightarrow> pair k p)"

text \<open>A start that finds both files serves with them as they are.\<close>

lemma server_main_serves:
  assumes "private_file d = Some k" and "public_file d = Some pk" and "load_ok k" and "frame pk = Inr hello"
    and "env_address dec env = Inr (ip, port)" and "bind_address free ip port = Inr ()"
  shows "server_main keygen load_ok dec env free False cs d =
    (Served (ip, port) k (map (\<lambda>c. (fst c, hello)) (takeWhile snd cs)) (if list_all snd cs then None else Some OSError), d)"
  using assms accept_loop_greets [OF assms(4), of cs] by (simp add: server_main_def)

section \<open>Properties\<close>

text \<open>C37
  Starting the server. When the files, if both there, belong together, and the address in the
  environment can be bound, \<open>main\<close> serves at that address, with a private key that belongs to
  the public key it greets with, generating both when either is missing, and leaves files that
  belong together; every connection is greeted until the first whose greeting cannot be written,
  and that one ends the server: no later connection is greeted. But the writes of the two files
  are not atomic: stopped between them while an old public key is there (after \<open>--gen-keys\<close> over
  a pair, or a start at which the private key was missing), they leave two files of different
  pairs, and a later start serves with them as they are: its handlers get the new private key, and
  every connection is greeted with the old public key, to which it does not belong.\<close>

theorem server_start:
  assumes "files_paired pair d" and "pair (fst keygen) (snd keygen)" and "\<forall>k p. pair k p \<longrightarrow> load_ok k"
    and "env_address dec env = Inr (ip, port)" and "bind_address free ip port = Inr ()"
    and "length (snd keygen) < 2 ^ 32" and "\<forall>p. public_file d = Some p \<longrightarrow> length p < 2 ^ 32"
  shows "(\<exists>k pk hello d'. server_main keygen load_ok dec env free False cs d =
      (Served (ip, port) k (map (\<lambda>c. (fst c, hello)) (takeWhile snd cs)) (if list_all snd cs then None else Some OSError), d') \<and>
      pair k pk \<and> frame pk = Inr hello \<and> private_file d' = Some k \<and> public_file d' = Some pk \<and>
      files_paired pair d') \<and>
    (\<forall>p. public_file d = Some p \<longrightarrow> \<not> pair (fst keygen) p \<longrightarrow>
      (\<exists>hello. frame p = Inr hello \<and>
        server_main keygen' load_ok dec env free False cs (generate_keys keygen 1 d) =
          (Served (ip, port) (fst keygen) (map (\<lambda>c. (fst c, hello)) (takeWhile snd cs))
             (if list_all snd cs then None else Some OSError), generate_keys keygen 1 d)))"
proof
  define d1 where "d1 = (if private_file d = None \<or> public_file d = None then generate_keys keygen 2 d else d)"
  obtain k pk where f: "private_file d1 = Some k" "public_file d1 = Some pk" "pair k pk" "length pk < 2 ^ 32"
    using assms by (cases "private_file d"; cases "public_file d")
      (auto simp: d1_def generate_keys_def files_paired_def)
  have load: "load_ok k" using f(3) assms(3) by blast
  obtain hello where h: "frame pk = Inr hello" using frame_of_ok [OF f(4)] by blast
  have "server_main keygen load_ok dec env free False cs d = server_main keygen load_ok dec env free False cs d1"
    using f(1,2) by (simp add: server_main_def Let_def d1_def [symmetric])
  also have "\<dots> = (Served (ip, port) k (map (\<lambda>c. (fst c, hello)) (takeWhile snd cs)) (if list_all snd cs then None else Some OSError), d1)"
    by (rule server_main_serves [where load_ok = load_ok, OF f(1,2) load h assms(4,5)])
  finally show "\<exists>k pk hello d'. server_main keygen load_ok dec env free False cs d =
      (Served (ip, port) k (map (\<lambda>c. (fst c, hello)) (takeWhile snd cs)) (if list_all snd cs then None else Some OSError), d') \<and>
      pair k pk \<and> frame pk = Inr hello \<and> private_file d' = Some k \<and> public_file d' = Some pk \<and>
      files_paired pair d'"
    using f h by (auto simp: files_paired_def)
  show "\<forall>p. public_file d = Some p \<longrightarrow> \<not> pair (fst keygen) p \<longrightarrow>
      (\<exists>hello. frame p = Inr hello \<and>
        server_main keygen' load_ok dec env free False cs (generate_keys keygen 1 d) =
          (Served (ip, port) (fst keygen) (map (\<lambda>c. (fst c, hello)) (takeWhile snd cs))
             (if list_all snd cs then None else Some OSError), generate_keys keygen 1 d))"
  proof (intro allI impI)
    fix p
    assume p: "public_file d = Some p"
    obtain hello where h: "frame p = Inr hello" using frame_of_ok assms(7) p by blast
    have "private_file (generate_keys keygen 1 d) = Some (fst keygen)" "public_file (generate_keys keygen 1 d) = Some p"
      using p by (simp_all add: generate_keys_def)
    from server_main_serves [where load_ok = load_ok, OF this _ h assms(4,5)] h assms(2,3)
    show "\<exists>hello. frame p = Inr hello \<and>
        server_main keygen' load_ok dec env free False cs (generate_keys keygen 1 d) =
          (Served (ip, port) (fst keygen) (map (\<lambda>c. (fst c, hello)) (takeWhile snd cs))
             (if list_all snd cs then None else Some OSError), generate_keys keygen 1 d)"
      by blast
  qed
qed

text \<open>The first start of a fresh directory, and one over an old pair of which one file was replaced.\<close>

theorem server_start_witness:
  "(\<exists>k pk hello d'. server_main ([1], [2]) (\<lambda>_. True) ascii_decimal Map.empty (\<lambda>_ _. True) False [(7, True), (8, False), (9, True)]
      \<lparr>private_file = Some [5], public_file = None\<rparr> =
      (Served (lit ''127.0.0.1'', 12345) k [(7, hello)] (Some OSError), d') \<and>
      k = [1] \<and> frame pk = Inr hello \<and> private_file d' = Some k \<and> public_file d' = Some pk) \<and>
   (\<exists>hello. frame [6] = Inr hello \<and>
      server_main ([3], [4]) (\<lambda>_. True) ascii_decimal Map.empty (\<lambda>_ _. True) False [(7, True)]
        (generate_keys ([1], [2]) 1 \<lparr>private_file = Some [5], public_file = Some [6]\<rparr>) =
      (Served (lit ''127.0.0.1'', 12345) [1] [(7, hello)] None,
        generate_keys ([1], [2]) 1 \<lparr>private_file = Some [5], public_file = Some [6]\<rparr>))"
proof
  have b: "bind_address (\<lambda>_ _. True) (lit ''127.0.0.1'') 12345 = Inr ()" by (simp add: bind_address_def)
  have "files_paired (\<lambda>k p. k = [1] \<and> p = [2]) \<lparr>private_file = Some [5], public_file = None\<rparr>"
    by (simp add: files_paired_def)
  from server_start [OF this, of "([1], [2])" "\<lambda>_. True", OF _ _ env_address_default [OF ascii_decimals_ok] b,
      of "[(7, True), (8, False), (9, True)]"]
  show "\<exists>k pk hello d'. server_main ([1], [2]) (\<lambda>_. True) ascii_decimal Map.empty (\<lambda>_ _. True) False [(7, True), (8, False), (9, True)]
      \<lparr>private_file = Some [5], public_file = None\<rparr> =
      (Served (lit ''127.0.0.1'', 12345) k [(7, hello)] (Some OSError), d') \<and>
      k = [1] \<and> frame pk = Inr hello \<and> private_file d' = Some k \<and> public_file d' = Some pk" by auto
  have "files_paired (\<lambda>k p. (k, p) \<in> {([1], [2]), ([5], [6])}) \<lparr>private_file = Some [5], public_file = Some [6]\<rparr>"
    by (simp add: files_paired_def)
  from server_start [OF this, of "([1], [2])" "\<lambda>_. True", OF _ _ env_address_default [OF ascii_decimals_ok] b,
      of "[(7, True)]" "([3], [4])"]
  show "\<exists>hello. frame [6] = Inr hello \<and>
      server_main ([3], [4]) (\<lambda>_. True) ascii_decimal Map.empty (\<lambda>_ _. True) False [(7, True)]
        (generate_keys ([1], [2]) 1 \<lparr>private_file = Some [5], public_file = Some [6]\<rparr>) =
      (Served (lit ''127.0.0.1'', 12345) [1] [(7, hello)] None,
        generate_keys ([1], [2]) 1 \<lparr>private_file = Some [5], public_file = Some [6]\<rparr>)" by auto
qed

end
