(* ===== verification/Spec2Isabelle.thy ===== *)
theory Spec2Isabelle
  imports Eventually Race Writes Runner Widgets Startup
begin

text \<open>
  A verification library for the Python part of GuardedIM: the chat server (\<open>server/server.py\<close>),
  the client (\<open>client/client.py\<close>), its window (\<open>client/chat_gui.py\<close>), the helpers they share
  (\<open>common/encryption.py\<close>, \<open>common/validation.py\<close>) and the two demonstrations of
  \<open>demos/\<close>.

  The program. A client opens a connection, takes the server's public key from its first read,
  sends an AES key wrapped under it and then its name; the server unwraps the key, reads the
  name with one \<open>recv\<close>, registers the connection under it and from then on reads frames: a
  big-endian length and an AES-GCM body that holds a JSON object. It treats each object by its
  \<open>type\<close> (a new group, a message to a user or a group, a file) and writes frames to the
  connections concerned, each under the key of its own connection. The client's receive loop
  opens such frames and hands what they say to its owner through two callbacks, or saves a file;
  the window is such an owner.

  What models what.

  \<^item> Prelude, PyDict, PyText: the exceptions as a datatype and results as sums, the codec
    locales; dictionaries in insertion order as association lists, behind the locale of their
    laws; text as lists of code points with UTF-8, stripping, splitting and replacing.
  \<^item> Json, JsonRoundtrip, JsonParse, Wire: \<open>json.dumps\<close> and \<open>json.loads\<close> on a datatype of
    JSON values, with the round trip, the shape of parsed values and the sizes of printed ones.
    The parser recurses on fuel, the length of its input plus one; \<open>parse_enough\<close> and
    \<open>loads_fuel\<close> show that more fuel never changes the answer.
  \<^item> Base64, Encryption: \<open>common/encryption.py\<close>. The primitives of the \<open>cryptography\<close> package
    are the fields of the record \<open>crypto\<close>; what the program relies on is \<open>crypto_ok\<close> and
    \<open>rsa_pair\<close>, which the concrete \<open>toy_crypto\<close> satisfies.
  \<^item> Validation: \<open>common/validation.py\<close> and the locale \<open>path_sanitiser\<close> of what a path component
    must be.
  \<^item> Framing: the length prefix, \<open>read_frame\<close>, and \<open>recv\<close> on a socket seen as the list of the
    segments its bytes will arrive in.
  \<^item> Server: the global state \<open>clients\<close>, \<open>groups\<close> and a log of the frames written, with one
    definition per function and per case of \<open>handle_client\<close>. A send may fail because the
    connection is broken or the key unusable, and every exception is a value. Routing (the
    locale of a send operation and what a handler may write), Requests (per handler), Delivery
    (exact effects when targets can or cannot be reached), Connection (handshake, frame loop,
    clean-up), System (a labelled transition system of all connections, its invariants and
    the abstract chat it refines), Security (keys, well-sealed frames, a whole handler as a run).
    In these theories a frame, a handshake and a clean-up are one step each.
  \<^item> Threads: the same handlers cut into steps at every section under \<open>state_lock\<close>, every
    \<open>sendall\<close>, every clock reading and every unlocked look at \<open>clients\<close>, as programs that any
    schedule interleaves; run alone they are the definitions of Server (\<open>connecting_runs\<close>).
    Guarantee judges such a program by what each of its steps guarantees under interference, with
    the rules of sends and loops in a locale; Interleave has the invariants of all reachable
    states and the abstract chat again; Progress the schedules that run a thread again and again,
    what it is to execute a program among the steps of other threads, and to treat frames one
    after the other; Concurrent the properties, Eventually the arrival of a message under every
    such schedule, Race the broadcast that a later one overtakes, with the programs that send no
    list of users. Writes goes below one \<open>sendall\<close>: the pieces in which it hands a frame on, and
    the orders in which the pieces of several threads reach one connection.
  \<^item> Client: paths, state, connecting, the receive loop with its cases, and the send operations;
    Messaging composes client, server and client; Owner is the contract between a client and
    the owner of its callbacks, and Gui interprets it on the window.
  \<^item> Gui: the attributes of \<open>ChatGUI\<close> and the contents of its widgets, one definition per
    method, and sessions as lists of events. Widgets: which event of which widget
    \<open>setup_widgets\<close> binds to which method, the states of the buttons, and sessions of acts on the
    widgets.
  \<^item> Environ: the environment variables, \<open>int\<close> on text, the address of server and client and the
    paths of the keys. Startup: \<open>generate_keys\<close> and \<open>main\<close> of the server, with the accept loop.
  \<^item> Proxy: the key-replacing proxy and the fixed-size read of the demos. Runner: \<open>main\<close> of the
    proxy demonstration with its clean-up, \<open>wait_for_port\<close> and \<open>demos/run_all.py\<close>; what processes,
    ports and clocks answer is a parameter.
  \<^item> Scenario: concrete worlds for the witnesses. The present theory: the properties that span
    components.

  What is shown. Direct messages, group messages and files go from client to client, and from
  window to window, with the right content, to the right connections, under the sender's
  registered name; a login ends with both sides holding the same key. The registry equals the
  set of active connections in every reachable state, groups are well-formed and never change,
  no connection is written to under two keys, every written frame within the limit can be read
  back, and the server refines an abstract chat; all of this under every schedule of the handler
  threads, with what a frame may cause to be written and to whom. A thread that is scheduled
  again and again executes the program of every frame it receives, one after the other, and ends, and a message it takes from its sender
  arrives at the addressee's client while that one stays on line. The frame loop treats exactly
  the frames of the stream in any segmentation. File names, sizes and paths are checked as stated, and nothing
  is written outside the media directory. The failures of the program are stated as theorems
  too: loops that stop at the first unreachable member, the shown sender that is not bound, the
  missing limit on group texts, the handshake that depends on segmentation, the key exchange
  that a proxy can replace, the user list that a slower broadcast leaves stale for as long as nobody
  comes or goes, the message that is lost whenever two frames to one connection interleave, the
  key files that a start after an interrupted one uses although they do not match, the buttons that stay disabled.

  Bounds. Frames are limited to 8 MB by the readers; sizes of printed requests are bounded well
  below it (a file of 5 MB, base64 and JSON leave room), so the end-to-end theorems need no
  further bound than the code's own checks. Times are at most 32 characters and keys 16, 24 or
  32 bytes, as the libraries document. The programs of Threads are a well-founded datatype, so
  each ends after finitely many steps without a bound; \<open>wait_loop\<close> is a partial function, shown to
  return when its clock moves.

  Not modelled. \<open>load_dotenv\<close> and the making of the keys' directory; a \<open>sendall\<close> or \<open>recv\<close> that blocks for ever, and the lock as an object (a section under it is one
  step, the refusal of a duplicate login included, which is sent while it is held); the
  \<open>RecursionError\<close> of very deeply nested JSON; console output of server and client; the
  geometry, colours and fonts of the widgets, the Tk loop, and callbacks from the receive thread
  that interrupt another callback: each is one step; free ports, sleeping and the processes
  themselves in the demonstrations; the tests; the Go programs.
\<close>

section \<open>From client to client\<close>

text \<open>What a client wrote is what the server takes out of the frame.\<close>

lemma wrote_frame_payload:
  "wrote ke (JObj p) enc x y \<Longrightarrow> same_prims ke e \<Longrightarrow> frame_payload e (aes_key x) enc = Some p"
  by (auto simp: wrote_def same_prims_def frame_payload_def)

lemma wrote_read_frame:
  "wrote ke v enc x y \<Longrightarrow> read_frame (frame_bytes enc @ rest) = (Inr (Some enc), rest)"
  by (auto simp: wrote_def intro: read_frame_frame [OF frame_bytes_frame])

lemma relayed_each:
  assumes "relayed e q ts s s'" and "d \<in> set (deliveries s s')"
  shows "readable e d" and "d_payload d = q" and "target_of d \<in> set ts"
  using assms delivered_in [of q ts s s' d] by (auto simp: relayed_def list_all_iff)

lemma relayed_one: "relayed e q [t] s s' \<Longrightarrow> \<exists>d. deliveries s s' = [d] \<and> target_of d = t"
  using delivered_deliveries [of q "[t]" s s'] by (auto simp: relayed_def)

text \<open>
  The path of a direct message, with what the recipient's loop does as the step of its owner; the
  sent request is named so that it can be composed with what stands before it and after it.
\<close>

lemma message_path:
  fixes cbs :: "'a callbacks" and cbr :: "'b callbacks" and xs :: "'a client" and xr :: "'b client"
  assumes "env_ok e" and "cenv_ok ks" and "same_prims ks e" and "same_prims kr e"
    and "link xs = Link True out" and "aes_key_ok (aes_key xs)" and "str_wf (username xs)"
    and "name_match 32 u" and "name_match 32 v" and "list_all scalar_value m"
    and "check_message_size (dumps (JObj (text_request ''message'' ''user'' (username xs) v m
      (c_stamp ks xs)))) = Inr True"
    and "dict_get (clients s) v = Some t" and "live_target s t" and "aes_key xr = snd t"
  shows "\<exists>enc ys d. send_message ks cbs v m xs = (Inr True, ys) \<and> owner ys = owner xs \<and>
    link ys = Link True (out @ frame_bytes enc) \<and>
    (\<forall>rest. read_frame (frame_bytes enc @ rest) = (Inr (Some enc), rest)) \<and>
    deliveries s (process_frame e u c (aes_key xs) enc s) = [d] \<and> target_of d = t \<and>
    receive_loop kr cbr (d_bytes d) xr =
      snd (notify cbr (JStr u) (JStr m) (Some (JStr u)) xr)"
proof -
  let ?p = "text_request ''message'' ''user'' (username xs) v m (c_stamp ks xs)"
  have wf: "json_wf (k_float ks) (JObj ?p)"
    using assms(7,9,10) c_stamp_ok(1) [OF assms(2)]
    by (intro text_request_wf) (simp_all add: str_wf_name scalar_str_wf)
  note size = text_request_size [OF assms(10) wf assms(11)]
  obtain enc ys where w: "send_text ks cbs (dumps (JObj ?p)) (c_tick xs) = (Inr True, ys)"
    "wrote ks (JObj ?p) enc (c_tick xs) ys"
    using send_text_writes [OF assms(2) _ _ wf assms(11), of "c_tick xs" out cbs] assms(5,6)
    by (auto simp: c_tick_def)
  note w2 = wrote_tick [OF w(2)]
  have send: "send_message ks cbs v m xs = (Inr True, ys)"
    using w(1) assms(9) by (simp add: send_message_def)
  have link: "link ys = Link True (out @ frame_bytes enc)"
    using w2 assms(5) by (auto simp: wrote_def)
  have acc: "accepts_message e ?p v"
    using size(2) assms(9) by (simp add: accepts_message_def text_request_fields)
  have "length (dumps (JObj ?p)) + 400 \<le> MAX_FRAME_SIZE" using size(1) by (simp add: size_limits)
  then have rel: "relayed e (JObj (message_payload e (own_payload u ?p) s)) [t] s
      (process_frame e u c (aes_key xs) enc s)"
    using assms(1,8,12,13)
    by (intro relay_message [OF wrote_frame_payload [OF w2 assms(3)] text_request_fields(1) acc])
  obtain d where d: "deliveries s (process_frame e u c (aes_key xs) enc s) = [d]" "target_of d = t"
    using relayed_one [OF rel] by blast
  have dd: "d \<in> set (deliveries s (process_frame e u c (aes_key xs) enc s))" by (simp add: d(1))
  have "aes_key xr = d_key d" using d(2) assms(14) by (auto simp: target_of_def)
  from receive_one [OF relayed_each(1,2) [OF rel dd] this assms(4), of cbr]
  have "receive_loop kr cbr (d_bytes d) xr = snd (notify cbr (JStr u) (JStr m) (Some (JStr u)) xr)"
    by (simp add: dispatch_message text_request_fields)
  moreover have "owner ys = owner xs" using w2 by (simp add: wrote_def)
  ultimately show ?thesis using send link d wrote_read_frame [OF w2] by blast
qed

text \<open>C1
  A direct message, end to end. A client with an open connection whose text request passes its
  own size check writes exactly one more frame; the server reads that frame back from the
  stream, and, when the recipient is on line and can be written to, treating it makes exactly
  one delivery, to the recipient's connection under the recipient's key; and the recipient's
  receive loop, given those bytes, hands its owner the message text, with the name the sender
  is registered under as both the conversation and the sender, and does nothing else.\<close>

theorem message_end_to_end:
  fixes cbs :: "'a callbacks" and cbr :: "'b callbacks" and xs :: "'a client" and xr :: "'b client"
  assumes "env_ok e" and "cenv_ok ks" and "same_prims ks e" and "same_prims kr e"
    and "link xs = Link True out" and "aes_key_ok (aes_key xs)" and "str_wf (username xs)"
    and "name_match 32 u" and "name_match 32 v" and "list_all scalar_value m"
    and "check_message_size (dumps (JObj (text_request ''message'' ''user'' (username xs) v m
      (c_stamp ks xs)))) = Inr True"
    and "dict_get (clients s) v = Some t" and "live_target s t" and "aes_key xr = snd t"
  shows "\<exists>enc ys d. send_message ks cbs v m xs = (Inr True, ys) \<and>
    link ys = Link True (out @ frame_bytes enc) \<and>
    (\<forall>rest. read_frame (frame_bytes enc @ rest) = (Inr (Some enc), rest)) \<and>
    deliveries s (process_frame e u c (aes_key xs) enc s) = [d] \<and> target_of d = t \<and>
    receive_loop kr cbr (d_bytes d) xr =
      snd (notify cbr (JStr u) (JStr m) (Some (JStr u)) xr)"
  using message_path [OF assms, of cbs c cbr] by blast

theorem message_end_to_end_witness:
  "\<exists>enc ys d. send_message toy_cenv log_callbacks bob (lit ''hi'') (toy_client alice 1) = (Inr True, ys) \<and>
    link ys = Link True ([] @ frame_bytes enc) \<and>
    (\<forall>rest. read_frame (frame_bytes enc @ rest) = (Inr (Some enc), rest)) \<and>
    deliveries toy_server (process_frame toy_env alice 1 (aes_key (toy_client alice 1)) enc toy_server) = [d] \<and>
    target_of d = (2, key_of 2) \<and>
    receive_loop toy_cenv log_callbacks (d_bytes d) (toy_client bob 2) =
      snd (notify log_callbacks (JStr alice) (JStr (lit ''hi'')) (Some (JStr alice)) (toy_client bob 2))"
proof (rule message_end_to_end)
  show "check_message_size (dumps (JObj (text_request ''message'' ''user'' (username (toy_client alice 1))
      bob (lit ''hi'') (c_stamp toy_cenv (toy_client alice 1))))) = Inr True"
    by (simp add: text_request_def c_stamp_def toy_cenv_def toy_client_def alice_def bob_def py_eval
        dumps_str_def esc_char_def check_message_size_def utf8_encode_ascii size_limits)
qed (simp_all add: toy_env_ok toy_cenv_ok str_wf_name [OF toy_names(1)] py_eval scalar_value_def
    is_surrogate_def)

text \<open>C2
  A group message, end to end. The client of a member writes one frame; when every other member
  on line can be written to, treating it makes one delivery to each of them, in the order of the
  group's member list, and none to anyone else; every recipient holding the key of such a
  delivery hands its owner the text under the conversation \<open>#group\<close> with the sender's
  registered name.\<close>

theorem group_message_end_to_end:
  fixes cbs :: "'a callbacks" and xs :: "'a client"
  assumes "env_ok e" and "cenv_ok ks" and "same_prims ks e"
    and "link xs = Link True out" and "aes_key_ok (aes_key xs)" and "str_wf (username xs)"
    and "name_match 32 u" and "name_match 48 g" and "list_all scalar_value m"
    and "lstrip_char 35 tg = g" and "in_group s g u"
    and "check_message_size (dumps (JObj (text_request ''group_message'' ''group'' (username xs) g m
      (c_stamp ks xs)))) = Inr True"
    and "list_all (live_target s) (group_targets s g u)"
  shows "\<exists>enc ys. send_group_message ks cbs tg m xs = (Inr True, ys) \<and>
    link ys = Link True (out @ frame_bytes enc) \<and>
    (\<forall>rest. read_frame (frame_bytes enc @ rest) = (Inr (Some enc), rest)) \<and>
    map target_of (deliveries s (process_frame e u c (aes_key xs) enc s)) = group_targets s g u \<and>
    (\<forall>d \<in> set (deliveries s (process_frame e u c (aes_key xs) enc s)).
      \<forall>kr cbr (xr :: 'b client). same_prims kr e \<longrightarrow> aes_key xr = d_key d \<longrightarrow>
        receive_loop kr cbr (d_bytes d) xr =
          snd (notify cbr (JStr (35 # g)) (JStr m) (Some (JStr u)) xr))"
proof -
  let ?p = "text_request ''group_message'' ''group'' (username xs) g m (c_stamp ks xs)"
  have wf: "json_wf (k_float ks) (JObj ?p)"
    using assms(6,8,9) c_stamp_ok(1) [OF assms(2)]
    by (intro text_request_wf) (simp_all add: str_wf_name scalar_str_wf)
  note size = text_request_size [OF assms(9) wf assms(12)]
  obtain enc ys where w: "send_text ks cbs (dumps (JObj ?p)) (c_tick xs) = (Inr True, ys)"
    "wrote ks (JObj ?p) enc (c_tick xs) ys"
    using send_text_writes [OF assms(2) _ _ wf assms(12), of "c_tick xs" out cbs] assms(4,5)
    by (auto simp: c_tick_def)
  note w2 = wrote_tick [OF w(2)]
  have send: "send_group_message ks cbs tg m xs = (Inr True, ys)"
    using w(1) assms(8,10) by (simp add: send_group_message_def)
  have link: "link ys = Link True (out @ frame_bytes enc)"
    using w2 assms(4) by (auto simp: wrote_def)
  have "length (dumps_str m) \<le> length (dumps (JObj ?p))" by (simp add: text_request_def)
  then have "length (dumps (JObj ?p)) + length (dumps (jget ?p (lit ''payload''))) + 500 \<le> MAX_FRAME_SIZE"
    using size(1) by (simp add: text_request_fields size_limits)
  then have rel: "relayed e (JObj (group_message_payload e g (own_payload u ?p) s))
      (group_targets s g u) s (process_frame e u c (aes_key xs) enc s)"
    using assms(1,7,8,11,13)
    by (intro relay_group_message [OF wrote_frame_payload [OF w2 assms(3)] text_request_fields(1,2)])
  have "receive_loop kr cbr (d_bytes d) xr = snd (notify cbr (JStr (35 # g)) (JStr m) (Some (JStr u)) xr)"
    if "d \<in> set (deliveries s (process_frame e u c (aes_key xs) enc s))" "same_prims kr e"
      "aes_key xr = d_key d" for d kr cbr and xr :: "'b client"
    using receive_one [OF relayed_each(1,2) [OF rel that(1)] that(3,2), of cbr]
    by (simp add: dispatch_group_message text_request_fields hash_name_def)
  moreover have "map target_of (deliveries s (process_frame e u c (aes_key xs) enc s)) = group_targets s g u"
    using rel delivered_deliveries by (auto simp: relayed_def)
  ultimately show ?thesis using send link wrote_read_frame [OF w2] by blast
qed

theorem group_message_end_to_end_witness:
  "\<exists>enc ys. send_group_message toy_cenv log_callbacks (35 # team) (lit ''hi'') (toy_client alice 1) = (Inr True, ys) \<and>
    link ys = Link True ([] @ frame_bytes enc) \<and>
    (\<forall>rest. read_frame (frame_bytes enc @ rest) = (Inr (Some enc), rest)) \<and>
    map target_of (deliveries toy_server
      (process_frame toy_env alice 1 (aes_key (toy_client alice 1)) enc toy_server)) =
      group_targets toy_server team alice \<and>
    (\<forall>d \<in> set (deliveries toy_server
        (process_frame toy_env alice 1 (aes_key (toy_client alice 1)) enc toy_server)).
      \<forall>kr cbr (xr :: log client). same_prims kr toy_env \<longrightarrow> aes_key xr = d_key d \<longrightarrow>
        receive_loop kr cbr (d_bytes d) xr =
          snd (notify cbr (JStr (35 # team)) (JStr (lit ''hi'')) (Some (JStr alice)) xr))"
proof (rule group_message_end_to_end)
  show "check_message_size (dumps (JObj (text_request ''group_message'' ''group'' (username (toy_client alice 1))
      team (lit ''hi'') (c_stamp toy_cenv (toy_client alice 1))))) = Inr True"
    by (simp add: text_request_def c_stamp_def toy_cenv_def toy_client_def alice_def team_def py_eval
        dumps_str_def esc_char_def check_message_size_def utf8_encode_ascii size_limits)
  show "lstrip_char 35 (35 # team) = team" by (simp add: lstrip_char_def team_def py_eval)
  show "list_all (live_target toy_server) (group_targets toy_server team alice)"
    by (simp add: group_targets_def group_members_def fanout_targets_Cons)
qed (simp_all add: toy_env_ok toy_cenv_ok str_wf_name [OF toy_names(1)] py_eval scalar_value_def
    is_surrogate_def in_group_def group_members_def)

text \<open>C3
  A file, end to end. A client that reads a non-empty file of at most 5 MB whose name passes
  the transfer check writes one frame, which fits the frame limit after base64 and JSON; the
  server accepts and forwards it to the recipient alone; and the recipient's receive loop
  writes exactly the bytes of the file, under the media directory, in the directory of that
  sender, under the name it was sent with.\<close>

theorem file_end_to_end:
  fixes cbs :: "'a callbacks" and cbr :: "'b callbacks" and xs :: "'a client" and xr :: "'b client"
  assumes "env_ok e" and "cenv_ok ks" and "same_prims ks e" and "same_prims kr e"
    and "link xs = Link True out" and "aes_key_ok (aes_key xs)" and "name_match 32 (username xs)"
    and "quiet cbs" and "name_match 32 u" and "name_match 32 v"
    and "is_safe_transfer_filename (k_printable ks) (JStr (path_basename path))"
    and "k_read ks path = Some bs" and "bs \<noteq> []" and "length bs \<le> MAX_FILE_SIZE"
    and "dict_get (clients s) v = Some t" and "live_target s t" and "aes_key xr = snd t"
    and "no_links kr" and "k_mkdir kr = (\<lambda>_. True)" and "k_writable kr = (\<lambda>_. True)"
  shows "\<exists>enc ys d. send_file ks cbs v path xs = (Inr True, ys) \<and>
    link ys = Link True (out @ frame_bytes enc) \<and>
    (\<forall>rest. read_frame (frame_bytes enc @ rest) = (Inr (Some enc), rest)) \<and>
    deliveries s (process_frame e u c (aes_key xs) enc s) = [d] \<and> target_of d = t \<and>
    files (receive_loop kr cbr (d_bytes d) xr) = files xr @
      [(k_root kr @
          [lit ''user_'' @ safe_path_part (k_printable kr) (JStr (username xr)) (lit ''unknown_user''),
           lit ''from_'' @ safe_path_part (k_printable kr) (JStr u) (lit ''unknown_sender''),
           path_basename path], bs)]"
proof -
  let ?fn = "path_basename path"
  let ?p = "file_request ''message_file'' ''user'' (username xs) v (b64encode bs) ?fn (c_stamp ks xs)"
  have v48: "name_match 48 v" using assms(10) by (simp add: name_match_def)
  obtain enc y og where w: "upload_file ks cbs ''message_file'' ''user'' v v ?fn path xs =
      (Inr True, y\<lparr>owner := og\<rparr>)" "wrote ks (JObj ?p) enc xs y"
    using upload_file_writes [OF assms(2,5,6,7) v48 assms(11,12,13,14,8), of "''message_file''" "''user''" v]
    by auto
  have send: "send_file ks cbs v path xs = (Inr True, y\<lparr>owner := og\<rparr>)"
    using w(1) assms(10,11) by (simp add: send_file_def)
  have link: "link (y\<lparr>owner := og\<rparr>) = Link True (out @ frame_bytes enc)"
    using w(2) assms(5) by (auto simp: wrote_def)
  note fn = good_component_name [OF transfer_filename_JStr(1) [OF assms(11)]]
  have size: "length (dumps (JObj ?p)) + 400 \<le> MAX_FRAME_SIZE"
    by (rule file_request_size [OF assms(7) v48 fn c_stamp_ok(2) [OF assms(2)] assms(14)]) simp_all
  have acc: "file_accepted e ?p"
    using transfer_filename_JStr(3) [OF assms(11)] assms(13,14)
    by (simp add: file_accepted_def file_request_fields check_file_size_b64encode)
  have rel: "relayed e (JObj (file_payload e (own_payload u ?p) s)) [t] s
      (process_frame e u c (aes_key xs) enc s)"
    by (rule relay_file [OF wrote_frame_payload [OF w(2) assms(3)] _ acc])
      (use assms(1,9,10,15,16) size in \<open>simp_all add: file_request_fields\<close>)
  obtain d where d: "deliveries s (process_frame e u c (aes_key xs) enc s) = [d]" "target_of d = t"
    using relayed_one [OF rel] by blast
  have dd: "d \<in> set (deliveries s (process_frame e u c (aes_key xs) enc s))" by (simp add: d(1))
  have "aes_key xr = d_key d" using d(2) assms(17) by (auto simp: target_of_def)
  note r = receive_one [OF relayed_each(1,2) [OF rel dd] this assms(4), of cbr]
  have "files (receive_loop kr cbr (d_bytes d) xr) = files xr @
      [(k_root kr @ receive_parts kr (username xr) (JStr u) (JStr ?fn), bs)]"
    unfolding r
    using receive_file_saves [OF _ _ assms(11,13,18,19,20), of "file_payload e (own_payload u ?p) s" cbr xr]
    by (simp add: dispatch_file file_request_fields)
  moreover have "safe_filename (k_printable kr) (JStr ?fn) = ?fn"
    by (rule transfer_filename_JStr(2) [OF assms(11)])
  ultimately show ?thesis
    using send link d wrote_read_frame [OF w(2)] unfolding receive_parts_def by metis
qed

theorem file_end_to_end_witness:
  "\<exists>enc ys d. send_file toy_cenv log_callbacks bob (lit ''/tmp/a.txt'') (toy_client alice 1) = (Inr True, ys) \<and>
    link ys = Link True ([] @ frame_bytes enc) \<and>
    (\<forall>rest. read_frame (frame_bytes enc @ rest) = (Inr (Some enc), rest)) \<and>
    deliveries toy_server (process_frame toy_env alice 1 (aes_key (toy_client alice 1)) enc toy_server) = [d] \<and>
    target_of d = (2, key_of 2) \<and>
    files (receive_loop toy_cenv log_callbacks (d_bytes d) (toy_client bob 2)) = files (toy_client bob 2) @
      [(k_root toy_cenv @
          [lit ''user_'' @ safe_path_part (k_printable toy_cenv) (JStr (username (toy_client bob 2))) (lit ''unknown_user''),
           lit ''from_'' @ safe_path_part (k_printable toy_cenv) (JStr alice) (lit ''unknown_sender''),
           path_basename (lit ''/tmp/a.txt'')], [1, 2, 3])]"
proof (rule file_end_to_end)
  show "is_safe_transfer_filename (k_printable toy_cenv) (JStr (path_basename (lit ''/tmp/a.txt'')))"
    by (simp add: py_eval path_basename_def is_safe_transfer_filename_def safe_filename_def Let_def
        replace_char_def clean_part_def strip_by_def is_name_char_def is_dot_us_def lower_ascii_def
        splitext_ext_def BLOCKED_FILE_EXTENSIONS_def)
qed (simp_all add: toy_env_ok toy_cenv_ok quiet_def log_callbacks_def toy_cenv_def size_limits,
    simp_all add: toy_cenv_ok [unfolded toy_cenv_def])

section \<open>Runs of the server\<close>

text \<open>
  In every reachable state the table of clients is exactly the set of active connections: each
  entry is a connection whose handshake ended with that name and key and which has not been
  cleaned up, and no active connection is missing. So a name is used by at most one connection
  at a time, and every registered name matches the user-name pattern.\<close>

theorem registry_matches_connections:
  assumes "reachable e y"
  shows "distinct (dict_keys (clients (srv y))) \<and>
    (\<forall>u c k. dict_get (clients (srv y)) u = Some (c, k) \<longleftrightarrow> phase y c = Active u k) \<and>
    (\<forall>u c c' k k'. phase y c = Active u k \<longrightarrow> phase y c' = Active u k' \<longrightarrow> c = c' \<and> k = k') \<and>
    list_all (name_match 32) (dict_keys (clients (srv y)))"
proof -
  note r = reachable_registry [OF assms]
  have "c = c' \<and> k = k'" if "phase y c = Active u k" "phase y c' = Active u k'" for u c c' k k'
    using registry_okD(2) [OF r, of u c k] registry_okD(2) [OF r, of u c' k'] that by simp
  moreover have "list_all (name_match 32) (dict_keys (clients (srv y)))"
    using registry_okD(3) [OF r] by (auto simp: list_all_iff in_dict_keys)
  ultimately show ?thesis
    using registry_okD(1,2) [OF r] by (auto simp: dict_ok_def dict_keys_def)
qed

theorem registry_matches_connections_witness:
  "\<exists>y. reachable toy_env y \<and> two_online y \<and>
    distinct (dict_keys (clients (srv y))) \<and>
    (\<forall>u c k. dict_get (clients (srv y)) u = Some (c, k) \<longleftrightarrow> phase y c = Active u k) \<and>
    (\<forall>u c c' k k'. phase y c = Active u k \<longrightarrow> phase y c' = Active u k' \<longrightarrow> c = c' \<and> k = k') \<and>
    list_all (name_match 32) (dict_keys (clients (srv y)))"
  using toy_reachable registry_matches_connections [of toy_env] by blast

text \<open>
  The server never writes to one connection under two keys: of all frames it has written in a
  run, those to the same connection were sealed under the same key, and while that connection
  is active this is the key its own handshake unwrapped. In particular no forwarded message is
  ever sealed under another user's key.\<close>

theorem one_key_per_connection:
  assumes "reachable e y" and "d \<in> set (sent (srv y))" and "d' \<in> set (sent (srv y))"
    and "d_conn d' = d_conn d"
  shows "d_key d' = d_key d \<and> (\<forall>u k. phase y (d_conn d) = Active u k \<longrightarrow> d_key d = k)"
  using reachable_key_inv [OF assms(1)] assms(2-4) unfolding key_inv_def by blast

theorem one_key_per_connection_witness:
  "\<exists>y d. reachable toy_env y \<and> d \<in> set (sent (srv y)) \<and>
    d_key d = d_key d \<and> (\<forall>u k. phase y (d_conn d) = Active u k \<longrightarrow> d_key d = k)"
  using toy_sent one_key_per_connection [of toy_env] by blast

text \<open>
  Every frame of a run that stays within the frame limit is readable by the holder of its key:
  the server's or client's frame reader takes it from the stream, whatever follows it, and
  decrypting and parsing give back exactly the payload the server meant to send.\<close>

theorem sent_frames_readable:
  assumes "env_ok e" and "reachable e y" and "d \<in> set (sent (srv y))"
    and "length (dumps (d_payload d)) + 28 \<le> MAX_FRAME_SIZE"
  shows "\<exists>body. (\<forall>rest. read_frame (d_bytes d @ rest) = (Inr (Some body), rest)) \<and>
    rbind (decrypt_message (e_crypto e) body (d_key d)) (loads (e_float e)) = Inr (d_payload d)"
proof -
  have "good_frame e d"
    using reachable_good [OF assms(2,1)] assms(3) by (auto simp: list_all_iff)
  then have "readable e d"
    using sealed_readable [OF _ assms(1) _ assms(4)] by (simp add: good_frame_def)
  then show ?thesis by (simp add: readable_def)
qed

theorem sent_frames_readable_witness:
  "\<exists>y d body. reachable toy_env y \<and> d \<in> set (sent (srv y)) \<and>
    (\<forall>rest. read_frame (d_bytes d @ rest) = (Inr (Some body), rest)) \<and>
    rbind (decrypt_message (e_crypto toy_env) body (d_key d)) (loads (e_float toy_env)) =
      Inr (user_list_payload [alice])"
proof -
  obtain y d where d: "reachable toy_env y" "d \<in> set (sent (srv y))"
    "d_payload d = user_list_payload [alice]" using toy_sent by blast
  have "length (dumps (d_payload d)) + 28 \<le> MAX_FRAME_SIZE"
    using toy_list_size by (simp add: d(3) size_limits)
  from sent_frames_readable [OF toy_env_ok d(1,2) this] show ?thesis
    using d by auto
qed

text \<open>
  The sender is bound. Whatever bytes an active user \<open>u\<close> sends as a frame, every frame the
  server writes because of it goes to an active connection under that connection's own key, and
  is an answer on \<open>u\<close>'s own connection, an invitation to a group \<open>u\<close> is in, or one of the four
  forwarded kinds with \<open>u\<close>'s registered name in its field \<open>from\<close>, whatever the frame said.\<close>

theorem sender_binding:
  assumes "reachable e y" and "phase y c = Active u k" and "sys_step e y (Frame c b) y'"
    and "d \<in> set (deliveries (srv y) (srv y'))"
  shows "(is_reply c d \<or> is_invite u d \<or> is_forward u d) \<and>
    (\<exists>v. phase y (d_conn d) = Active v (d_key d))"
proof -
  note r = reachable_registry [OF assms(1)]
  have y': "srv y' = process_frame e u c k b (srv y)"
    using assms(2,3) by (auto elim: step_FrameE)
  have "emits (legit u c) (srv y) (srv y')" unfolding y' by (rule process_frame_emits)
  then have "legit u c d" using assms(4) by (auto simp: emits_deliveries list_all_iff)
  moreover have "emits (active_target y) (srv y) (srv y')"
    unfolding y'
    by (rule emits_mono [OF process_frame_emission])
      (use emission_target registered_active [OF r] assms(2) in
        \<open>force simp: active_target_def target_of_def\<close>)
  then have "active_target y d" using assms(4) by (auto simp: emits_deliveries list_all_iff)
  ultimately show ?thesis by (simp add: legit_def active_target_def)
qed

theorem sender_binding_witness:
  "\<exists>y b y' d. reachable toy_env y \<and> sys_step toy_env y (Frame 1 b) y' \<and>
    d \<in> set (deliveries (srv y) (srv y')) \<and> target_of d = (2, key_of 2) \<and>
    (is_reply 1 d \<or> is_invite alice d \<or> is_forward alice d) \<and>
    (\<exists>v. phase y (d_conn d) = Active v (d_key d))"
proof -
  obtain y where y: "reachable toy_env y" "two_online y" using toy_reachable by blast
  note t = two_online_clients [OF y]
  obtain b d where d: "deliveries (srv y) (process_frame toy_env alice 1 (key_of 1) b (srv y)) = [d]"
    "target_of d = (2, key_of 2)"
    using toy_message_delivered [OF t(2,3)] by blast
  have a: "phase y 1 = Active alice (key_of 1)" using y(2) by (simp add: two_online_def)
  note st = sys_step.treat [OF a, of toy_env b]
  have mem: "d \<in> set (deliveries (srv y)
      (srv (y\<lparr>srv := process_frame toy_env alice 1 (key_of 1) b (srv y)\<rparr>)))"
    using d(1) by simp
  from sender_binding [OF y(1) a st mem] y(1) st mem d(2) show ?thesis by blast
qed

text \<open>C14
  What is forwarded was checked. Of the frames the server writes for any bytes a user sends, one
  of a file kind carries a file name that passed the transfer check and a payload that decodes
  to at most 5 MB, and one of kind \<open>message\<close> carries a payload whose text is at most 64 KB in
  UTF-8. (Group messages have no such bound.)\<close>

theorem forwarded_content_checked:
  assumes "d \<in> set (deliveries s (process_frame e u c k b s))" and "d_payload d = JObj q"
  shows "(jget q (lit ''type'') \<in> {JStr (lit ''message_file''), JStr (lit ''group_file'')} \<longrightarrow>
      is_safe_transfer_filename (e_printable e) (jget q (lit ''filename'')) \<and>
      check_file_size (jget q (lit ''payload''))) \<and>
    (jget q (lit ''type'') = JStr (lit ''message'') \<longrightarrow>
      check_message_size (py_str (e_printable e) (jget_or q (lit ''payload'') (JStr []))) = Inr True)"
proof -
  obtain p where "emission e u c k (dict_set p (lit ''from'') (JStr u)) s d"
    using process_frame_emission [of e k b u c s] assms(1) by (auto simp: emits_deliveries list_all_iff)
  then have "emission e u c k (own_payload u p) s d" by (simp add: own_payload_def)
  then show ?thesis
    using assms(2)
  proof (cases rule: emission.cases)
    case (em_message v)
    moreover have "jget_or (message_payload e (own_payload u p) s) (lit ''payload'') w =
        jget_or (own_payload u p) (lit ''payload'') w" for w
      by (simp add: message_payload_def)
    ultimately show ?thesis using assms(2) by auto
  qed (auto simp: file_accepted_def dest: payload_type)
qed

theorem forwarded_content_checked_witness:
  "\<exists>b d q. d \<in> set (deliveries toy_server (process_frame toy_env alice 1 (key_of 1) b toy_server)) \<and>
    d_payload d = JObj q \<and> jget q (lit ''type'') = JStr (lit ''message_file'') \<and>
    is_safe_transfer_filename (e_printable toy_env) (jget q (lit ''filename'')) \<and>
    check_file_size (jget q (lit ''payload''))"
proof -
  obtain b d where d: "deliveries toy_server (process_frame toy_env alice 1 (key_of 1) b toy_server) = [d]"
    "kind_of (d_payload d) = JStr (lit ''message_file'')"
    using toy_file_delivered [of toy_server] by auto
  then obtain q where q: "d_payload d = JObj q" by (auto simp: kind_of_def split: json.splits)
  have mem: "d \<in> set (deliveries toy_server (process_frame toy_env alice 1 (key_of 1) b toy_server))"
    using d(1) by simp
  have "jget q (lit ''type'') = JStr (lit ''message_file'')" using d(2) q by simp
  with forwarded_content_checked [OF mem q] mem q show ?thesis by blast
qed

text \<open>
  Group traffic stays in the group. A frame of kind \<open>group_message\<close> written for a user's frame
  names a group the user is a member of, and goes to the connection of another member of that
  group.\<close>

theorem group_traffic_stays_in_group:
  assumes "d \<in> set (deliveries s (process_frame e u c k b s))" and "d_payload d = JObj q"
    and "jget q (lit ''type'') = JStr (lit ''group_message'')"
  shows "\<exists>g m. jget q (lit ''to'') = JStr g \<and> in_group s g u \<and> in_group s g m \<and> m \<noteq> u \<and>
    dict_get (clients s) m = Some (target_of d)"
proof -
  obtain p where "emission e u c k (dict_set p (lit ''from'') (JStr u)) s d"
    using process_frame_emission [of e k b u c s] assms(1) by (auto simp: emits_deliveries list_all_iff)
  then have "emission e u c k (own_payload u p) s d" by (simp add: own_payload_def)
  then show ?thesis
    using assms(2,3) by (cases rule: emission.cases) (auto dest: payload_type)
qed

theorem group_traffic_stays_in_group_witness:
  "\<exists>b d q. d \<in> set (deliveries toy_server (process_frame toy_env alice 1 (key_of 1) b toy_server)) \<and>
    d_payload d = JObj q \<and> jget q (lit ''type'') = JStr (lit ''group_message'') \<and>
    (\<exists>g m. jget q (lit ''to'') = JStr g \<and> in_group toy_server g alice \<and> in_group toy_server g m \<and>
      m \<noteq> alice \<and> dict_get (clients toy_server) m = Some (target_of d))"
proof -
  obtain b d where d: "deliveries toy_server (process_frame toy_env alice 1 (key_of 1) b toy_server) = [d]"
    "kind_of (d_payload d) = JStr (lit ''group_message'')"
    using toy_group_delivered by blast
  then obtain q where q: "d_payload d = JObj q" by (auto simp: kind_of_def split: json.splits)
  have mem: "d \<in> set (deliveries toy_server (process_frame toy_env alice 1 (key_of 1) b toy_server))"
    using d(1) by simp
  have "jget q (lit ''type'') = JStr (lit ''group_message'')" using d(2) q by simp
  with group_traffic_stays_in_group [OF mem q] mem q show ?thesis by blast
qed

text \<open>
  The server implements its abstract specification. Forget keys, bytes, frames and the order of
  the tables, and keep who is on line on which connection and which members each room has: every
  step the server can take from a reachable state, whatever the peers send, is a login of a free
  name on a free connection, a logout, the creation of a new room by an on-line user who is in
  it, or changes nothing.\<close>

theorem server_refines_chat:
  assumes "reachable e y" and "sys_step e y ev y'"
  shows "chat_step (abs_chat y) (abs_chat y')"
  using step_refines [OF assms(2) reachable_registry [OF assms(1)]] .

theorem server_refines_chat_witness:
  "\<exists>y y'. reachable toy_env y \<and> two_online y \<and> sys_step toy_env y (Leave 1) y' \<and>
    chat_step (abs_chat y) (abs_chat y')"
proof -
  obtain y where y: "reachable toy_env y" "two_online y" using toy_reachable by blast
  then have "phase y 1 = Active alice (key_of 1)" by (simp add: two_online_def)
  note st = sys_step.leave [OF this, of toy_env]
  from server_refines_chat [OF y(1) st] show ?thesis using y st by blast
qed

text \<open>
  Groups are well-formed. In every reachable state each group has a valid name, at least one
  member, and its member list is sorted, without duplicates, and made of valid user names; no
  group name occurs twice in the table.\<close>

theorem groups_well_formed:
  assumes "reachable e y"
  shows "distinct (dict_keys (groups (srv y))) \<and>
    (\<forall>g ms. dict_get (groups (srv y)) g = Some ms \<longrightarrow>
      name_match 48 g \<and> ms \<noteq> [] \<and> sorted ms \<and> distinct ms \<and> list_all (name_match 32) ms)"
  using reachable_inv [OF assms]
  by (auto simp: sys_inv_def groups_ok_def group_ok_def dict_ok_def dict_keys_def)

theorem groups_well_formed_witness:
  "\<exists>y. reachable toy_env y \<and> two_online y \<and> distinct (dict_keys (groups (srv y))) \<and>
    (\<forall>g ms. dict_get (groups (srv y)) g = Some ms \<longrightarrow>
      name_match 48 g \<and> ms \<noteq> [] \<and> sorted ms \<and> distinct ms \<and> list_all (name_match 32) ms)"
  using toy_reachable groups_well_formed [of toy_env] by blast

text \<open>
  A group never changes. Once a group is in the table, its member list stays the same through
  every sequence of logins, frames, disconnections and broken links: nobody can be added, removed
  or impersonated by re-creating the group, and the groups of users who left remain.\<close>

theorem groups_never_change:
  assumes "sys_run e y evs y'" and "dict_get (groups (srv y)) g = Some ms"
  shows "dict_get (groups (srv y')) g = Some ms"
  using run_group_stable [OF assms] .

theorem groups_never_change_witness:
  "dict_get (groups (cleanup toy_env (Some bob) 2 toy_server)) team = Some [alice, bob]"
proof -
  let ?y = "\<lparr>srv = toy_server, phase = (\<lambda>c. if c = 2 then Active bob (key_of 2) else Fresh)\<rparr>"
  have "phase ?y 2 = Active bob (key_of 2)" by simp
  from sys_run.more [OF sys_step.leave [OF this] sys_run.stop]
  show ?thesis
    using groups_never_change [of toy_env ?y "[Leave 2]" _ team "[alice, bob]"] by fastforce
qed

text \<open>
  The transition system covers the code's own thread. Running \<open>handle_client\<close> on a fresh
  connection to its end, on any bytes the peer may send in any segmentation, is a run of the
  transition system that ends with the same server state and the connection closed; so what is
  shown of reachable states holds of it.\<close>

theorem handler_is_run:
  assumes "phase y c = Fresh"
  shows "\<exists>evs y'. sys_run e y evs y' \<and> srv y' = handle_client e c segs (srv y) \<and> phase y' c = Closed"
  using session_run [OF assms] .

theorem handler_is_run_witness:
  "\<exists>evs y'. sys_run toy_env init_system evs y' \<and>
    srv y' = handle_client toy_env 7 [[1, 2], [3]] (srv init_system) \<and> phase y' 7 = Closed"
  by (rule handler_is_run) (simp add: init_system_def)

section \<open>Connections\<close>

lemma toy_wrapped_split:
  "live [take 100 toy_wrapped, drop 100 toy_wrapped]"
  "length (concat [take 100 toy_wrapped, drop 100 toy_wrapped]) = 256"
  "rsa_unwrap (e_crypto toy_env) (e_private toy_env) (concat [take 100 toy_wrapped, drop 100 toy_wrapped]) =
    Some (key_of 5)"
  using toy_wrapped_key by (auto simp: live_def)

text \<open>C21
  The handshake depends on where the stream is cut. A client that sends its name and its first
  frame so that they arrive in one segment is never let in, although the same bytes cut after the
  name are accepted: the single \<open>recv(1024)\<close> takes both, and the length prefix of a frame
  starts with a zero byte, which no name contains.\<close>

theorem coalesced_name_refused:
  assumes "live ks" and "length (concat ks) = 256" and "name_match 32 u"
    and "length body < 2 ^ 24" and "frame body = Inr f"
  shows "\<exists>v. fst (handshake e c (ks @ (map of_nat u @ f) # segs) s) = Rejected v"
proof -
  have "length body div 2 ^ 24 = 0" using assms(4) by simp
  then obtain t where "f = 0 # t"
    using assms(4,5) by (auto simp: frame_def pack_be32_def rmap_def)
  then show ?thesis using handshake_coalesced [OF assms(1-3)] by simp
qed

theorem coalesced_name_refused_witness:
  "\<exists>v. fst (handshake toy_env 3 ([take 100 toy_wrapped, drop 100 toy_wrapped] @
      (map of_nat carol @ [0, 0, 0, 1, 7]) # []) toy_server) = Rejected v"
  by (rule coalesced_name_refused [OF toy_wrapped_split(1,2), of carol "[7]"])
    (simp_all add: frame_def pack_be32_def)

text \<open>C20
  A second login under a name in use is refused and leaves the incumbent alone: the whole run of
  the handler only writes, first the refusal to the newcomer (when it can be written to), then
  lists of users; the tables do not change, so the incumbent is still registered, and the
  newcomer's connection is closed.\<close>

theorem duplicate_login_refused:
  assumes "live ks" and "length (concat ks) = 256"
    and "rsa_unwrap (e_crypto e) (e_private e) (concat ks) = Some k"
    and "name_match 32 u" and "dict_get (clients s) u = Some (c0, k0)" and "c0 \<noteq> c"
    and "env_ok e" and "live_target s (c, k)"
  shows "\<exists>d ds s'. handle_client e c (ks @ map of_nat u # segs) s = s' \<and>
    sent s' = sent s @ d # ds \<and> target_of d = (c, k) \<and>
    d_payload d = error_payload (lit ''Username already connected.'') \<and>
    list_all (lists_users e s) ds \<and>
    clients s' = clients s \<and> groups s' = groups s \<and> broken s' = (broken s)(c := True)"
proof -
  let ?m = "lit ''Username already connected.''"
  have "payload_ok e (error_payload ?m)" by (simp add: error_payload_ok)
  moreover have "length (dumps (error_payload ?m)) < 1000"
    by (simp add: error_payload_def dumps_str_def esc_char_def py_eval)
  ultimately have "always_ok (send_payload e) (error_payload ?m) s (c, k)"
    using assms(7,8) by (intro live_always_ok) (simp_all add: fits_def)
  then obtain v s1 where s1: "send_payload e c k (error_payload ?m) s = (Inr v, s1)"
    "delivered (wrap_payload (error_payload ?m)) [(c, k)] s s1"
    by (rule tr.always_okD)
  have t1: "same_tables s s1" by (rule delivered_tables [OF s1(2)])
  obtain d where d: "sent s1 = sent s @ [d]" "target_of d = (c, k)" "d_payload d = error_payload ?m"
    using s1(2) by (auto simp: delivered_def)
  let ?s2 = "broadcast_user_list e s1"
  have "clients s1 = clients s" using t1 by (simp add: same_tables_def)
  then obtain ds where ds: "sent ?s2 = sent s1 @ ds" "list_all (lists_users e s) ds"
    using broadcast_emits [of e s1] by (auto simp: emits_def lists_users_def list_all_iff)
  have h: "handle_client e c (ks @ map of_nat u # segs) s = ?s2\<lparr>broken := (broken ?s2)(c := True)\<rparr>"
    using handle_client_taken [OF assms(1-6), of segs] s1(1) by (simp add: send_error_def Let_def)
  show ?thesis
    unfolding h using d ds t1 broadcast_tables [of s1 e]
    by (intro exI [of _ d] exI [of _ ds]) (simp add: same_tables_def)
qed

theorem duplicate_login_refused_witness:
  "\<exists>d ds s'. handle_client toy_env 3 ([take 100 toy_wrapped, drop 100 toy_wrapped] @ map of_nat alice # []) toy_server = s' \<and>
    sent s' = sent toy_server @ d # ds \<and> target_of d = (3, key_of 5) \<and>
    d_payload d = error_payload (lit ''Username already connected.'') \<and>
    list_all (lists_users toy_env toy_server) ds \<and>
    clients s' = clients toy_server \<and> groups s' = groups toy_server \<and>
    broken s' = (broken toy_server)(3 := True)"
  by (rule duplicate_login_refused [OF toy_wrapped_split toy_names(1) toy_server_simps(1)])
    (simp_all add: toy_env_ok)

text \<open>
  A session leaves no trace in the registry. Running \<open>handle_client\<close> to its end on a connection
  that is not in the table leaves the table of clients, entries and order, exactly as it was,
  whatever the peer sent: a rejected peer never got in, an accepted one is removed, and nobody
  else's entry is touched.\<close>

theorem session_leaves_registry:
  assumes "\<forall>u k. dict_get (clients s) u \<noteq> Some (c, k)"
  shows "clients (handle_client e c segs s) = clients s"
  by (rule handle_client_clients) (use assms in auto)

theorem session_leaves_registry_witness:
  "clients (handle_client toy_env 3 [toy_wrapped, map of_nat carol, [0, 0]] toy_server) = clients toy_server"
proof (rule session_leaves_registry, intro allI)
  fix u k
  show "dict_get (clients toy_server) u \<noteq> Some (3, k)"
    by (simp add: toy_server_def dict_get_def)
qed

text \<open>C16
  The frame loop treats exactly the frames of the stream, in order. On the frames of any bodies
  within the limit, the loop's effect is that of treating the bodies one after the other, and it
  ends normally at the end of the stream; if they are followed by a frame that announces more
  than the limit or more bytes than arrive, or by a cut header, everything before it has been
  treated, nothing of it or after it is, and the loop ends with a framing error, or, for the cut
  header, with the uncaught \<open>struct.error\<close>.\<close>

theorem serve_stream:
  assumes "list_all frame_ok bodies"
  shows "serve e u c k (concat (map frame_bytes bodies)) s =
      (EndOfStream, process_frames e u c k bodies s) \<and>
    (\<forall>h n rest. unpack_be32 h = Inr n \<longrightarrow> MAX_FRAME_SIZE < n \<or> length rest < n \<longrightarrow>
      serve e u c k (concat (map frame_bytes bodies) @ h @ rest) s =
        (FrameError, process_frames e u c k bodies s)) \<and>
    (\<forall>h. h \<noteq> [] \<longrightarrow> length h < 4 \<longrightarrow>
      serve e u c k (concat (map frame_bytes bodies) @ h) s =
        (Uncaught StructError, process_frames e u c k bodies s))"
  using serve_frames [OF assms, of e u c k "[]" s] serve_frames [OF assms, of e u c k _ s]
    serve_end serve_oversize serve_incomplete serve_truncated_header by auto

theorem serve_stream_witness:
  "serve toy_env alice 1 (key_of 1) (concat (map frame_bytes [[1], [2, 3]])) toy_server =
      (EndOfStream, process_frames toy_env alice 1 (key_of 1) [[1], [2, 3]] toy_server) \<and>
   serve toy_env alice 1 (key_of 1) (concat (map frame_bytes [[1], [2, 3]]) @ [1, 0, 0, 0] @ [5]) toy_server =
      (FrameError, process_frames toy_env alice 1 (key_of 1) [[1], [2, 3]] toy_server) \<and>
   serve toy_env alice 1 (key_of 1) (concat (map frame_bytes [[1], [2, 3]]) @ [0, 0]) toy_server =
      (Uncaught StructError, process_frames toy_env alice 1 (key_of 1) [[1], [2, 3]] toy_server)"
proof -
  have ok: "list_all frame_ok [[1], [2, 3]]" by (simp add: frame_ok_def size_limits)
  have "unpack_be32 [1, 0, 0, 0] = Inr (2 ^ 24)" by (simp add: unpack_be32_def)
  moreover have "MAX_FRAME_SIZE < 2 ^ 24" by (simp add: size_limits)
  moreover have "[0, 0 :: byte] \<noteq> []" "length [0, 0 :: byte] < 4" by simp_all
  ultimately show ?thesis
    using serve_stream [OF ok, of toy_env alice 1 "key_of 1" toy_server] by blast
qed

section \<open>Who receives what\<close>

text \<open>C22
  The list of users reaches everyone who can be reached. Broadcasting delivers the names now in
  the table, in the table's order, to exactly the registered connections that take writes and
  whose key AES-GCM accepts, in order; an unreachable client costs nobody else the list.\<close>

theorem user_list_reaches_live:
  assumes "env_ok e" and "payload_ok e (user_list_payload (dict_keys (clients s)))"
    and "length (dumps (user_list_payload (dict_keys (clients s)))) + 28 < 2 ^ 32"
  shows "map target_of (deliveries s (broadcast_user_list e s)) =
      filter (\<lambda>t. \<not> broken s (fst t) \<and> aes_key_ok (snd t)) (map snd (clients s)) \<and>
    list_all (\<lambda>d. d_payload d = user_list_payload (dict_keys (clients s)))
      (deliveries s (broadcast_user_list e s)) \<and>
    clients (broadcast_user_list e s) = clients s \<and> groups (broadcast_user_list e s) = groups s"
proof -
  have "fits e (user_list_payload (dict_keys (clients s)))" using assms(2,3) by (simp add: fits_def)
  note b = broadcast_exact [OF assms(1) this]
  show ?thesis
    using delivered_deliveries [OF b] delivered_tables [OF b]
    by (simp add: same_tables_def live_target_def [abs_def])
qed

theorem user_list_reaches_live_witness:
  "map target_of (deliveries (toy_server\<lparr>broken := (\<lambda>c. c = 1)\<rparr>)
     (broadcast_user_list toy_env (toy_server\<lparr>broken := (\<lambda>c. c = 1)\<rparr>))) = [(2, key_of 2)]"
proof -
  let ?s = "toy_server\<lparr>broken := (\<lambda>c. c = 1)\<rparr>"
  have k: "dict_keys (clients ?s) = [alice, bob]" by (simp add: toy_server_def dict_keys_def)
  have ok: "payload_ok toy_env (user_list_payload (dict_keys (clients ?s)))"
    unfolding k by (simp add: user_list_payload_ok)
  have "length (dumps (user_list_payload (dict_keys (clients ?s)))) + 28 < 2 ^ 32"
    unfolding k by (simp add: user_list_payload_def alice_def bob_def py_eval dumps_str_def esc_char_def)
  from user_list_reaches_live [OF toy_env_ok ok this] show ?thesis
    by (simp add: toy_server_def)
qed

text \<open>C24
  A group message is all or a prefix. When some member cannot be written to, the members before
  it in the group's order have received the message, and neither it nor any member after it
  has, although they may all be on line and reachable; the sender's request ends with the
  exception and no answer. (Compare the broadcast of the list of users, which goes on.)\<close>

theorem group_message_stops_at_failure:
  assumes "jget p (lit ''to'') = JStr g" and "name_match 48 g" and "in_group s g u"
    and "env_ok e" and "payload_ok e (JObj (group_message_payload e g p s))"
    and "length (dumps (JObj (group_message_payload e g p s))) + 28 < 2 ^ 32"
    and "group_targets s g u = pre @ (cb, kb) # post" and "list_all (live_target s) pre"
    and "broken s cb \<or> \<not> aes_key_ok kb"
  shows "\<exists>x s'. handle_group_message e u c k p s = (Inl x, s') \<and>
    map target_of (deliveries s s') = pre \<and> clients s' = clients s \<and> groups s' = groups s"
proof -
  have f: "fits e (JObj (group_message_payload e g p s))" using assms(5,6) by (simp add: fits_def)
  have "\<not> live_target s (cb, kb)" using assms(9) by (auto simp: live_target_def)
  then obtain x s' where s': "handle_group_message e u c k p s = (Inl x, s')"
    "delivered (JObj (group_message_payload e g p s)) pre s s'"
    using group_message_stops [OF assms(1-4) f assms(7,8)] by blast
  then show ?thesis
    using delivered_deliveries [OF s'(2)] delivered_tables [OF s'(2)] by (auto simp: same_tables_def)
qed

text \<open>Three members on line, the first of them behind a broken link.\<close>

definition broken_team :: server where
  "broken_team =
     \<lparr>clients = [(alice, (1, key_of 1)), (bob, (2, key_of 2)), (carol, (3, key_of 3))],
      groups = [(team, [alice, bob, carol])], sent = [], broken = (\<lambda>c. c = 2), draws = 0, ticks = 0\<rparr>"

lemma broken_team_targets:
  "group_targets broken_team team alice = [] @ (2, key_of 2) # [(3, key_of 3)]"
  by (simp add: group_targets_def group_members_def broken_team_def fanout_targets_Cons dict_get_def)

theorem group_message_stops_at_failure_witness:
  "\<exists>x s'. handle_group_message toy_env alice 1 (key_of 1) toy_group_message broken_team = (Inl x, s') \<and>
    map target_of (deliveries broken_team s') = [] \<and> clients s' = clients broken_team \<and>
    groups s' = groups broken_team"
proof (rule group_message_stops_at_failure [OF _ toy_names(4) _ toy_env_ok _ _ broken_team_targets])
  have "json_wf (e_float toy_env) (JObj toy_group_message)"
    unfolding toy_group_message_def
    by (rule text_request_wf) (simp_all add: str_wf_name [of 32] str_wf_name [of 48])
  then show "payload_ok toy_env (JObj (group_message_payload toy_env team toy_group_message broken_team))"
    using forwarded_payload_ok(3) [OF toy_env_ok _ toy_names(4)] by (simp add: payload_ok_def)
  have "length (dumps_members toy_group_message) + length (dumps (jget toy_group_message (lit ''payload''))) < 1000"
    unfolding toy_group_message_def text_request_fields
    by (simp add: text_request_def alice_def team_def dumps_str_def esc_char_def py_eval)
  then show "length (dumps (JObj (group_message_payload toy_env team toy_group_message broken_team))) + 28 < 2 ^ 32"
    using group_payload_size [OF toy_env_ok toy_names(4), of toy_group_message broken_team] by simp
qed (simp_all add: toy_group_message_def text_request_fields in_group_def group_members_def
    broken_team_def dict_get_def)

text \<open>C23
  Creating a group, when everyone can be written to: the group is registered with the valid
  members asked for and the creator, sorted and without duplicates; every member on line but the
  creator gets the invitation, which lists the members; then the creator gets the
  acknowledgement; and nothing else is written.\<close>

theorem group_creation_complete:
  assumes "jget p (lit ''group_name'') = JStr g" and "name_match 48 g"
    and "jget_or p (lit ''members'') (JList []) = JList (map JStr us)"
    and "list_all (name_match 32) us" and "dict_get (groups s) g = None" and "env_ok e"
    and "ms = sort (remdups (us @ [u]))"
    and "fits e (invite_payload g ms)" and "fits e (created_payload g)"
    and "list_all (live_target s) (fanout_targets (clients s) u ms)" and "live_target s (c, k)"
  shows "\<exists>s' inv ack. handle_create_group e u c k p s = (Inr (), s') \<and>
    sent s' = sent s @ inv @ [ack] \<and>
    map target_of inv = fanout_targets (clients s) u ms \<and>
    list_all (\<lambda>d. d_payload d = invite_payload g ms) inv \<and>
    target_of ack = (c, k) \<and> d_payload ack = created_payload g \<and>
    groups s' = dict_set (groups s) g ms \<and> clients s' = clients s"
proof -
  have names: "all_safe (map JStr us) = Inr True" using assms(4) by (induction us) simp_all
  have strs: "map (str_of \<circ> JStr) us = us" by (induction us) (simp_all add: str_of_def)
  have acc: "accepts_group p s u g ms"
    using assms(1-3,5,7) names
    by (simp add: accepts_group_def members_ok_def member_names_def sorted_set_def strs)
  obtain s1 s' where h: "handle_create_group e u c k p s = (Inr (), s')"
    and d1: "delivered (invite_payload g ms) (fanout_targets (clients s) u ms) (with_group s g ms) s1"
    and d2: "delivered (created_payload g) [(c, k)] s1 s'"
    using create_group_succeeds [OF acc assms(6,8-11)] by blast
  obtain inv where "sent s1 = sent s @ inv" "map target_of inv = fanout_targets (clients s) u ms"
    "list_all (\<lambda>d. d_payload d = invite_payload g ms) inv"
    using d1 by (auto simp: delivered_def)
  moreover obtain ack where "sent s' = sent s1 @ [ack]" "target_of ack = (c, k)"
    "d_payload ack = created_payload g"
    using d2 by (auto simp: delivered_def)
  moreover have "groups s' = dict_set (groups s) g ms" "clients s' = clients s"
    using delivered_tables [OF d1] delivered_tables [OF d2] by (simp_all add: same_tables_def)
  ultimately show ?thesis using h by auto
qed

definition toy_creation :: jobject where
  "toy_creation = [(lit ''group_name'', JStr (lit ''g'')), (lit ''members'', JList (map JStr [bob]))]"

lemma toy_creation_sizes:
  "fits toy_env (invite_payload (lit ''g'') [alice, bob])" "fits toy_env (created_payload (lit ''g''))"
proof -
  have g: "name_match 48 (lit ''g'')" by (simp add: name_match_def is_name_char_def py_eval)
  have "length (dumps (invite_payload (lit ''g'') [alice, bob])) < 1000"
    "length (dumps (created_payload (lit ''g''))) < 1000"
    by (simp_all add: invite_payload_def created_payload_def alice_def bob_def py_eval dumps_str_def
        esc_char_def)
  then show "fits toy_env (invite_payload (lit ''g'') [alice, bob])"
    "fits toy_env (created_payload (lit ''g''))"
    using invite_payload_ok [OF g] created_payload_ok [OF g] by (simp_all add: fits_def)
qed

theorem group_creation_complete_witness:
  "\<exists>s' inv ack. handle_create_group toy_env alice 1 (key_of 1) toy_creation toy_server = (Inr (), s') \<and>
    sent s' = sent toy_server @ inv @ [ack] \<and>
    map target_of inv = fanout_targets (clients toy_server) alice [alice, bob] \<and>
    list_all (\<lambda>d. d_payload d = invite_payload (lit ''g'') [alice, bob]) inv \<and>
    target_of ack = (1, key_of 1) \<and> d_payload ack = created_payload (lit ''g'') \<and>
    groups s' = dict_set (groups toy_server) (lit ''g'') [alice, bob] \<and> clients s' = clients toy_server"
proof (rule group_creation_complete [OF _ _ _ _ _ toy_env_ok _ toy_creation_sizes])
  show "[alice, bob] = sort (remdups ([bob] @ [alice]))"
    by (simp add: alice_def bob_def py_eval)
qed (simp_all add: toy_creation_def jget_def jget_or_def dict_get_Cons name_match_def is_name_char_def
    py_eval bob_def, simp_all add: toy_server_def dict_get_def team_def fanout_targets_Cons
    live_target_def alice_def bob_def py_eval)

text \<open>C25
  Creating a group, when one member cannot be written to: the group is registered all the same,
  for good, but the invitations stop at that member: those before it are invited, those after it
  are not although reachable, and the creator gets no acknowledgement; a second attempt is
  refused because the name is then taken.\<close>

theorem group_creation_stops_at_failure:
  assumes "accepts_group p s u g ms" and "env_ok e" and "fits e (invite_payload g ms)"
    and "fanout_targets (clients s) u ms = pre @ (cb, kb) # post"
    and "list_all (live_target s) pre" and "broken s cb \<or> \<not> aes_key_ok kb"
  shows "\<exists>x s'. handle_create_group e u c k p s = (Inl x, s') \<and>
    map target_of (deliveries s s') = pre \<and> dict_get (groups s') g = Some ms \<and>
    (\<forall>u' c' k'. handle_create_group e u' c' k' p s' =
      send_error e c' k' (lit ''Group already exists.'') s')"
proof -
  have "\<not> live_target s (cb, kb)" using assms(6) by (auto simp: live_target_def)
  then obtain x s' where s': "handle_create_group e u c k p s = (Inl x, s')"
    "dict_get (groups s') g = Some ms" "delivered (invite_payload g ms) pre (with_group s g ms) s'"
    using create_group_partial [OF assms(1-5)] by blast
  have "map target_of (deliveries s s') = pre"
    using delivered_deliveries [OF s'(3)] by (simp add: deliveries_def)
  moreover have "handle_create_group e u' c' k' p s' =
      send_error e c' k' (lit ''Group already exists.'') s'" for u' c' k'
    using assms(1) s'(2) by (simp add: handle_create_group_def accepts_group_def str_of_def Let_def)
  ultimately show ?thesis using s'(1,2) by blast
qed

theorem group_creation_stops_at_failure_witness:
  "\<exists>x s'. handle_create_group toy_env alice 1 (key_of 1) toy_creation (toy_server\<lparr>broken := (\<lambda>c. c = 2)\<rparr>) = (Inl x, s') \<and>
    map target_of (deliveries (toy_server\<lparr>broken := (\<lambda>c. c = 2)\<rparr>) s') = [] \<and>
    dict_get (groups s') (lit ''g'') = Some [alice, bob] \<and>
    (\<forall>u' c' k'. handle_create_group toy_env u' c' k' toy_creation s' =
      send_error toy_env c' k' (lit ''Group already exists.'') s')"
proof (rule group_creation_stops_at_failure [OF _ toy_env_ok toy_creation_sizes(1)])
  let ?s = "toy_server\<lparr>broken := (\<lambda>c. c = 2)\<rparr>"
  show "fanout_targets (clients ?s) alice [alice, bob] = [] @ (2, key_of 2) # []"
    by (simp add: fanout_targets_Cons toy_server_def dict_get_def)
  have "members_ok (jget_or toy_creation (lit ''members'') (JList [])) = Inr True"
    "member_names (jget_or toy_creation (lit ''members'') (JList [])) = [bob]"
    "jget toy_creation (lit ''group_name'') = JStr (lit ''g'')"
    by (simp_all add: toy_creation_def jget_def jget_or_def dict_get_Cons members_ok_def
        member_names_def str_of_def)
  moreover have "dict_get (groups ?s) (lit ''g'') = None"
    by (simp add: toy_server_def dict_get_def team_def)
  moreover have "[alice, bob] = sorted_set ([bob] @ [alice])"
    by (simp add: sorted_set_def alice_def bob_def py_eval)
  moreover have "name_match 48 (lit ''g'')" by (simp add: name_match_def is_name_char_def py_eval)
  ultimately show "accepts_group toy_creation ?s alice (lit ''g'') [alice, bob]"
    by (simp add: accepts_group_def)
qed simp_all

text \<open>C26
  Writing to a group one is not in. The only effect on the server is one error frame to the
  author, and the tables stay; but the author's client, as on every error the server reports,
  closes its connection when it reads that frame, and leaves the rest of the stream unread.\<close>

theorem outsider_refused:
  assumes "frame_payload e k b = Some p" and "jget p (lit ''type'') = JStr (lit ''group_message'')"
    and "jget p (lit ''to'') = JStr g" and "name_match 48 g" and "\<not> in_group s g u"
    and "env_ok e" and "live_target s (c, k)" and "same_prims ke e" and "name_match 32 u"
    and "aes_key x = k" and "link x = Link True out"
  shows "\<exists>d. deliveries s (process_frame e u c k b s) = [d] \<and> target_of d = (c, k) \<and>
    d_payload d = error_payload (lit ''Not a member of that group.'') \<and>
    clients (process_frame e u c k b s) = clients s \<and> groups (process_frame e u c k b s) = groups s \<and>
    (\<forall>rest. receive_loop ke cb (d_bytes d @ rest) x = x\<lparr>link := Link False out\<rparr>)"
proof -
  let ?q = "[(lit ''type'', JStr (lit ''error'')),
    (lit ''message'', JStr (lit ''Not a member of that group.''))]"
  have q: "error_payload (lit ''Not a member of that group.'') = JObj ?q" by (simp add: error_payload_def)
  have ok: "payload_ok e (JObj ?q)" unfolding q [symmetric] by (simp add: error_payload_ok)
  have size: "length (dumps (JObj ?q)) < 1000" by (simp add: dumps_str_def esc_char_def py_eval)
  have "always_ok (send_payload e) (JObj ?q) s (c, k)"
    using ok size assms(6,7) by (intro live_always_ok) (simp_all add: fits_def)
  then obtain v s1 where s1: "send_payload e c k (JObj ?q) s = (Inr v, s1)"
    "delivered (wrap_payload (JObj ?q)) [(c, k)] s s1"
    by (rule tr.always_okD)
  have "process_frame e u c k b s = snd (handle_group_message e u c k (own_payload u p) s)"
    using assms(1,2) by (simp add: process_frame_payload handle_payload_def own_payload_def)
  also have "\<dots> = s1"
    using group_message_outsider [of "own_payload u p" g s u e c k] assms(3-5) s1(1)
    by (simp add: send_error_def q)
  finally have pf: "process_frame e u c k b s = s1" .
  have rel: "relayed e (JObj ?q) [(c, k)] s (process_frame e u c k b s)"
    using s1(2) size by (intro relayedI [OF _ assms(6,9)]) (simp_all add: pf size_limits)
  obtain d where d: "deliveries s s1 = [d]" "target_of d = (c, k)"
    using relayed_one [OF rel] by (auto simp: pf)
  have dd: "d \<in> set (deliveries s (process_frame e u c k b s))" by (simp add: pf d(1))
  note r = relayed_each [OF rel dd]
  have key: "aes_key x = d_key d" using assms(10) d(2) by (simp add: target_of_def)
  have "dispatch ke cb ?q x = (Inr Halt, x\<lparr>link := Link False out\<rparr>)"
    using assms(11) by (simp add: dispatch_def jget_def dict_get_Cons close_link_def Let_def)
  then have "receive_loop ke cb (d_bytes d @ rest) x = x\<lparr>link := Link False out\<rparr>" for rest
    using receive_readable [OF r(1,2) key assms(8), of cb rest] by simp
  then show ?thesis
    using d r(2) delivered_tables [OF s1(2)] by (auto simp: pf q same_tables_def)
qed

theorem outsider_refused_witness:
  "\<exists>b d. deliveries toy_server (process_frame toy_env carol 3 (key_of 3) b toy_server) = [d] \<and>
    target_of d = (3, key_of 3) \<and> d_payload d = error_payload (lit ''Not a member of that group.'') \<and>
    (\<forall>rest. receive_loop toy_cenv log_callbacks (d_bytes d @ rest) (toy_client carol 3) =
      (toy_client carol 3)\<lparr>link := Link False []\<rparr>)"
proof -
  have "json_wf toy_float (JObj toy_group_message)"
    unfolding toy_group_message_def
    by (rule text_request_wf) (simp_all add: str_wf_name [of 32] str_wf_name [of 48])
  then obtain b where b: "frame_payload toy_env (key_of 3) b = Some toy_group_message"
    using toy_frame by blast
  have "\<not> in_group toy_server team carol" by (simp add: in_group_def group_members_def)
  note r = outsider_refused [OF b _ _ toy_names(4) this toy_env_ok _ toy_cenv_ok(2) toy_names(3),
      of 3 "toy_client carol 3" "[]" log_callbacks]
  show ?thesis using r by (fastforce simp: toy_group_message_def text_request_fields)
qed

section \<open>Logging in\<close>

text \<open>C12
  Logging in, end to end. A client with a valid name whose first read takes the whole greeting
  writes 256 bytes of wrapped key followed by its name; the server, reading the wrapped key in
  any segmentation and the name as one segment, registers the client under its name with the
  very key the client holds, and leaves what follows for the frame loop.\<close>

theorem login_end_to_end:
  assumes "same_prims ks e" and "name_match 32 (username x)" and "aes_key_ok (aes_key x)"
    and "frame pem = Inr hello" and "length hello \<le> 4096" and "rsa_pair (e_crypto e) hello (e_private e)"
    and "dict_get (clients s) (username x) = None"
  shows "\<exists>w y. connect ks (Some (hello # segs)) x = (Inr segs, y) \<and>
    link y = Link True (w @ map of_nat (username x)) \<and> aes_key y = aes_key x \<and>
    (\<forall>ws rest. live ws \<longrightarrow> concat ws = w \<longrightarrow>
      handshake e c (ws @ map of_nat (username x) # rest) s =
        (Joined (username x) (aes_key x) (concat rest),
         s\<lparr>clients := dict_set (clients s) (username x) (c, aes_key x)\<rparr>))"
proof -
  have pair: "rsa_pair (k_crypto ks) hello (e_private e)" using assms(1,6) by (simp add: same_prims_def)
  have len: "length (aes_key x) \<le> 190" using assms(3) by (auto simp: aes_key_ok_def)
  obtain w where w: "connect ks (Some (hello # segs)) x =
      (Inr segs, x\<lparr>link := Link True (w @ map of_nat (username x))\<rparr>)"
    "length w = 256" "rsa_unwrap (e_crypto e) (e_private e) w = Some (aes_key x)"
    using connect_writes [OF assms(2) len pair assms(5), of segs] assms(1) by (auto simp: same_prims_def)
  then show ?thesis
    by (intro exI [of _ w] exI [of _ "x\<lparr>link := Link True (w @ map of_nat (username x))\<rparr>"])
      (auto intro!: handshake_joins assms(2,7))
qed

lemma toy_pair: "rsa_pair (e_crypto toy_env) pem priv"
  using toy_rsa_pair by (simp add: toy_env_def)

theorem login_end_to_end_witness:
  "\<exists>w y. connect toy_cenv (Some ([0, 0, 0, 1, 7] # [[9]])) (toy_client carol 5) = (Inr [[9]], y) \<and>
    link y = Link True (w @ map of_nat (username (toy_client carol 5))) \<and>
    aes_key y = aes_key (toy_client carol 5) \<and>
    (\<forall>ws rest. live ws \<longrightarrow> concat ws = w \<longrightarrow>
      handshake toy_env 3 (ws @ map of_nat (username (toy_client carol 5)) # rest) toy_server =
        (Joined (username (toy_client carol 5)) (aes_key (toy_client carol 5)) (concat rest),
         toy_server\<lparr>clients := dict_set (clients toy_server) (username (toy_client carol 5))
           (3, aes_key (toy_client carol 5))\<rparr>))"
  by (rule login_end_to_end [of _ _ _ "[7]"])
    (simp_all add: toy_cenv_ok toy_pair frame_def pack_be32_def)

text \<open>All a client writes when it connects and sends one message.\<close>

lemma connect_and_send:
  fixes xs :: "'a client" and cbs :: "'a callbacks"
  assumes "cenv_ok ks" and "name_match 32 (username xs)" and "aes_key_ok (aes_key xs)"
    and "rsa_pair (k_crypto ks) hello priv" and "length hello \<le> 4096"
    and "name_match 32 v" and "list_all scalar_value m"
    and "check_message_size (dumps (JObj (text_request ''message'' ''user'' (username xs) v m
      (c_stamp ks xs)))) = Inr True"
  shows "\<exists>y ys w h enc. connect ks (Some (hello # segs)) xs = (Inr segs, y) \<and>
    send_message ks cbs v m y = (Inr True, ys) \<and>
    link ys = Link True (w @ map of_nat (username xs) @ frame_bytes enc) \<and>
    length w = 256 \<and> rsa_unwrap (k_crypto ks) priv w = Some (aes_key xs) \<and>
    frame_bytes enc = h @ enc \<and> length h = 4 \<and> unpack_be32 h = Inr (length enc) \<and>
    rbind (decrypt_message (k_crypto ks) enc (aes_key xs)) (loads (k_float ks)) =
      Inr (JObj (text_request ''message'' ''user'' (username xs) v m (c_stamp ks xs)))"
proof -
  let ?n = "map of_nat (username xs) :: bytes"
  let ?p = "text_request ''message'' ''user'' (username xs) v m (c_stamp ks xs)"
  have len: "length (aes_key xs) \<le> 190" using assms(3) by (auto simp: aes_key_ok_def)
  obtain w where w: "connect ks (Some (hello # segs)) xs = (Inr segs, xs\<lparr>link := Link True (w @ ?n)\<rparr>)"
    "length w = 256" "rsa_unwrap (k_crypto ks) priv w = Some (aes_key xs)"
    using connect_writes [OF assms(2) len assms(4,5), of segs] by auto
  let ?y = "xs\<lparr>link := Link True (w @ ?n)\<rparr>"
  have wf: "json_wf (k_float ks) (JObj ?p)"
    using c_stamp_ok(1) [OF assms(1)] assms(2,6,7)
    by (intro text_request_wf) (simp_all add: str_wf_name scalar_str_wf)
  obtain enc ys where ws: "send_text ks cbs (dumps (JObj ?p)) (c_tick ?y) = (Inr True, ys)"
    "wrote ks (JObj ?p) enc (c_tick ?y) ys"
    using send_text_writes [OF assms(1) _ _ wf assms(8), of "c_tick ?y" "w @ ?n" cbs] assms(3)
    by (auto simp: c_tick_def)
  note w2 = wrote_tick [OF ws(2)]
  have "send_message ks cbs v m ?y = (Inr True, ys)"
    using ws(1) assms(6) by (simp add: send_message_def c_stamp_def)
  moreover obtain h where "frame_bytes enc = h @ enc" "length h = 4" "unpack_be32 h = Inr (length enc)"
    using frame_split [OF frame_bytes_frame, of enc] w2 by (auto simp: wrote_def)
  moreover have "link ys = Link True (w @ ?n @ frame_bytes enc)"
    "rbind (decrypt_message (k_crypto ks) enc (aes_key xs)) (loads (k_float ks)) = Inr (JObj ?p)"
    using w2 by (auto simp: wrote_def)
  ultimately show ?thesis using w by blast
qed

text \<open>C13
  The key exchange is not authenticated. Behind a proxy that sends a key pair of its own instead of
  the server's, a client connects and sends a message as usual; from the bytes the client wrote,
  in any segmentation, the proxy reads the client's whole request in clear; and what it passes
  on makes the real server register the client under the same name and key, followed by the
  client's own frame, so neither side can tell.\<close>

theorem mitm_reads_message:
  fixes xs :: "'a client" and cbs :: "'a callbacks"
  assumes "env_ok e" and "cenv_ok ks" and "same_prims ks e"
    and "name_match 32 (username xs)" and "aes_key_ok (aes_key xs)"
    and "frame pem = Inr hello" and "length hello \<le> 4096" and "rsa_pair (e_crypto e) hello priv"
    and "frame real_pem = Inr greeting" and "rsa_pair (e_crypto e) real_pem (e_private e)"
    and "live ss" and "concat ss = greeting @ later"
    and "name_match 32 v" and "list_all scalar_value m"
    and "check_message_size (dumps (JObj (text_request ''message'' ''user'' (username xs) v m
      (c_stamp ks xs)))) = Inr True"
    and "dict_get (clients s) (username xs) = None"
  shows "\<exists>y ys out enc w'. connect ks (Some (hello # segs)) xs = (Inr segs, y) \<and>
    send_message ks cbs v m y = (Inr True, ys) \<and> link ys = Link True out \<and>
    (\<forall>vs. live vs \<longrightarrow> concat vs = out \<longrightarrow>
      captured_payload (proxy_run (e_crypto e) (e_float e) pem priv (map of_nat (username xs)) vs ss) =
        Some (JObj (text_request ''message'' ''user'' (username xs) v m (c_stamp ks xs))) \<and>
      mitm_passes (proxy_run (e_crypto e) (e_float e) pem priv (map of_nat (username xs)) vs ss) m \<and>
      proxy_error (proxy_run (e_crypto e) (e_float e) pem priv (map of_nat (username xs)) vs ss) = None \<and>
      to_server (proxy_run (e_crypto e) (e_float e) pem priv (map of_nat (username xs)) vs ss) =
        w' @ map of_nat (username xs) @ frame_bytes enc) \<and>
    (\<forall>ws rest. live ws \<longrightarrow> concat ws = w' \<longrightarrow>
      handshake e c (ws @ map of_nat (username xs) # rest) s =
        (Joined (username xs) (aes_key xs) (concat rest),
         s\<lparr>clients := dict_set (clients s) (username xs) (c, aes_key xs)\<rparr>))"
proof -
  let ?u = "username xs"
  let ?n = "map of_nat ?u :: bytes"
  let ?p = "text_request ''message'' ''user'' ?u v m (c_stamp ks xs)"
  have prims: "k_crypto ks = e_crypto e" "k_float ks = e_float e" using assms(3) by (simp_all add: same_prims_def)
  have len: "length (aes_key xs) \<le> 190" using assms(5) by (auto simp: aes_key_ok_def)
  obtain y ys w h enc where c: "connect ks (Some (hello # segs)) xs = (Inr segs, y)"
      "send_message ks cbs v m y = (Inr True, ys)" "link ys = Link True (w @ ?n @ frame_bytes enc)"
    and w: "length w = 256" "rsa_unwrap (e_crypto e) priv w = Some (aes_key xs)"
    and h: "frame_bytes enc = h @ enc" "length h = 4" "unpack_be32 h = Inr (length enc)"
    and opened: "rbind (decrypt_message (e_crypto e) enc (aes_key xs)) (loads (e_float e)) = Inr (JObj ?p)"
    using connect_and_send [OF assms(2,4,5) _ assms(7,13,14,15), of priv segs cbs] assms(8) prims by auto
  obtain hd0 where hd0: "greeting = hd0 @ real_pem" "length hd0 = 4"
    "unpack_be32 hd0 = Inr (length real_pem)" using frame_split [OF assms(9)] by blast
  obtain w' where w': "rsa_wrap (e_crypto e) real_pem (aes_key xs) = Inr w'" "length w' = 256"
    "rsa_unwrap (e_crypto e) (e_private e) w' = Some (aes_key xs)"
    using assms(10) len by (auto simp: rsa_pair_def)
  have "captured_payload (proxy_run (e_crypto e) (e_float e) pem priv ?n vs ss) = Some (JObj ?p) \<and>
      mitm_passes (proxy_run (e_crypto e) (e_float e) pem priv ?n vs ss) m \<and>
      proxy_error (proxy_run (e_crypto e) (e_float e) pem priv ?n vs ss) = None \<and>
      to_server (proxy_run (e_crypto e) (e_float e) pem priv ?n vs ss) = w' @ ?n @ frame_bytes enc"
    if "live vs" "concat vs = w @ ?n @ frame_bytes enc" for vs
    using proxy_run_captures [OF assms(11) _ hd0(2,3) assms(6) that(1) _ w w'(1) h(2,3) opened,
        of later ?n] assms(12) hd0(1) h(1) that(2) by (simp add: mitm_passes_def text_request_fields)
  moreover have "handshake e c (ws @ ?n # rest) s =
      (Joined ?u (aes_key xs) (concat rest), s\<lparr>clients := dict_set (clients s) ?u (c, aes_key xs)\<rparr>)"
    if "live ws" "concat ws = w'" for ws rest
    by (rule handshake_joins) (use that w' assms(4,16) in auto)
  ultimately show ?thesis using c by blast
qed

theorem mitm_reads_message_witness:
  "\<exists>y ys out enc w'. connect toy_cenv (Some ([0, 0, 0, 1, 7] # [])) (toy_client carol 5) = (Inr [], y) \<and>
    send_message toy_cenv log_callbacks bob (lit ''hi'') y = (Inr True, ys) \<and> link ys = Link True out \<and>
    (\<forall>vs. live vs \<longrightarrow> concat vs = out \<longrightarrow>
      captured_payload (proxy_run (e_crypto toy_env) (e_float toy_env) [7] []
        (map of_nat (username (toy_client carol 5))) vs [[0, 0], [0, 1, 8]]) =
        Some (JObj (text_request ''message'' ''user'' (username (toy_client carol 5)) bob (lit ''hi'')
          (c_stamp toy_cenv (toy_client carol 5)))) \<and>
      mitm_passes (proxy_run (e_crypto toy_env) (e_float toy_env) [7] []
        (map of_nat (username (toy_client carol 5))) vs [[0, 0], [0, 1, 8]]) (lit ''hi'') \<and>
      proxy_error (proxy_run (e_crypto toy_env) (e_float toy_env) [7] []
        (map of_nat (username (toy_client carol 5))) vs [[0, 0], [0, 1, 8]]) = None \<and>
      to_server (proxy_run (e_crypto toy_env) (e_float toy_env) [7] []
        (map of_nat (username (toy_client carol 5))) vs [[0, 0], [0, 1, 8]]) =
        w' @ map of_nat (username (toy_client carol 5)) @ frame_bytes enc) \<and>
    (\<forall>ws rest. live ws \<longrightarrow> concat ws = w' \<longrightarrow>
      handshake toy_env 3 (ws @ map of_nat (username (toy_client carol 5)) # rest) toy_server =
        (Joined (username (toy_client carol 5)) (aes_key (toy_client carol 5)) (concat rest),
         toy_server\<lparr>clients := dict_set (clients toy_server) (username (toy_client carol 5))
           (3, aes_key (toy_client carol 5))\<rparr>))"
proof (rule mitm_reads_message [where real_pem = "[8]" and greeting = "[0, 0, 0, 1, 8]" and later = "[]"])
  show "check_message_size (dumps (JObj (text_request ''message'' ''user'' (username (toy_client carol 5))
      bob (lit ''hi'') (c_stamp toy_cenv (toy_client carol 5))))) = Inr True"
    by (simp add: text_request_def c_stamp_def toy_cenv_def toy_client_def carol_def bob_def py_eval
        dumps_str_def esc_char_def check_message_size_def utf8_encode_ascii size_limits)
qed (simp_all add: toy_env_ok toy_cenv_ok toy_pair frame_def pack_be32_def live_def py_eval
    scalar_value_def is_surrogate_def)

text \<open>C29
  The fixed-size read of the greeting takes what follows it. When the greeting and a frame after
  it arrive together and the key loader accepts the longer text, the demo passes exactly when
  the two fit the 4096 bytes of the read; and then a real client connects all the same and
  its receive loop goes on with only the segments after, the frame being lost.\<close>

theorem greeting_read_swallows_frame:
  assumes "frame key = Inr hello" and "frame body = Inr f"
    and "load_ok (take 4096 (hello @ f))" and "rsa_pair (k_crypto ks) (hello @ f) priv"
    and "name_match 32 (username x)" and "aes_key_ok (aes_key x)"
  shows "(desync_passes load_ok key body \<longleftrightarrow> length hello + length f \<le> 4096) \<and>
    (length hello + length f \<le> 4096 \<longrightarrow>
      handshake_desync load_ok key body = Inr (length key, length hello + length f, f, []) \<and>
      (\<exists>y. connect ks (Some ((hello @ f) # segs)) x = (Inr segs, y)))"
proof -
  obtain h where h: "hello = h @ key" "length h = 4" "unpack_be32 h = Inr (length key)"
    using frame_split [OF assms(1)] by blast
  have d: "handshake_desync load_ok key body = Inr (length key, length hello + length f, f, []) \<and>
      (\<exists>y. connect ks (Some ((hello @ f) # segs)) x = (Inr segs, y))"
    if fit: "length hello + length f \<le> 4096"
  proof
    show "handshake_desync load_ok key body = Inr (length key, length hello + length f, f, [])"
      using fit assms(1-3) h by (simp add: handshake_desync_def recv_def rmap_def)
    have "length (aes_key x) \<le> 190" using assms(6) by (auto simp: aes_key_ok_def)
    then show "\<exists>y. connect ks (Some ((hello @ f) # segs)) x = (Inr segs, y)"
      using connect_writes [OF assms(5) _ assms(4), of segs] fit by auto
  qed
  have "\<not> desync_passes load_ok key body" if long: "4096 < length hello + length f"
  proof -
    have "handshake_desync load_ok key body =
        Inr (length key, 4096, drop (4 + length key) (take 4096 (hello @ f)), take 4 (drop 4096 (hello @ f)))"
      using long assms(1-3) h by (auto simp: handshake_desync_def recv_def rmap_def)
    moreover have "take 4 (drop 4096 (hello @ f)) \<noteq> []" using long by (simp add: take_eq_Nil) linarith
    ultimately show ?thesis using assms(2) by (simp add: desync_passes_def)
  qed
  moreover have "desync_passes load_ok key body" if "length hello + length f \<le> 4096"
    using d [OF that] assms(2) by (simp add: desync_passes_def)
  ultimately show ?thesis using d by (meson not_le)
qed

theorem greeting_read_swallows_frame_witness:
  "desync_passes (\<lambda>_. True) [7] [1, 2] \<and>
   handshake_desync (\<lambda>_. True) [7] [1, 2] = Inr (1, 11, [0, 0, 0, 2, 1, 2], []) \<and>
   (\<exists>y. connect toy_cenv (Some (([0, 0, 0, 1, 7] @ [0, 0, 0, 2, 1, 2]) # [[5]])) (toy_client carol 5) =
     (Inr [[5]], y))"
proof -
  have "rsa_pair (k_crypto toy_cenv) ([0, 0, 0, 1, 7] @ [0, 0, 0, 2, 1, 2]) []"
    using toy_rsa_pair by (simp add: toy_cenv_def)
  from greeting_read_swallows_frame [of "[7]" "[0, 0, 0, 1, 7]" "[1, 2]" "[0, 0, 0, 2, 1, 2]"
      "\<lambda>_. True", OF _ _ _ this, of "toy_client carol 5" "[[5]]"]
  show ?thesis by (simp add: frame_def pack_be32_def)
qed

section \<open>What the server lets through\<close>

text \<open>C27
  The conversation is bound to the sender, the displayed name is not. A direct message the server
  accepts is delivered with the sender's registered name as its conversation whatever its
  \<open>from\<close> said; but a field \<open>sender\<close> of the frame is passed on, and the recipient's client
  hands its value, any JSON value the author chose, to its owner as the name of the sender.\<close>

theorem displayed_sender_unbound:
  fixes cbr :: "'b callbacks" and xr :: "'b client"
  assumes "frame_payload e k b = Some p" and "jget p (lit ''type'') = JStr (lit ''message'')"
    and "accepts_message e p v" and "env_ok e" and "name_match 32 u"
    and "dict_get (clients s) v = Some t" and "live_target s t"
    and "length (dumps (JObj p)) + 400 \<le> MAX_FRAME_SIZE"
    and "aes_key xr = snd t" and "same_prims kr e"
  shows "\<exists>d. deliveries s (process_frame e u c k b s) = [d] \<and> target_of d = t \<and>
    receive_loop kr cbr (d_bytes d) xr =
      snd (notify cbr (JStr u) (jget p (lit ''payload''))
        (Some (jget_or p (lit ''sender'') (JStr u))) xr)"
proof -
  note rel = relay_message [OF assms(1-8), of c]
  obtain d where d: "deliveries s (process_frame e u c k b s) = [d]" "target_of d = t"
    using relayed_one [OF rel] by blast
  have dd: "d \<in> set (deliveries s (process_frame e u c k b s))" by (simp add: d(1))
  have "aes_key xr = d_key d" using d(2) assms(9) by (auto simp: target_of_def)
  from receive_one [OF relayed_each(1,2) [OF rel dd] this assms(10), of cbr]
  have "receive_loop kr cbr (d_bytes d) xr = snd (notify cbr (JStr u) (jget p (lit ''payload''))
      (Some (jget_or p (lit ''sender'') (JStr u))) xr)"
    using assms(2) by (simp add: dispatch_message message_payload_def)
  with d show ?thesis by blast
qed

text \<open>Alice's message to Bob with another sender written in it.\<close>

definition forged_message :: jobject where
  "forged_message = toy_message @ [(lit ''sender'', JStr carol)]"

lemma forged_message_fields:
  "jget forged_message (lit ''type'') = JStr (lit ''message'')"
  "jget forged_message (lit ''to'') = JStr bob"
  "jget forged_message (lit ''payload'') = JStr (lit ''hi'')"
  "jget_or forged_message (lit ''payload'') w = JStr (lit ''hi'')"
  "jget_or forged_message (lit ''sender'') w = JStr carol"
  by (simp_all add: forged_message_def toy_message_def text_request_def jget_def jget_or_def dict_get_Cons)

theorem displayed_sender_unbound_witness:
  "\<exists>b d. deliveries toy_server (process_frame toy_env alice 1 (key_of 1) b toy_server) = [d] \<and>
    target_of d = (2, key_of 2) \<and>
    receive_loop toy_cenv log_callbacks (d_bytes d) (toy_client bob 2) =
      snd (notify log_callbacks (JStr alice) (JStr (lit ''hi'')) (Some (JStr carol)) (toy_client bob 2))"
proof -
  have "json_wf toy_float (JObj forged_message)"
    using str_wf_name [OF toy_names(1)] str_wf_name [OF toy_names(2)] str_wf_name [OF toy_names(3)]
    by (simp add: forged_message_def toy_message_def text_request_def dict_ok_def)
  then obtain b where b: "frame_payload toy_env (key_of 1) b = Some forged_message"
    using toy_frame by blast
  have acc: "accepts_message toy_env forged_message bob"
    by (simp add: accepts_message_def forged_message_fields)
      (simp add: check_message_size_def utf8_encode_ascii py_eval size_limits)
  have size: "length (dumps (JObj forged_message)) + 400 \<le> MAX_FRAME_SIZE"
    by (simp add: forged_message_def toy_message_def text_request_def alice_def bob_def carol_def
        dumps_str_def esc_char_def py_eval size_limits)
  show ?thesis
    using displayed_sender_unbound [OF b forged_message_fields(1) acc toy_env_ok toy_names(1)
        toy_server_simps(2) toy_server_simps(5) size, of "toy_client bob 2" toy_cenv 1 log_callbacks]
    by (auto simp: toy_cenv_ok forged_message_fields)
qed

text \<open>C28
  Only direct messages have a size limit on the server. For the text of any size that the frame
  limit leaves room for, a group message of a member is delivered to every other member on line,
  each of whose clients hands the text over; the same text in a direct message, if it is over
  64 KB, is answered with an error and nothing else.\<close>

theorem group_text_unbounded:
  fixes cbr :: "'b callbacks"
  assumes "frame_payload e k b = Some p" and "jget p (lit ''type'') = JStr (lit ''group_message'')"
    and "jget p (lit ''to'') = JStr g" and "name_match 48 g" and "in_group s g u"
    and "jget_or p (lit ''payload'') (JStr []) = JStr m" and "check_message_size m = Inr False"
    and "env_ok e" and "name_match 32 u" and "list_all (live_target s) (group_targets s g u)"
    and "length (dumps (JObj p)) + length (dumps (jget p (lit ''payload''))) + 500 \<le> MAX_FRAME_SIZE"
  shows "map target_of (deliveries s (process_frame e u c k b s)) = group_targets s g u \<and>
    (\<forall>d \<in> set (deliveries s (process_frame e u c k b s)). \<forall>kr (xr :: 'b client).
      same_prims kr e \<longrightarrow> aes_key xr = d_key d \<longrightarrow>
      receive_loop kr cbr (d_bytes d) xr =
        snd (notify cbr (JStr (35 # g)) (JStr m) (Some (JStr u)) xr)) \<and>
    (\<forall>v q. jget q (lit ''to'') = JStr v \<longrightarrow> name_match 32 v \<longrightarrow>
      jget_or q (lit ''payload'') (JStr []) = JStr m \<longrightarrow>
      handle_message e u c k q s = send_error e c k
        (lit ''Message dropped. Exceeds limit of '' @ int_str (int MAX_MESSAGE_SIZE) @ lit ''.'') s)"
proof -
  note rel = relay_group_message [OF assms(1-5,8-11), of c]
  have "m \<noteq> []" using assms(7) by (auto simp: check_message_size_def utf8_encode_def)
  then have m: "jget p (lit ''payload'') = JStr m"
    using assms(6) by (auto simp: jget_def jget_or_def split: option.splits)
  have "receive_loop kr cbr (d_bytes d) xr = snd (notify cbr (JStr (35 # g)) (JStr m) (Some (JStr u)) xr)"
    if "d \<in> set (deliveries s (process_frame e u c k b s))" "same_prims kr e" "aes_key xr = d_key d"
    for d kr and xr :: "'b client"
    using receive_one [OF relayed_each(1,2) [OF rel that(1)] that(3,2), of cbr] assms(2) m
    by (simp add: dispatch_group_message hash_name_def)
  moreover have "map target_of (deliveries s (process_frame e u c k b s)) = group_targets s g u"
    using rel delivered_deliveries by (auto simp: relayed_def)
  moreover have "handle_message e u c k q s = send_error e c k
      (lit ''Message dropped. Exceeds limit of '' @ int_str (int MAX_MESSAGE_SIZE) @ lit ''.'') s"
    if "jget q (lit ''to'') = JStr v" "name_match 32 v" "jget_or q (lit ''payload'') (JStr []) = JStr m" for v q
    using that assms(7) by (simp add: handle_message_def)
  ultimately show ?thesis by blast
qed

definition long_group_message :: jobject where
  "long_group_message =
     text_request ''group_message'' ''group'' alice team (replicate 70000 97) JNull"

lemma long_group_message_size:
  "length (dumps (JObj long_group_message)) +
     length (dumps (jget long_group_message (lit ''payload''))) + 500 \<le> MAX_FRAME_SIZE"
proof -
  have "length (dumps_str (replicate 70000 97)) = 70002"
    using length_dumps_plain [of "replicate 70000 97"] by (simp add: list_all_iff)
  then show ?thesis
    unfolding long_group_message_def text_request_fields
    by (simp add: text_request_def alice_def team_def key_sizes file_key_sizes size_limits
        length_dumps_plain py_eval)
qed

theorem group_text_unbounded_witness:
  "\<exists>b. map target_of (deliveries toy_server (process_frame toy_env alice 1 (key_of 1) b toy_server)) =
      [(2, key_of 2)] \<and>
    (\<forall>d \<in> set (deliveries toy_server (process_frame toy_env alice 1 (key_of 1) b toy_server)).
      \<forall>kr (xr :: log client). same_prims kr toy_env \<longrightarrow> aes_key xr = d_key d \<longrightarrow>
      receive_loop kr log_callbacks (d_bytes d) xr = snd (notify log_callbacks (JStr (35 # team))
        (JStr (replicate 70000 97)) (Some (JStr alice)) xr))"
proof -
  let ?m = "replicate 70000 97 :: pystr"
  have sc: "list_all scalar_value ?m" by (simp add: list_all_iff scalar_value_def is_surrogate_def)
  have "json_wf toy_float (JObj long_group_message)"
    unfolding long_group_message_def
    by (rule text_request_wf) (simp_all add: str_wf_name [of 32] str_wf_name [of 48] scalar_str_wf [OF sc])
  then obtain b where b: "frame_payload toy_env (key_of 1) b = Some long_group_message"
    using toy_frame by blast
  have big: "check_message_size ?m = Inr False"
    by (simp add: check_message_size_def utf8_encode_ascii list_all_iff size_limits)
  have live: "list_all (live_target toy_server) (group_targets toy_server team alice)"
    by (simp add: toy_group_targets)
  have f: "jget long_group_message (lit ''type'') = JStr (lit ''group_message'')"
    "jget long_group_message (lit ''to'') = JStr team" "in_group toy_server team alice"
    "jget_or long_group_message (lit ''payload'') (JStr []) = JStr ?m"
    by (simp_all add: long_group_message_def text_request_fields in_group_def group_members_def)
  note r = group_text_unbounded [OF b f(1,2) toy_names(4) f(3,4) big toy_env_ok toy_names(1) live
      long_group_message_size, of 1 log_callbacks, unfolded toy_group_targets]
  show ?thesis
    by (rule exI [of _ b], rule conjI [OF conjunct1 [OF r] conjunct1 [OF conjunct2 [OF r]]])
qed

section \<open>From window to window\<close>

text \<open>C17
  What one user types the other one sees. When a user with a conversation selected presses Send,
  the stripped text goes out as one frame, the window files it as the user's own note and clears
  the entry; the server delivers it to the recipient alone; and in the recipient's window it is
  appended to the conversation with the sender's registered name, and shown at once when that
  conversation is selected.\<close>

theorem typed_message_shown:
  fixes xs xr :: "gui client"
  assumes "env_ok e" and "cenv_ok ks" and "same_prims ks e" and "same_prims kr e"
    and "link xs = Link True out" and "aes_key_ok (aes_key xs)" and "str_wf (username xs)"
    and "name_match 32 u" and "name_match 32 v" and "list_all scalar_value m"
    and "check_message_size (dumps (JObj (text_request ''message'' ''user'' (username xs) v m
      (c_stamp ks xs)))) = Inr True"
    and "dict_get (clients s) v = Some t" and "live_target s t" and "aes_key xr = snd t"
    and "active_user (owner xs) = Some v" and "m = str_strip (entry_field (owner xs))" and "m \<noteq> []"
    and "u \<noteq> lit ''System''" and "in_sync (owner xr)"
  shows "\<exists>enc ys d g. gui_send ks now xs = (Inr (), ys) \<and>
    link ys = Link True (out @ frame_bytes enc) \<and> entry_field (owner ys) = [] \<and>
    history (owner ys) (Some v) =
      history (owner xs) (Some v) @ [(now (g_ticks (owner xs)), lit ''You'', JStr m)] \<and>
    deliveries s (process_frame e u c (aes_key xs) enc s) = [d] \<and> target_of d = t \<and>
    g = owner (receive_loop kr (gui_callbacks now') (d_bytes d) xr) \<and>
    history g (Some u) =
      history (owner xr) (Some u) @ [(now' (g_ticks (owner xr)), u, JStr m)] \<and>
    chat_frame g = map bubble_of (history g (active_user g))"
proof -
  obtain enc ys d where m: "send_message ks (gui_callbacks now) v m xs = (Inr True, ys)"
    "owner ys = owner xs" "link ys = Link True (out @ frame_bytes enc)"
    "deliveries s (process_frame e u c (aes_key xs) enc s) = [d]" "target_of d = t"
    "receive_loop kr (gui_callbacks now') (d_bytes d) xr =
      snd (notify (gui_callbacks now') (JStr u) (JStr m) (Some (JStr u)) xr)"
    using message_path [OF assms(1-14), of "gui_callbacks now" c "gui_callbacks now'"] by blast
  have v: "v \<noteq> []" "hd v \<noteq> 35"
    using assms(9) by (cases v; auto simp: name_match_def is_name_char_def)+
  obtain ys' where s: "gui_send ks now xs = (Inr (), ys')"
    "ys' = ys\<lparr>owner := (note_own now m (owner ys))\<lparr>entry_field := []\<rparr>\<rparr>"
    using m(1) assms(15-17) v by (simp add: gui_send_def abind_def on_owner_def Let_def)
  let ?g = "owner (receive_loop kr (gui_callbacks now') (d_bytes d) xr)"
  have g: "?g = snd (gui_message now' (JStr u) (JStr m) (Some (JStr u)) (owner xr))"
    unfolding m(6) by (simp add: notify_def gui_callbacks_def split: prod.split)
  have "in_sync ?g"
    using gui_message_keeps [of "owner xr" now' "JStr u" "JStr m" "Some (JStr u)"] assms(19)
    unfolding g by (simp add: gui_keeps_def)
  moreover have "history ?g (Some u) =
      history (owner xr) (Some u) @ [(now' (g_ticks (owner xr)), u, JStr m)]"
    unfolding g using gui_message_named(1) [OF assms(8,18), of "Some (JStr u)" now' "JStr m" "owner xr" "Some u"]
    by simp
  ultimately show ?thesis
    using s m assms(15) by (auto simp: in_sync_def note_own_def)
qed

text \<open>Two windows: Alice has typed a message to Bob.\<close>

definition toy_window :: "pystr \<Rightarrow> nat \<Rightarrow> gui client" where
  "toy_window u n =
     \<lparr>username = u, aes_key = key_of n, link = Link True [], session_token = JNull, files = [],
      owner = new_gui u, c_draws = 1, c_ticks = 0\<rparr>"

definition typing_window :: "gui client" where
  "typing_window = (toy_window alice 1)\<lparr>owner := (new_gui alice)\<lparr>active_user := Some bob,
     entry_field := lit '' hi ''\<rparr>\<rparr>"

theorem typed_message_shown_witness:
  "\<exists>enc ys d g. gui_send toy_cenv (\<lambda>i. []) typing_window = (Inr (), ys) \<and>
    link ys = Link True ([] @ frame_bytes enc) \<and> entry_field (owner ys) = [] \<and>
    history (owner ys) (Some bob) = history (owner typing_window) (Some bob) @ [([], lit ''You'', JStr (lit ''hi''))] \<and>
    deliveries toy_server (process_frame toy_env alice 1 (aes_key typing_window) enc toy_server) = [d] \<and>
    target_of d = (2, key_of 2) \<and>
    g = owner (receive_loop toy_cenv (gui_callbacks (\<lambda>i. [])) (d_bytes d) (toy_window bob 2)) \<and>
    history g (Some alice) = history (owner (toy_window bob 2)) (Some alice) @ [([], alice, JStr (lit ''hi''))] \<and>
    chat_frame g = map bubble_of (history g (active_user g))"
proof (rule typed_message_shown)
  show "check_message_size (dumps (JObj (text_request ''message'' ''user'' (username typing_window)
      bob (lit ''hi'') (c_stamp toy_cenv typing_window)))) = Inr True"
    by (simp add: text_request_def c_stamp_def toy_cenv_def typing_window_def toy_window_def alice_def
        bob_def py_eval dumps_str_def esc_char_def check_message_size_def utf8_encode_ascii size_limits)
  show "lit ''hi'' = str_strip (entry_field (owner typing_window))"
    by (simp add: typing_window_def py_eval str_strip_def strip_by_def is_space_def)
qed (simp_all add: toy_env_ok toy_cenv_ok typing_window_def toy_window_def str_wf_name [OF toy_names(1)]
    py_eval scalar_value_def is_surrogate_def new_gui_def in_sync_def history_def,
    simp_all add: alice_def py_eval)

end
